(* ===== verification/Prelude.thy ===== *)
theory Prelude
  imports Main "HOL-Library.Word" "HOL-Library.Monad_Syntax"
begin

text \<open>
  Shared vocabulary of the development: the machine types of the C sources, byte buffers,
  the model of a non-blocking byte source, pointers into a typed heap, and the generic lemmas
  the component theories rely on.

  Conventions used throughout.
  \<^item> \<open>'a option\<close> as the result of an operation on memory: \<open>None\<close> is undefined behaviour of
    the C program (a NULL or dangling dereference, an access outside an object).
  \<^item> C integers keep their width (\<open>8 word\<close> \<dots> \<open>64 word\<close>) wherever the code computes with
    them on untrusted input; counters that the code only moves between proven bounds are \<open>nat\<close>.
  \<^item> A pointer parameter that every caller passes as the address of a live object is a value of
    the object's record type, so that the \<open>if (p == NULL)\<close> guard on it, which those callers
    cannot reach, has no branch; a pointer that may be NULL is an \<open>option\<close>, guard included.
  \<^item> Log lines and condition-variable signals are not part of the state.
  \<^item> The answer of \<open>malloc\<close> is an argument of the operation that calls it (\<open>None\<close> is NULL).
  \<^item> A critical section under a mutex is one atomic operation on the state it protects.
\<close>

unbundle bit_operations_syntax

section \<open>Collections of rewrite rules\<close>

named_theorems codec_simps \<open>byte layout of encoded words and packets\<close>
named_theorems heap_simps \<open>updates and lookups of typed heaps\<close>
named_theorems ring_simps \<open>index arithmetic of ring buffers\<close>

section \<open>Machine types\<close>

type_synonym u8 = "8 word"
type_synonym u16 = "16 word"
type_synonym u32 = "32 word"
type_synonym u64 = "64 word"

type_synonym bytes = "u8 list"

text \<open>The values of \<open>errno\<close> the sources distinguish; every other value is \<open>EOTHER\<close>.\<close>

datatype errno = EINTR | EAGAIN | EOTHER

lemma xor_left_cancel: "c XOR a = c XOR b \<longleftrightarrow> a = b" for a b c :: "'a::len word"
proof
  assume "c XOR a = c XOR b"
  then have "c XOR (c XOR a) = c XOR (c XOR b)" by simp
  then show "a = b" by (simp flip: xor.assoc)
qed simp

lemma xor_right_cancel: "a XOR c = b XOR c \<longleftrightarrow> a = b" for a b c :: "'a::len word"
  using xor_left_cancel [of c a b] by (simp add: ac_simps)

section \<open>Byte buffers\<close>

text \<open>
  \<open>poke off bs buf\<close> is \<open>memcpy(buf + off, bs, length bs)\<close> into an object of
  \<open>length buf\<close> bytes; \<open>peek off n buf\<close> reads \<open>n\<close> bytes at \<open>buf + off\<close>.
\<close>

definition poke :: "nat \<Rightarrow> bytes \<Rightarrow> bytes \<Rightarrow> bytes option" where
  "poke off bs buf =
     (if off + length bs \<le> length buf
      then Some (take off buf @ bs @ drop (off + length bs) buf) else None)"

definition peek :: "nat \<Rightarrow> nat \<Rightarrow> bytes \<Rightarrow> bytes option" where
  "peek off n buf = (if off + n \<le> length buf then Some (take n (drop off buf)) else None)"

lemma poke_Some_length: "poke off bs buf = Some buf' \<Longrightarrow> length buf' = length buf"
  by (auto simp: poke_def split: if_splits)

lemma poke_in_bounds: "off + length bs \<le> length buf \<Longrightarrow> \<exists>buf'. poke off bs buf = Some buf'"
  by (simp add: poke_def)

lemma peek_Some_length: "peek off n buf = Some bs \<Longrightarrow> length bs = n"
  by (auto simp: peek_def split: if_splits)

text \<open>Writing a buffer front to back: each write extends the finished prefix.\<close>

lemma poke_seq:
  "length xs = off \<Longrightarrow> off + length bs \<le> length buf \<Longrightarrow>
   poke off bs (xs @ drop off buf) = Some ((xs @ bs) @ drop (off + length bs) buf)"
  by (simp add: poke_def add.commute)

lemma peek_append:
  "length xs = off \<Longrightarrow> length bs = n \<Longrightarrow> peek off n (xs @ bs @ ys) = Some bs"
  by (simp add: peek_def)

text \<open>The bytes of a string literal, without the terminator, and the string a C pointer denotes.\<close>

definition ascii :: "string \<Rightarrow> bytes" where "ascii cs = map (\<lambda>c. word_of_nat (of_char c)) cs"

lemma ascii_length [simp]: "length (ascii cs) = length cs"
  by (simp add: ascii_def)

definition cstr :: "bytes \<Rightarrow> bytes" where "cstr bs = takeWhile (\<lambda>b. b \<noteq> 0) bs"

lemma cstr_id: "0 \<notin> set bs \<Longrightarrow> cstr bs = bs" "0 \<notin> set bs \<Longrightarrow> cstr (bs @ 0 # cs) = bs"
  by (induction bs) (auto simp: cstr_def)

section \<open>Reading from a non-blocking byte source\<close>

text \<open>
  One call of \<open>recv\<close> or \<open>SSL_read\<close>: data, an orderly end of the stream (return value 0), or
  a failure with its \<open>errno\<close>. The call itself is a parameter \<open>rd\<close> of the functions that
  make it: \<open>rd w n\<close> asks the world \<open>w\<close> for at most \<open>n\<close> bytes.
\<close>

datatype rx_result = RxData bytes | RxEof | RxErr errno

type_synonym 'w reader = "'w \<Rightarrow> nat \<Rightarrow> rx_result \<times> 'w"

text \<open>
  The contract of such a call. \<open>avail w\<close> are the bytes that have arrived and can be read
  without blocking, and \<open>work\<close> bounds how often the call can still deliver data or be
  interrupted. A call delivers at least one and at most \<open>n\<close> of the available bytes, in order,
  whatever portions it chooses; while bytes are available it does not report anything but an
  interruption; and a call that delivers nothing consumes nothing.
\<close>

locale byte_reader =
  fixes rd :: "'w reader" and avail :: "'w \<Rightarrow> bytes" and work :: "'w \<Rightarrow> nat"
  assumes rd_data: "rd w n = (RxData bs, w') \<Longrightarrow> length bs \<le> n \<and> avail w = bs @ avail w'"
    and rd_progress: "0 < n \<Longrightarrow> rd w n = (RxData bs, w') \<Longrightarrow> bs \<noteq> [] \<and> work w' < work w"
    and rd_interrupt: "rd w n = (RxErr EINTR, w') \<Longrightarrow> work w' < work w"
    and rd_keep: "rd w n = (RxErr e, w') \<or> rd w n = (RxEof, w') \<Longrightarrow> avail w' = avail w"
    and rd_ready: "avail w \<noteq> [] \<Longrightarrow> 0 < n \<Longrightarrow>
      (\<exists>bs w'. rd w n = (RxData bs, w')) \<or> (\<exists>w'. rd w n = (RxErr EINTR, w'))"

text \<open>
  The socket the sources read from, as the kernel presents it to a non-blocking reader: a
  queue of arrivals. Bytes that were not asked for stay queued; an empty queue is \<open>EAGAIN\<close>.
\<close>

datatype arrival = Chunk bytes | Interrupt | Hangup | Broken

fun sock_recv :: "arrival list reader" where
  "sock_recv [] n = (RxErr EAGAIN, [])"
| "sock_recv (Chunk [] # w) n = sock_recv w n"
| "sock_recv (Chunk bs # w) n =
     (RxData (take n bs), (if length bs \<le> n then w else Chunk (drop n bs) # w))"
| "sock_recv (Interrupt # w) n = (RxErr EINTR, w)"
| "sock_recv (Hangup # w) n = (RxEof, Hangup # w)"
| "sock_recv (Broken # w) n = (RxErr EOTHER, Broken # w)"

fun sock_work :: "arrival list \<Rightarrow> nat" where
  "sock_work [] = 0"
| "sock_work (Chunk bs # w) = length bs + sock_work w"
| "sock_work (Interrupt # w) = Suc (sock_work w)"
| "sock_work (Hangup # w) = 0"
| "sock_work (Broken # w) = 0"

fun sock_avail :: "arrival list \<Rightarrow> bytes" where
  "sock_avail [] = []"
| "sock_avail (Chunk bs # w) = bs @ sock_avail w"
| "sock_avail (Interrupt # w) = sock_avail w"
| "sock_avail (Hangup # w) = []"
| "sock_avail (Broken # w) = []"

lemma sock_recv_data:
  "sock_recv w n = (RxData bs, w') \<Longrightarrow> length bs \<le> n \<and> sock_avail w = bs @ sock_avail w'"
proof (induction w n rule: sock_recv.induct)
  case (3 b bs' w n)
  have "take n (b # bs') @ drop n (b # bs') = b # bs'" by (rule append_take_drop_id)
  with 3 show ?case by (auto simp del: append_take_drop_id split: if_splits)
qed simp_all

lemma sock_recv_keep:
  "sock_recv w n = (RxErr e, w') \<or> sock_recv w n = (RxEof, w') \<Longrightarrow> sock_avail w' = sock_avail w"
  by (induction w n rule: sock_recv.induct) auto

lemma sock_recv_ready:
  "sock_avail w \<noteq> [] \<Longrightarrow> 0 < n \<Longrightarrow>
   (\<exists>bs w'. sock_recv w n = (RxData bs, w')) \<or> (\<exists>w'. sock_recv w n = (RxErr EINTR, w'))"
  by (induction w n rule: sock_recv.induct) simp_all

lemma sock_recv_progress:
  assumes "0 < n" and "sock_recv w n = (RxData bs, w')"
  shows "bs \<noteq> [] \<and> sock_work w' < sock_work w"
  using assms
proof (induction w n rule: sock_recv.induct)
  case (3 b bs w n)
  then show ?case by (cases n) (auto split: if_splits)
qed simp_all

lemma sock_recv_interrupt: "sock_recv w n = (RxErr EINTR, w') \<Longrightarrow> sock_work w' < sock_work w"
  by (induction w n rule: sock_recv.induct) simp_all

interpretation sock: byte_reader sock_recv sock_avail sock_work
  by unfold_locales
    (fact sock_recv_data sock_recv_progress sock_recv_interrupt sock_recv_keep sock_recv_ready)+

section \<open>Writing to a non-blocking byte sink\<close>

text \<open>
  One call of \<open>send\<close> or \<open>SSL_write\<close> with the bytes \<open>bs\<close>: the number of bytes taken (0 when
  the peer has closed), or a failure with its error code.
\<close>

datatype 'e tx_result = Sent nat | TxErr 'e

type_synonym ('e, 'w) sender = "'w \<Rightarrow> bytes \<Rightarrow> 'e tx_result \<times> 'w"

text \<open>
  The loop of the two \<open>send_data_to_client\<close> functions: send until \<open>len\<close> bytes are out.
  \<open>on_err e sent\<close> is what the code does after error \<open>e\<close> with \<open>sent\<close> bytes out:
  \<open>None\<close> tries again, \<open>Some r\<close> returns \<open>r\<close>. The result is undefined when the fuel runs out
  or the code reads past the end of \<open>data\<close>.
\<close>

fun send_all ::
  "nat \<Rightarrow> ('e, 'w) sender \<Rightarrow> ('e \<Rightarrow> nat \<Rightarrow> int option) \<Rightarrow> 'w \<Rightarrow> bytes \<Rightarrow> nat \<Rightarrow> nat \<Rightarrow> (int \<times> 'w) option" where
  "send_all 0 tx on_err w data len sent = None"
| "send_all (Suc k) tx on_err w data len sent =
     (if sent < len then do {
        bs \<leftarrow> peek sent (len - sent) data;
        case tx w bs of
          (TxErr e, w) \<Rightarrow>
            (case on_err e sent of
               None \<Rightarrow> send_all k tx on_err w data len sent
             | Some r \<Rightarrow> Some (r, w))
        | (Sent n, w) \<Rightarrow>
            if n = 0 then Some (1, w) else send_all k tx on_err w data len (sent + n)
      } else Some (int sent, w))"

text \<open>
  The contract of a sink: \<open>wire w\<close> is what has been handed over so far; a call appends a
  prefix of the bytes offered, a failure appends nothing, and \<open>work\<close> bounds how often it can
  still take bytes or ask for another try.
\<close>

locale byte_sender =
  fixes tx :: "('e, 'w) sender" and again :: "'e \<Rightarrow> bool"
    and wire :: "'w \<Rightarrow> bytes" and work :: "'w \<Rightarrow> nat"
  assumes tx_sent: "tx w bs = (Sent n, w') \<Longrightarrow>
      n \<le> length bs \<and> wire w' = wire w @ take n bs \<and> work w' \<le> work w \<and> (0 < n \<longrightarrow> work w' < work w)"
    and tx_error: "tx w bs = (TxErr e, w') \<Longrightarrow> wire w' = wire w \<and> work w' \<le> work w \<and> (again e \<longrightarrow> work w' < work w)"
begin

text \<open>
  With enough fuel the loop returns, and what is on the wire is exactly a prefix of the data:
  all of it, or the part sent before the error or the end of the connection it reports.
\<close>

lemma send_all_returns:
  assumes "work w < k" and "len \<le> length data" and "sent \<le> len"
    and "\<And>e m. on_err e m = None \<Longrightarrow> again e"
  shows "\<exists>r w' m. send_all k tx on_err w data len sent = Some (r, w') \<and> sent \<le> m \<and> m \<le> len \<and>
    wire w' = wire w @ take (m - sent) (drop sent data) \<and> work w' \<le> work w \<and>
    (m = len \<and> r = int len \<or> (\<exists>e. on_err e m = Some r) \<or> m < len \<and> r = 1)"
  using assms(1-3)
proof (induction k arbitrary: w sent)
  case (Suc k)
  show ?case
  proof (cases "sent < len")
    case False
    then show ?thesis using Suc.prems by (intro exI [of _ "int sent"] exI [of _ w] exI [of _ sent]) simp
  next
    case True
    let ?bs = "take (len - sent) (drop sent data)"
    have p: "peek sent (len - sent) data = Some ?bs" using True Suc.prems by (simp add: peek_def)
    have l: "length ?bs = len - sent" using True Suc.prems by simp
    obtain res w' where t: "tx w ?bs = (res, w')" by fastforce
    show ?thesis
    proof (cases res)
      case (TxErr e)
      with t tx_error have w: "wire w' = wire w" "work w' \<le> work w" "again e \<Longrightarrow> work w' < work w"
        by blast+
      show ?thesis
      proof (cases "on_err e sent")
        case None
        with w(3) assms(4) Suc.prems have "work w' < k" by fastforce
        from Suc.IH [OF this Suc.prems(2,3)] show ?thesis
          using True p t TxErr None w by fastforce
      next
        case (Some r)
        then show ?thesis using True p t TxErr w
          by (intro exI [of _ r] exI [of _ w'] exI [of _ sent]) auto
      qed
    next
      case (Sent n)
      with t tx_sent have w: "n \<le> len - sent" "wire w' = wire w @ take n ?bs" "work w' \<le> work w"
        "0 < n \<Longrightarrow> work w' < work w"
        using l by fastforce+
      show ?thesis
      proof (cases "n = 0")
        case True
        then show ?thesis using \<open>sent < len\<close> p t Sent w
          by (intro exI [of _ 1] exI [of _ w'] exI [of _ sent]) simp
      next
        case False
        then have "work w' < k" using w(4) Suc.prems by simp
        moreover have "sent + n \<le> len" using w(1) True by simp
        ultimately obtain r w'' m where
          ih: "send_all k tx on_err w' data len (sent + n) = Some (r, w'')" "sent + n \<le> m" "m \<le> len"
            "wire w'' = wire w' @ take (m - (sent + n)) (drop (sent + n) data)" "work w'' \<le> work w'"
            "m = len \<and> r = int len \<or> (\<exists>e. on_err e m = Some r) \<or> m < len \<and> r = 1"
          using Suc.IH [of w' "sent + n"] Suc.prems(2) by blast
        have "take n ?bs @ take (m - (sent + n)) (drop (sent + n) data) = take (m - sent) (drop sent data)"
          using ih(2) w(1) take_add [of n "m - sent - n" "drop sent data"] by (simp add: min_absorb1 add.commute)
        then have "wire w'' = wire w @ take (m - sent) (drop sent data)" using ih(4) w(2) by simp
        with ih w(3) True p t Sent False show ?thesis
          by (intro exI [of _ r] exI [of _ w''] exI [of _ m]) auto
      qed
    qed
  qed
qed simp

end

text \<open>
  The sink the sources write to, as the kernel or the TLS library presents it: a plan of the
  answers still to come, each taking up to a number of bytes or failing, and the bytes handed
  over. When the plan is used up the call would block (error \<open>block\<close>).
\<close>

datatype 'e tx_event = Room nat | Fail 'e

record 'e tx_sock =
  tx_plan :: "'e tx_event list"
  tx_wire :: bytes

fun sock_send :: "'e \<Rightarrow> ('e, 'e tx_sock) sender" where
  "sock_send block s bs =
     (case tx_plan s of
        [] \<Rightarrow> (TxErr block, s)
      | Room n # es \<Rightarrow> (Sent (min n (length bs)), s \<lparr> tx_plan := es, tx_wire := tx_wire s @ take n bs \<rparr>)
      | Fail e # es \<Rightarrow> (TxErr e, s \<lparr> tx_plan := es \<rparr>))"

lemma sock_send_sent:
  assumes "sock_send block s bs = (Sent n, s')"
  shows "n \<le> length bs \<and> tx_wire s' = tx_wire s @ take n bs \<and> length (tx_plan s') \<le> length (tx_plan s) \<and>
    (0 < n \<longrightarrow> length (tx_plan s') < length (tx_plan s))"
  using assms by (auto simp: min_def split: list.splits tx_event.splits if_splits)

lemma sock_send_error:
  assumes "sock_send block s bs = (TxErr e, s')"
  shows "tx_wire s' = tx_wire s \<and> length (tx_plan s') \<le> length (tx_plan s) \<and>
    (e \<noteq> block \<longrightarrow> length (tx_plan s') < length (tx_plan s))"
  using assms by (auto split: list.splits tx_event.splits)

interpretation sink: byte_sender "sock_send block" "\<lambda>e. e \<noteq> block" tx_wire "\<lambda>s. length (tx_plan s)"
  for block
  by unfold_locales (fact sock_send_sent sock_send_error)+

section \<open>Searching an array\<close>

text \<open>
  \<open>for (i = lo; i < n; i++) if (P xs[i]) return i; return -1;\<close> with an access past the end of
  the array undefined.
\<close>

function scan :: "('a \<Rightarrow> bool) \<Rightarrow> 'a list \<Rightarrow> nat \<Rightarrow> nat \<Rightarrow> int option" where
  "scan P xs lo n =
     (if lo < n then
        (if lo < length xs then (if P (xs ! lo) then Some (int lo) else scan P xs (lo + 1) n) else None)
      else Some (-1))"
  by pat_completeness auto
termination by (relation "measure (\<lambda>(P, xs, lo, n). n - lo)") auto

declare scan.simps [simp del]

lemma scan_found:
  "scan P xs lo n = Some (int i) \<Longrightarrow> lo \<le> i \<and> i < n \<and> i < length xs \<and> P (xs ! i) \<and> (\<forall>j. lo \<le> j \<longrightarrow> j < i \<longrightarrow> \<not> P (xs ! j))"
proof (induction P xs lo n rule: scan.induct)
  case (1 P xs lo n)
  from "1.prems" have b: "lo < n" "lo < length xs"
    by (auto simp: scan.simps [of P xs lo n] split: if_splits)
  show ?case
  proof (cases "P (xs ! lo)")
    case True
    then show ?thesis using "1.prems" b by (auto simp: scan.simps [of P xs lo n])
  next
    case False
    then have "Suc lo \<le> i \<and> i < n \<and> i < length xs \<and> P (xs ! i) \<and> (\<forall>j. Suc lo \<le> j \<longrightarrow> j < i \<longrightarrow> \<not> P (xs ! j))"
      using "1.IH" "1.prems" b by (simp add: scan.simps [of P xs lo n])
    then show ?thesis using False by (metis Suc_leI Suc_leD le_neq_implies_less)
  qed
qed

lemma scan_cases:
  "n \<le> length xs \<Longrightarrow> lo \<le> n \<Longrightarrow>
   (\<exists>i. scan P xs lo n = Some (int i)) \<or> scan P xs lo n = Some (-1) \<and> (\<forall>j. lo \<le> j \<longrightarrow> j < n \<longrightarrow> \<not> P (xs ! j))"
proof (induction P xs lo n rule: scan.induct)
  case (1 P xs lo n)
  show ?case
  proof (cases "lo < n \<and> \<not> P (xs ! lo)")
    case True
    then have "(\<exists>i. scan P xs (lo + 1) n = Some (int i)) \<or>
        scan P xs (lo + 1) n = Some (-1) \<and> (\<forall>j. lo + 1 \<le> j \<longrightarrow> j < n \<longrightarrow> \<not> P (xs ! j))"
      using 1 by simp
    then show ?thesis using True "1.prems"
      by (auto simp: scan.simps [of P xs lo n]) (metis Suc_leI le_neq_implies_less)
  next
    case False
    then show ?thesis using "1.prems" by (auto simp: scan.simps [of P xs lo n])
  qed
qed

section \<open>Decimal numbers\<close>

text \<open>The digits \<open>printf\<close> writes for an unsigned number, and \<open>%d\<close>.\<close>

fun nat_digits :: "nat \<Rightarrow> bytes" where
  "nat_digits n = (if n < 10 then [word_of_nat (0x30 + n)] else nat_digits (n div 10) @ [word_of_nat (0x30 + n mod 10)])"

declare nat_digits.simps [simp del]

definition dec_text :: "int \<Rightarrow> bytes" where
  "dec_text i = (if i < 0 then 0x2D # nat_digits (nat (- i)) else nat_digits (nat i))"

section \<open>Typed heaps and pointers\<close>

type_synonym addr = nat
type_synonym 'n heap = "addr \<rightharpoonup> 'n"

definition deref :: "'n heap \<Rightarrow> addr option \<Rightarrow> 'n option" where
  "deref h p = (case p of None \<Rightarrow> None | Some a \<Rightarrow> h a)"

lemma deref_simps [simp, heap_simps]:
  "deref h None = None" "deref h (Some a) = h a"
  by (simp_all add: deref_def)

end
