(* ===== verification/Linked_Nodes.thy ===== *)
theory Linked_Nodes
  imports Prelude
begin

text \<open>
  Two interfaces the queues of the sources share. \<open>linked_nodes\<close> is a heap node with a link
  field: its lemmas say what appending a node at the tail pointer and unlinking the head node
  do to the list a pair of head and tail pointers denotes. \<open>bounded_fifo\<close> is the contract of
  a bounded queue whose operations may be undefined in C: its lemmas are proved once for every
  interleaving of insertions and removals and reach the concrete queues by interpretation.
\<close>

section \<open>Chains of nodes\<close>

text \<open>\<open>chain nx h p as\<close>: following \<open>nx\<close> from pointer \<open>p\<close> visits exactly the nodes \<open>as\<close>.\<close>

fun chain :: "('n \<Rightarrow> addr option) \<Rightarrow> 'n heap \<Rightarrow> addr option \<Rightarrow> addr list \<Rightarrow> bool" where
  "chain nx h p [] = (p = None)"
| "chain nx h p (a # as) =
     (p = Some a \<and> (case h a of None \<Rightarrow> False | Some n \<Rightarrow> chain nx h (nx n) as))"

text \<open>What a head and a tail pointer of a singly linked queue denote.\<close>

definition linked_fifo ::
  "('n \<Rightarrow> addr option) \<Rightarrow> 'n heap \<Rightarrow> addr option \<Rightarrow> addr option \<Rightarrow> addr list \<Rightarrow> bool" where
  "linked_fifo nx h p q as =
     (chain nx h p as \<and> distinct as \<and> q = (if as = [] then None else Some (last as)))"

lemma chain_frame [heap_simps]: "a \<notin> set as \<Longrightarrow> chain nx (h(a := v)) p as = chain nx h p as"
  by (induction as arbitrary: p) (auto split: option.splits)

lemma chain_dom: "chain nx h p as \<Longrightarrow> a \<in> set as \<Longrightarrow> \<exists>n. h a = Some n"
  by (induction as arbitrary: p) (auto split: option.splits)

lemma chain_null [simp, heap_simps]: "chain nx h None as \<longleftrightarrow> as = []"
  by (cases as) auto

lemma chain_unique: "chain nx h p as \<Longrightarrow> chain nx h p bs \<Longrightarrow> as = bs"
proof (induction as arbitrary: p bs)
  case (Cons a as)
  then show ?case by (cases bs) (auto split: option.splits)
qed simp

lemma chain_drop:
  "chain nx h p as \<Longrightarrow> i < length as \<Longrightarrow> h (as ! i) = Some n \<Longrightarrow> chain nx h (nx n) (drop (Suc i) as)"
proof (induction as arbitrary: p i)
  case (Cons a as)
  then show ?case by (cases i) (auto split: option.splits)
qed simp

text \<open>Reading a pointer twice visits the same nodes, so a chain never comes back to a node.\<close>

lemma chain_distinct: "chain nx h p as \<Longrightarrow> distinct as"
proof (rule ccontr)
  assume c: "chain nx h p as" and "\<not> distinct as"
  then obtain i j where ij: "i < length as" "j < length as" "i < j" "as ! i = as ! j"
    by (metis distinct_conv_nth linorder_neqE_nat)
  obtain n where n: "h (as ! i) = Some n" using chain_dom [OF c nth_mem [OF ij(1)]] by blast
  have "drop (Suc i) as = drop (Suc j) as"
    using chain_drop [OF c ij(1)] chain_drop [OF c ij(2)] n ij(4) chain_unique by fastforce
  then have "length (drop (Suc i) as) = length (drop (Suc j) as)" by simp
  with ij show False by simp
qed

locale linked_nodes =
  fixes nxt :: "'n \<Rightarrow> addr option"
    and set_nxt :: "addr option \<Rightarrow> 'n \<Rightarrow> 'n"
    and content :: "'n \<Rightarrow> 'v"
  assumes nxt_set: "nxt (set_nxt p n) = p"
    and content_set: "content (set_nxt p n) = content n"
begin

lemma chain_snoc:
  assumes "chain nxt h p (as @ [z])" and "h z = Some nz" and "h a = Some na" and "a \<notin> set (as @ [z])"
  shows "chain nxt (h(z \<mapsto> set_nxt (Some a) nz, a \<mapsto> set_nxt None na)) p (as @ [z, a])"
  using assms
proof (induction as arbitrary: p)
  case Nil
  then show ?case by (auto simp: nxt_set)
next
  case (Cons b as)
  have d: "distinct (b # as @ [z])" using chain_distinct [OF Cons.prems(1)] by simp
  then have "z \<noteq> b" and "a \<noteq> b" using Cons.prems(4) by auto
  with Cons show ?case by (auto split: option.splits)
qed

lemma fifo_append:
  assumes q: "linked_fifo nxt h p (Some z) as" and a: "h a = Some na" "a \<notin> set as"
  shows "\<exists>nz. h z = Some nz \<and>
    linked_fifo nxt (h(z \<mapsto> set_nxt (Some a) nz, a \<mapsto> set_nxt None na)) p (Some a) (as @ [a])"
proof -
  from q have as: "as = butlast as @ [z]" and c: "chain nxt h p as" and d: "distinct as"
    by (auto simp: linked_fifo_def split: if_splits)
  have "z \<in> set as" by (subst as) simp
  then obtain nz where z: "h z = Some nz" using chain_dom [OF c] by blast
  have "chain nxt (h(z \<mapsto> set_nxt (Some a) nz, a \<mapsto> set_nxt None na)) p (butlast as @ [z, a])"
    using c a z by (intro chain_snoc) (simp_all flip: as)
  then have "chain nxt (h(z \<mapsto> set_nxt (Some a) nz, a \<mapsto> set_nxt None na)) p (as @ [a])"
    by (subst as) simp
  with z d a show ?thesis by (auto simp: linked_fifo_def)
qed

lemma fifo_singleton:
  "h a = Some na \<Longrightarrow> linked_fifo nxt (h(a \<mapsto> set_nxt None na)) (Some a) (Some a) [a]"
  by (simp add: linked_fifo_def nxt_set)

lemma fifo_unlink:
  assumes "linked_fifo nxt h p q (a # as)"
  shows "\<exists>n. p = Some a \<and> h a = Some n \<and>
    linked_fifo nxt (h(a \<mapsto> set_nxt None n)) (nxt n) (if nxt n = None then None else q) as"
proof -
  from assms obtain n where n: "p = Some a" "h a = Some n" "chain nxt h (nxt n) as" "a \<notin> set as"
    "distinct as"
    by (auto simp: linked_fifo_def split: option.splits)
  then have "nxt n = None \<longleftrightarrow> as = []" by (cases as) auto
  with n assms show ?thesis by (auto simp: linked_fifo_def chain_frame)
qed

lemma content_link:
  "h a = Some n \<Longrightarrow> map_option content ((h(a \<mapsto> set_nxt p n)) b) = map_option content (h b)"
  by (simp add: content_set)

end

section \<open>Bounded queues\<close>

text \<open>
  Executions of a bounded queue that starts in \<open>s\<close>: \<open>ins\<close> lists the values whose insertion
  was accepted, \<open>outs\<close> the values removed, both in the order of the calls; insertions that
  were refused and removals from an empty queue leave no entry. \<open>fresh i s\<close> is what the
  caller owes (for a linked queue, that the node it passes is not already in use).
\<close>

inductive fifo_exec ::
  "('i \<Rightarrow> 's \<Rightarrow> bool) \<Rightarrow> ('i \<Rightarrow> 'v) \<Rightarrow> ('i \<Rightarrow> 's \<Rightarrow> (bool \<times> 's) option) \<Rightarrow>
   ('s \<Rightarrow> ('v option \<times> 's) option) \<Rightarrow> 's \<Rightarrow> 'v list \<Rightarrow> 'v list \<Rightarrow> 's \<Rightarrow> bool"
  for fresh val enq deq s
where
  start: "fifo_exec fresh val enq deq s [] [] s"
| put: "fifo_exec fresh val enq deq s ins outs t \<Longrightarrow> fresh i t \<Longrightarrow> enq i t = Some (True, u) \<Longrightarrow>
    fifo_exec fresh val enq deq s (ins @ [val i]) outs u"
| refused: "fifo_exec fresh val enq deq s ins outs t \<Longrightarrow> fresh i t \<Longrightarrow> enq i t = Some (False, u) \<Longrightarrow>
    fifo_exec fresh val enq deq s ins outs u"
| get: "fifo_exec fresh val enq deq s ins outs t \<Longrightarrow> deq t = Some (Some v, u) \<Longrightarrow>
    fifo_exec fresh val enq deq s ins (outs @ [v]) u"
| nothing: "fifo_exec fresh val enq deq s ins outs t \<Longrightarrow> deq t = Some (None, u) \<Longrightarrow>
    fifo_exec fresh val enq deq s ins outs u"

locale bounded_fifo =
  fixes holds :: "'s \<Rightarrow> 'v list \<Rightarrow> bool"
    and cap :: nat
    and fresh :: "'i \<Rightarrow> 's \<Rightarrow> bool"
    and val :: "'i \<Rightarrow> 'v"
    and enq :: "'i \<Rightarrow> 's \<Rightarrow> (bool \<times> 's) option"
    and deq :: "'s \<Rightarrow> ('v option \<times> 's) option"
  assumes holds_cap: "holds s xs \<Longrightarrow> length xs \<le> cap"
    and enq_room: "holds s xs \<Longrightarrow> fresh i s \<Longrightarrow> length xs < cap \<Longrightarrow>
      \<exists>s'. enq i s = Some (True, s') \<and> holds s' (xs @ [val i])"
    and enq_full: "holds s xs \<Longrightarrow> fresh i s \<Longrightarrow> length xs = cap \<Longrightarrow>
      \<exists>s'. enq i s = Some (False, s') \<and> holds s' xs"
    and deq_empty: "holds s [] \<Longrightarrow> \<exists>s'. deq s = Some (None, s') \<and> holds s' []"
    and deq_front: "holds s (x # xs) \<Longrightarrow> \<exists>s'. deq s = Some (Some x, s') \<and> holds s' xs"
begin

text \<open>Nothing is lost, duplicated or reordered: what went in is what came out and what is held.\<close>

lemma exec_order:
  assumes "fifo_exec fresh val enq deq s ins outs t" and "holds s xs"
  shows "\<exists>ys. holds t ys \<and> xs @ ins = outs @ ys"
  using assms
proof (induction rule: fifo_exec.induct)
  case (put ins outs t i u)
  then obtain ys where ys: "holds t ys" "xs @ ins = outs @ ys" by blast
  from ys(1) put.hyps have "length ys < cap"
    using holds_cap enq_full by (metis le_neq_implies_less option.inject prod.inject)
  then have "holds u (ys @ [val i])" using enq_room [OF ys(1) put.hyps(2)] put.hyps(3) by auto
  with ys(2) show ?case by (metis append.assoc)
next
  case (refused ins outs t i u)
  then obtain ys where ys: "holds t ys" "xs @ ins = outs @ ys" by blast
  from ys(1) refused.hyps have "length ys = cap"
    using holds_cap enq_room by (metis le_neq_implies_less option.inject prod.inject)
  then show ?case using enq_full [OF ys(1) refused.hyps(2)] refused.hyps(3) ys(2) by auto
next
  case (get ins outs t v u)
  then obtain ys where ys: "holds t ys" "xs @ ins = outs @ ys" by blast
  from ys(1) get.hyps(2) obtain zs where "ys = v # zs" "holds u zs"
    using deq_empty deq_front by (cases ys) fastforce+
  with ys(2) show ?case by auto
next
  case (nothing ins outs t u)
  then obtain ys where ys: "holds t ys" "xs @ ins = outs @ ys" by blast
  from ys(1) nothing.hyps(2) have "ys = []" "holds u ys"
    using deq_empty deq_front by (cases ys; fastforce)+
  with ys(2) show ?case by auto
qed auto

text \<open>No call is undefined, however the calls interleave.\<close>

lemma exec_defined:
  assumes "fifo_exec fresh val enq deq s ins outs t" and "holds s xs"
  shows "deq t \<noteq> None" and "fresh i t \<Longrightarrow> enq i t \<noteq> None"
proof -
  from assms obtain ys where ys: "holds t ys" using exec_order by blast
  show "deq t \<noteq> None" using ys deq_empty deq_front by (cases ys) fastforce+
  show "enq i t \<noteq> None" if "fresh i t"
    using ys that enq_room enq_full holds_cap by (metis le_neq_implies_less option.distinct(1))
qed

end

end
