(* ===== verification/Crc.thy ===== *)
theory Crc
  imports Prelude
begin

text \<open>
  The checksum of the gateway's frames (\<open>gateway/src/crc.c\<close>): a table-driven CRC-32 with the
  reflected polynomial. The table is a static variable built on the first call; \<open>crc_state\<close> is
  that static data. The lemmas show that the table lookup computes the bit-serial CRC, whatever
  the state of the table, and that the checksum catches every error confined to four
  consecutive bytes.
\<close>

section \<open>The code\<close>

record crc_state =
  crc_table :: "u32 list"
  table_rd :: int

definition crc_boot :: crc_state where
  "crc_boot = \<lparr>crc_table = replicate 256 0, table_rd = 0\<rparr>"

text \<open>One round of the inner loop of \<open>build_table\<close>.\<close>

definition crc_bit :: "u32 \<Rightarrow> u32" where
  "crc_bit c = (if c AND 1 \<noteq> 0 then 0xEDB88320 XOR drop_bit 1 c else drop_bit 1 c)"

definition build_table :: "crc_state \<Rightarrow> crc_state" where
  "build_table st =
     st\<lparr>crc_table := map (\<lambda>i. (crc_bit ^^ 8) (word_of_nat i)) [0..<256], table_rd := 1\<rparr>"

text \<open>One round of the loop of \<open>crc_calculate\<close>.\<close>

definition crc_step :: "u32 list \<Rightarrow> u32 \<Rightarrow> u8 \<Rightarrow> u32" where
  "crc_step tab crc b = tab ! unat ((crc XOR ucast b) AND 0xFF) XOR drop_bit 8 crc"

definition crc_calculate :: "crc_state \<Rightarrow> bytes \<Rightarrow> u32 \<times> crc_state" where
  "crc_calculate st0 data =
     (let st = (if table_rd st0 \<noteq> 1 then build_table st0 else st0)
      in (foldl (crc_step (crc_table st)) 0xFFFFFFFF data XOR 0xFFFFFFFF, st))"

text \<open>The value the other components see.\<close>

definition crc_of :: "bytes \<Rightarrow> u32" where
  "crc_of data = fst (crc_calculate crc_boot data)"

section \<open>The bit-serial reference\<close>

definition crc_byte :: "u32 \<Rightarrow> u8 \<Rightarrow> u32" where
  "crc_byte c b = (crc_bit ^^ 8) (c XOR ucast b)"

definition crc_spec :: "bytes \<Rightarrow> u32" where
  "crc_spec data = foldl crc_byte 0xFFFFFFFF data XOR 0xFFFFFFFF"

definition crc_inv :: "crc_state \<Rightarrow> bool" where
  "crc_inv st \<longleftrightarrow> table_rd st = 1 \<longrightarrow> crc_table st = crc_table (build_table st)"

section \<open>The round function is linear and injective\<close>

lemma crc_bit_odd: "crc_bit c = (if odd c then 0xEDB88320 else 0) XOR drop_bit 1 c"
  by (auto simp: crc_bit_def and_one_eq mod_2_eq_odd)

lemma crc_bit_xor: "crc_bit (a XOR b) = crc_bit a XOR crc_bit b"
  by (auto simp: crc_bit_odd ac_simps even_xor_iff)

lemma crc_bits_xor: "(crc_bit ^^ k) (a XOR b) = (crc_bit ^^ k) a XOR (crc_bit ^^ k) b"
  by (induction k) (simp_all add: crc_bit_xor)

lemma crc_bit_top: "bit (crc_bit a) 31 = odd a"
proof -
  have "\<not> bit a 32" using bit_imp_le_length [of a 32] by auto
  then show ?thesis by (simp add: crc_bit_odd bit_xor_iff bit_drop_bit_eq)
qed

lemma crc_bit_inj: "crc_bit a = crc_bit b \<Longrightarrow> a = b"
proof -
  assume h: "crc_bit a = crc_bit b"
  then have o: "odd a = odd b" by (metis crc_bit_top)
  with h have "p XOR (p XOR drop_bit 1 a) = p XOR (p XOR drop_bit 1 b)"
    if "p = (if odd b then 0xEDB88320 else 0)" for p
    using that by (simp add: crc_bit_odd)
  then have "drop_bit 1 a = drop_bit 1 b" by (simp add: xor_left_cancel)
  with o show ?thesis by (subst bit_eq_rec) (simp add: drop_bit_Suc drop_bit_eq_div)
qed

lemma crc_bits_inj: "(crc_bit ^^ k) a = (crc_bit ^^ k) b \<longleftrightarrow> a = b"
  by (induction k) (auto dest: crc_bit_inj)

text \<open>As long as no set bit reaches position 0 the rounds only shift.\<close>

lemma crc_bits_shift: "take_bit k c = 0 \<Longrightarrow> (crc_bit ^^ k) c = drop_bit k c"
proof (induction k arbitrary: c)
  case 0
  then show ?case by simp
next
  case (Suc k)
  have k: "take_bit k c = 0"
    using arg_cong [OF Suc.prems, of "take_bit k"] by (simp add: min_def)
  have "\<not> bit c k"
    using arg_cong [OF Suc.prems, of "\<lambda>w. bit w k"] by (simp add: bit_take_bit_iff)
  then have "even (drop_bit k c)" by (simp add: even_drop_bit_iff_not_bit)
  with Suc.IH [OF k] show ?case by (simp add: crc_bit_odd)
qed

section \<open>The table computes the reference\<close>

lemma length_build_table [simp]: "length (crc_table (build_table st)) = 256"
  by (simp add: build_table_def)

lemma build_table_nth:
  "n < 256 \<Longrightarrow> crc_table (build_table st) ! n = (crc_bit ^^ 8) (word_of_nat n)"
  by (simp add: build_table_def del: upt_Suc)

lemma low_byte_lt: "unat (x AND 0xFF :: u32) < 256"
proof -
  have "unat (x AND 0xFF) \<le> unat (0xFF :: u32)"
    by (rule word_and_le1 [THEN word_le_nat_alt [THEN iffD1]])
  then show ?thesis by simp
qed

lemma crc_step_build_table: "crc_step (crc_table (build_table st)) c b = crc_byte c b"
proof -
  let ?x = "c XOR ucast b :: u32"
  let ?hi = "?x AND NOT 0xFF"
  have split: "?x = (?x AND 0xFF) XOR ?hi"
    by (rule bit_eqI) (auto simp: bit_simps)
  have m: "(0xFF :: u32) = mask 8" by (simp add: mask_eq_exp_minus_1)
  have "take_bit 8 ?hi = 0"
    by (rule bit_eqI) (auto simp: m bit_simps)
  then have hi: "(crc_bit ^^ 8) ?hi = drop_bit 8 ?hi" by (rule crc_bits_shift)
  have "drop_bit 8 ?hi = drop_bit 8 c"
    by (rule bit_eqI) (auto simp: m bit_simps dest: bit_imp_le_length)
  then have "(crc_bit ^^ 8) ?x = (crc_bit ^^ 8) (?x AND 0xFF) XOR drop_bit 8 c"
    by (subst split, simp only: crc_bits_xor hi)
  then show ?thesis
    by (simp add: crc_step_def crc_byte_def build_table_nth low_byte_lt)
qed

lemma crc_inv_boot [simp]: "crc_inv crc_boot"
  by (simp add: crc_inv_def crc_boot_def)

lemma crc_calculate_spec:
  assumes "crc_inv st"
  shows "fst (crc_calculate st data) = crc_spec data"
proof -
  have "crc_step (crc_table (if table_rd st \<noteq> 1 then build_table st else st)) = crc_byte"
    using assms by (auto simp: fun_eq_iff crc_inv_def crc_step_build_table)
  then show ?thesis by (simp add: crc_calculate_def crc_spec_def Let_def)
qed

lemma crc_calculate_inv: "crc_inv st \<Longrightarrow> crc_inv (snd (crc_calculate st data))"
  by (auto simp: crc_calculate_def crc_inv_def build_table_def Let_def)

lemma crc_of_spec: "crc_of data = crc_spec data"
  by (simp add: crc_of_def crc_calculate_spec)

section \<open>Burst errors\<close>

text \<open>Up to four bytes enter the CRC register as one little-endian word.\<close>

fun le_word :: "bytes \<Rightarrow> u32" where
  "le_word [] = 0"
| "le_word (b # bs) = ucast b XOR push_bit 8 (le_word bs)"

lemma le_word_bit_bound: "bit (le_word bs) n \<Longrightarrow> n < 8 * length bs"
proof (induction bs arbitrary: n)
  case Nil
  then show ?case by simp
next
  case (Cons b bs)
  then consider "bit b n" | "8 \<le> n" "bit (le_word bs) (n - 8)"
    by (auto simp: bit_simps)
  then show ?case
  proof cases
    case 1
    then show ?thesis using bit_imp_le_length [of b n] by simp
  next
    case 2
    then show ?thesis using Cons.IH [of "n - 8"] by simp
  qed
qed

lemma le_word_shift_back: "length bs \<le> 3 \<Longrightarrow> drop_bit 8 (push_bit 8 (le_word bs)) = le_word bs"
proof (rule bit_eqI)
  fix n assume l: "length bs \<le> 3"
  show "bit (drop_bit 8 (push_bit 8 (le_word bs))) n = bit (le_word bs) n"
    using le_word_bit_bound [of bs n] l by (auto simp: bit_simps)
qed

lemma crc_bytes_le_word:
  "length bs \<le> 4 \<Longrightarrow> foldl crc_byte s bs = (crc_bit ^^ (8 * length bs)) (s XOR le_word bs)"
proof (induction bs arbitrary: s)
  case Nil
  then show ?case by simp
next
  case (Cons b bs)
  let ?w = "le_word bs"
  have "(crc_bit ^^ 8) (push_bit 8 ?w) = ?w"
    using Cons.prems by (simp add: crc_bits_shift take_bit_push_bit le_word_shift_back)
  then have "crc_byte s b XOR ?w = (crc_bit ^^ 8) (s XOR le_word (b # bs))"
    by (simp add: crc_byte_def crc_bits_xor ac_simps)
  then have "foldl crc_byte s (b # bs) =
      (crc_bit ^^ (8 * length bs)) ((crc_bit ^^ 8) (s XOR le_word (b # bs)))"
    using Cons by simp
  moreover have "8 * length (b # bs) = 8 * length bs + 8" by simp
  ultimately show ?case by (simp only: funpow_add o_apply)
qed

lemma take_bit_le_word: "take_bit 8 (le_word (b # bs)) = ucast b"
  by (rule bit_eqI) (auto simp: bit_simps dest: bit_imp_le_length)

lemma drop_bit_le_word: "length bs \<le> 3 \<Longrightarrow> drop_bit 8 (le_word (b # bs)) = le_word bs"
proof -
  assume "length bs \<le> 3"
  moreover have "drop_bit 8 (ucast b :: u32) = 0"
    by (rule bit_eqI) (auto simp: bit_simps dest: bit_imp_le_length)
  ultimately show ?thesis by (simp add: le_word_shift_back)
qed

lemma ucast_u32_inj: "(ucast b :: u32) = ucast c \<Longrightarrow> b = (c :: u8)"
proof (rule bit_eqI)
  fix n assume eq: "(ucast b :: u32) = ucast c" and n: "possible_bit TYPE(u8) n"
  have "bit (ucast x :: u32) n = bit x n" for x :: u8
    using n by (simp add: bit_unsigned_iff)
  then show "bit b n = bit c n" using eq by metis
qed

lemma le_word_inj:
  "length bs = length cs \<Longrightarrow> length bs \<le> 4 \<Longrightarrow> le_word bs = le_word cs \<Longrightarrow> bs = cs"
proof (induction bs cs rule: list_induct2)
  case Nil
  show ?case by simp
next
  case (Cons b bs c cs)
  have "(ucast b :: u32) = ucast c"
    using arg_cong [OF Cons.prems(2), of "take_bit 8"] by (simp only: take_bit_le_word)
  then have "b = c" by (rule ucast_u32_inj)
  moreover have "le_word bs = le_word cs"
    using arg_cong [OF Cons.prems(2), of "drop_bit 8"] Cons.prems(1) Cons.hyps
      drop_bit_le_word [of bs b] drop_bit_le_word [of cs c] by (simp del: le_word.simps)
  then have "bs = cs" using Cons.prems(1) Cons.IH by simp
  ultimately show ?case by simp
qed

lemma crc_byte_inj: "crc_byte s b = crc_byte t b \<longleftrightarrow> s = t"
  by (simp add: crc_byte_def crc_bits_inj xor_right_cancel)

lemma crc_bytes_inj: "foldl crc_byte s bs = foldl crc_byte t bs \<longleftrightarrow> s = t"
  by (induction bs arbitrary: s t) (simp_all add: crc_byte_inj)

lemma crc_burst:
  assumes "length bs = length cs" and "length bs \<le> 4" and "bs \<noteq> cs"
  shows "crc_of (pre @ bs @ post) \<noteq> crc_of (pre @ cs @ post)"
proof
  assume "crc_of (pre @ bs @ post) = crc_of (pre @ cs @ post)"
  then have "foldl crc_byte (foldl crc_byte (foldl crc_byte 0xFFFFFFFF pre) bs) post =
      foldl crc_byte (foldl crc_byte (foldl crc_byte 0xFFFFFFFF pre) cs) post"
    by (simp add: crc_of_spec crc_spec_def xor_right_cancel)
  then have "le_word bs = le_word cs"
    using assms by (simp add: crc_bytes_inj crc_bytes_le_word crc_bits_inj xor_left_cancel)
  with assms show False using le_word_inj by blast
qed

section \<open>Properties\<close>

text \<open>
  C21. The table-driven checksum equals the bit-serial CRC-32 of the data, on the first call
  (which builds the static table) and on every later one, and each call leaves the table in
  the state the next one needs.
\<close>

theorem crc_calculate_correct:
  assumes "crc_inv st"
  shows "fst (crc_calculate st data) = crc_spec data \<and> crc_inv (snd (crc_calculate st data))"
  using assms by (simp add: crc_calculate_spec crc_calculate_inv)

theorem crc_calculate_correct_witness:
  "crc_inv crc_boot \<and> fst (crc_calculate crc_boot [0x31, 0x32, 0x33]) = 0x884863D2"
proof -
  have "crc_spec [0x31, 0x32, 0x33] = 0x884863D2" by code_simp
  then show ?thesis using crc_calculate_correct [OF crc_inv_boot, of "[0x31, 0x32, 0x33]"] by simp
qed



end
