(* ===== verification/Protocol_Message.thy ===== *)
theory Protocol_Message
  imports Crc
begin

text \<open>
  The gateway's wire format (\<open>gateway/src/protocol_message.c\<close> and its header): big-endian
  encoding of 16- and 32-bit fields, the 16-byte header, and the frame
  header, payload, CRC-32 of the payload. Buffers are lists of bytes of the object's size;
  a write outside the object is \<open>None\<close>.
\<close>

section \<open>The code\<close>

definition PROTOCOL_MAGIC :: u32 where "PROTOCOL_MAGIC = 0xFFAABBCC"
definition PROTOCOL_VERSION :: u16 where "PROTOCOL_VERSION = 1"
definition CRC_SIZE :: nat where "CRC_SIZE = 4"
definition HEADER_SIZE :: nat where "HEADER_SIZE = 16"
definition MAX_PAYLOAD :: nat where "MAX_PAYLOAD = 4096"

lemmas protocol_consts = PROTOCOL_MAGIC_def PROTOCOL_VERSION_def CRC_SIZE_def HEADER_SIZE_def
  MAX_PAYLOAD_def

datatype read_stage = READ_HEADER | READ_PAYLOAD | READ_CRC

record header_packet =
  h_magic :: u32
  h_version :: u16
  h_type :: u16
  h_length :: u32
  h_request_id :: u32

datatype err_code = ERR_UNKNOWN_TYPE | ERR_BAD_MAGIC | ERR_BAD_VERSION | ERR_PAYLOAD_TOO_LARGE
  | ERR_CRC_MISMATCH | ERR_RATE_LIMIT | ERR_SERVER_BUSY | ERR_SERVER_FULL | ERR_TIMEOUT
  | ERR_BAD_JSON

fun err_num :: "err_code \<Rightarrow> nat" where
  "err_num ERR_UNKNOWN_TYPE = 1"
| "err_num ERR_BAD_MAGIC = 2"
| "err_num ERR_BAD_VERSION = 3"
| "err_num ERR_PAYLOAD_TOO_LARGE = 4"
| "err_num ERR_CRC_MISMATCH = 5"
| "err_num ERR_RATE_LIMIT = 6"
| "err_num ERR_SERVER_BUSY = 7"
| "err_num ERR_SERVER_FULL = 8"
| "err_num ERR_TIMEOUT = 9"
| "err_num ERR_BAD_JSON = 10"

definition MSG_ECHO :: u16 where "MSG_ECHO = 1"
definition MSG_STATUS :: u16 where "MSG_STATUS = 2"
definition MSG_SET_DEVICE :: u16 where "MSG_SET_DEVICE = 3"
definition MSG_GET_SENSOR :: u16 where "MSG_GET_SENSOR = 4"
definition MSG_SET_ACTUATOR :: u16 where "MSG_SET_ACTUATOR = 0x10"
definition MSG_GET_ACTUATOR :: u16 where "MSG_GET_ACTUATOR = 0x11"
definition MSG_READ_SENSOR_ALL :: u16 where "MSG_READ_SENSOR_ALL = 0x20"
definition MSG_RESPONSE :: u16 where "MSG_RESPONSE = 0x8001"
definition MSG_ERROR :: u16 where "MSG_ERROR = 0x8002"

lemmas message_types = MSG_ECHO_def MSG_STATUS_def MSG_SET_DEVICE_def MSG_GET_SENSOR_def
  MSG_SET_ACTUATOR_def MSG_GET_ACTUATOR_def MSG_READ_SENSOR_ALL_def MSG_RESPONSE_def MSG_ERROR_def

text \<open>\<open>encode_16_bit(buffer + off, v)\<close> and its kin; the bytes they store.\<close>

definition be16 :: "u16 \<Rightarrow> bytes" where
  "be16 v = [ucast (drop_bit 8 v), ucast (v AND 0xFF)]"

definition be32 :: "u32 \<Rightarrow> bytes" where
  "be32 v = [ucast (drop_bit 24 v), ucast (drop_bit 16 v), ucast (drop_bit 8 v), ucast v]"

definition encode_16_bit :: "bytes \<Rightarrow> nat \<Rightarrow> u16 \<Rightarrow> bytes option" where
  "encode_16_bit buffer off var_to_encode = poke off (be16 var_to_encode) buffer"

definition encode_32_bit :: "bytes \<Rightarrow> nat \<Rightarrow> u32 \<Rightarrow> bytes option" where
  "encode_32_bit buffer off var_to_encode = poke off (be32 var_to_encode) buffer"

definition decode_16_bit :: "bytes \<Rightarrow> nat \<Rightarrow> u16 option" where
  "decode_16_bit buf off =
     (if off + 2 \<le> length buf
      then Some (push_bit 8 (ucast (buf ! off)) OR ucast (buf ! (off + 1))) else None)"

definition decode_32_bit :: "bytes \<Rightarrow> nat \<Rightarrow> u32 option" where
  "decode_32_bit buf off =
     (if off + 4 \<le> length buf
      then Some (push_bit 24 (ucast (buf ! off)) OR push_bit 16 (ucast (buf ! (off + 1))) OR
                 push_bit 8 (ucast (buf ! (off + 2))) OR ucast (buf ! (off + 3))) else None)"

text \<open>
  \<open>packet_encode(buffer, size, type, request_id, payload, length)\<close>. The sum \<open>total_len\<close> is
  computed in 32-bit arithmetic before it is widened to \<open>size_t\<close>.
\<close>

definition packet_encode ::
  "bytes \<Rightarrow> u64 \<Rightarrow> u16 \<Rightarrow> u32 \<Rightarrow> bytes \<Rightarrow> u32 \<Rightarrow> (int \<times> bytes) option" where
  "packet_encode buffer cap type request_id payload len =
     (let total_len = (ucast (len + word_of_nat HEADER_SIZE + word_of_nat CRC_SIZE) :: u64)
      in if total_len > cap \<or> len > word_of_nat MAX_PAYLOAD then Some (-1, buffer)
      else do {
        b \<leftarrow> encode_32_bit buffer 0 PROTOCOL_MAGIC;
        b \<leftarrow> encode_16_bit b 4 PROTOCOL_VERSION;
        b \<leftarrow> encode_16_bit b 6 type;
        b \<leftarrow> encode_32_bit b 8 len;
        b \<leftarrow> encode_32_bit b 12 request_id;
        b \<leftarrow> (if len > 0
              then do { p \<leftarrow> peek 0 (unat len) payload; poke HEADER_SIZE p b }
              else Some b);
        d \<leftarrow> peek HEADER_SIZE (unat len) b;
        b \<leftarrow> encode_32_bit b (HEADER_SIZE + unat len) (crc_of d);
        Some (0, b)
      })"

text \<open>
  \<open>blk\<close> is the answer of \<open>malloc(total_size)\<close>: \<open>None\<close> is NULL. The result is the returned
  pointer with the value stored in \<open>*out_size\<close>.
\<close>

definition build_error_packet ::
  "bytes option \<Rightarrow> u32 \<Rightarrow> u8 \<Rightarrow> (bytes \<times> nat) option option" where
  "build_error_packet blk request_id err =
     (let total_size = HEADER_SIZE + 1 + CRC_SIZE in
      case blk of
        None \<Rightarrow> Some None
      | Some packet_buf \<Rightarrow> do {
          (ret, b) \<leftarrow> packet_encode packet_buf (word_of_nat total_size) MSG_ERROR request_id [err] 1;
          if ret < 0 then Some None else Some (Some (b, total_size))
        })"

section \<open>The frame as a specification\<close>

definition frame_header :: "u16 \<Rightarrow> u32 \<Rightarrow> u32 \<Rightarrow> bytes" where
  "frame_header type len request_id =
     be32 PROTOCOL_MAGIC @ be16 PROTOCOL_VERSION @ be16 type @ be32 len @ be32 request_id"

definition wire_frame :: "u16 \<Rightarrow> u32 \<Rightarrow> bytes \<Rightarrow> bytes" where
  "wire_frame type request_id pl =
     frame_header type (word_of_nat (length pl)) request_id @ pl @ be32 (crc_of pl)"

section \<open>Encoding and decoding of fields\<close>

lemma length_be [simp, codec_simps]: "length (be16 v) = 2" "length (be32 w) = 4"
  by (simp_all add: be16_def be32_def)

lemma length_frame_header [simp, codec_simps]: "length (frame_header t l r) = 16"
  by (simp add: frame_header_def)

lemma length_wire_frame [simp, codec_simps]: "length (wire_frame t r pl) = 20 + length pl"
  by (simp add: wire_frame_def)

lemma be16_value:
  "push_bit 8 (ucast (ucast (drop_bit 8 v) :: u8)) OR ucast (ucast (v AND 0xFF) :: u8) = (v :: u16)"
  (is "?l = v")
proof (rule bit_eqI)
  fix n assume "possible_bit TYPE(u16) n"
  then have n: "n < 16" by simp
  have m: "(0xFF :: u16) = mask 8" by (simp add: mask_eq_exp_minus_1)
  show "bit ?l n = bit v n"
    using n by (cases "n < 8") (auto simp: m bit_simps)
qed

lemma be32_value:
  "push_bit 24 (ucast (ucast (drop_bit 24 v) :: u8)) OR push_bit 16 (ucast (ucast (drop_bit 16 v) :: u8)) OR
   push_bit 8 (ucast (ucast (drop_bit 8 v) :: u8)) OR ucast (ucast v :: u8) = (v :: u32)"
  (is "?l = v")
proof (rule bit_eqI)
  fix n assume "possible_bit TYPE(u32) n"
  then have n: "n < 32" by simp
  then consider "n < 8" | "8 \<le> n" "n < 16" | "16 \<le> n" "n < 24" | "24 \<le> n" by linarith
  then show "bit ?l n = bit v n"
    using n by cases (auto simp: bit_simps)
qed

lemma decode_16_be16 [codec_simps]:
  "length xs = off \<Longrightarrow> decode_16_bit (xs @ be16 v @ ys) off = Some v"
  by (simp add: decode_16_bit_def be16_def nth_append be16_value)

lemma decode_32_be32 [codec_simps]:
  "length xs = off \<Longrightarrow> decode_32_bit (xs @ be32 v @ ys) off = Some v"
  by (simp add: decode_32_bit_def be32_def nth_append be32_value)

section \<open>Layout of an encoded packet\<close>

lemma unat_total_len:
  "len \<le> word_of_nat MAX_PAYLOAD \<Longrightarrow>
   unat (ucast (len + word_of_nat HEADER_SIZE + word_of_nat CRC_SIZE) :: u64) = unat len + 20"
  for len :: u32
proof -
  assume "len \<le> word_of_nat MAX_PAYLOAD"
  then have "unat len \<le> 4096" by (simp add: word_le_nat_alt protocol_consts)
  then have l: "unat (len + 20) = unat len + 20" and "unat len + 20 < 2 ^ 64"
    by (simp_all add: unat_word_ariths)
  then have "unat (ucast (len + 20) :: u64) = unat len + 20"
    by (simp add: unsigned_ucast_eq take_bit_nat_eq_self)
  then show ?thesis by (simp add: protocol_consts add.assoc)
qed

lemma packet_encode_rejects:
  assumes "len > word_of_nat MAX_PAYLOAD \<or> unat len + 20 > unat cap"
  shows "packet_encode buffer cap type rid pl len = Some (-1, buffer)"
proof (cases "len > word_of_nat MAX_PAYLOAD")
  case False
  then have "unat (ucast (len + word_of_nat HEADER_SIZE + word_of_nat CRC_SIZE) :: u64) = unat len + 20"
    by (intro unat_total_len) simp
  with False assms have "(ucast (len + word_of_nat HEADER_SIZE + word_of_nat CRC_SIZE) :: u64) > cap"
    by (simp add: word_less_nat_alt)
  then show ?thesis by (simp add: packet_encode_def)
qed (simp add: packet_encode_def)

lemma packet_encode_layout:
  assumes fits: "20 + length pl \<le> unat cap" and small: "length pl \<le> MAX_PAYLOAD"
    and room: "unat cap \<le> length buffer"
  shows "packet_encode buffer cap type rid (pl @ junk) (word_of_nat (length pl)) =
    Some (0, wire_frame type rid pl @ drop (20 + length pl) buffer)"
proof -
  let ?len = "word_of_nat (length pl) :: u32"
  have u: "unat ?len = length pl"
    using small by (simp add: unat_of_nat protocol_consts)
  have le: "\<not> ?len > word_of_nat MAX_PAYLOAD"
    using small by (simp add: not_less word_le_nat_alt u) (simp add: protocol_consts)
  have tot: "\<not> (ucast (?len + word_of_nat HEADER_SIZE + word_of_nat CRC_SIZE) :: u64) > cap"
    using unat_total_len [of ?len] le fits by (simp add: not_less word_le_nat_alt u)
  let ?h = "frame_header type ?len rid"
  have room': "20 + length pl \<le> length buffer" using fits room by simp
  have step: "poke off bs (xs @ drop off buffer) = Some ((xs @ bs) @ drop (off + length bs) buffer)"
    if "length xs = off" "off + length bs \<le> 16" for off xs bs
    using that room' by (intro poke_seq) simp_all
  have hdr: "poke 0 (be32 PROTOCOL_MAGIC) buffer = Some (be32 PROTOCOL_MAGIC @ drop 4 buffer)"
    "poke 4 (be16 PROTOCOL_VERSION) (be32 PROTOCOL_MAGIC @ drop 4 buffer) =
       Some ((be32 PROTOCOL_MAGIC @ be16 PROTOCOL_VERSION) @ drop 6 buffer)"
    "poke 6 (be16 type) ((be32 PROTOCOL_MAGIC @ be16 PROTOCOL_VERSION) @ drop 6 buffer) =
       Some (((be32 PROTOCOL_MAGIC @ be16 PROTOCOL_VERSION) @ be16 type) @ drop 8 buffer)"
    "poke 8 (be32 ?len) (((be32 PROTOCOL_MAGIC @ be16 PROTOCOL_VERSION) @ be16 type) @ drop 8 buffer) =
       Some ((((be32 PROTOCOL_MAGIC @ be16 PROTOCOL_VERSION) @ be16 type) @ be32 ?len) @ drop 12 buffer)"
    using step [of "[]" 0] step [of _ 4] step [of _ 6] step [of _ 8] by (simp_all del: append_assoc)
  have hdr_end: "poke 12 (be32 rid)
        ((((be32 PROTOCOL_MAGIC @ be16 PROTOCOL_VERSION) @ be16 type) @ be32 ?len) @ drop 12 buffer) =
       Some (?h @ drop 16 buffer)"
    by (subst step) (simp_all add: frame_header_def)
  have pay: "(if ?len > 0 then do { p \<leftarrow> peek 0 (unat ?len) (pl @ junk); poke HEADER_SIZE p (?h @ drop 16 buffer) }
      else Some (?h @ drop 16 buffer)) = Some ((?h @ pl) @ drop (16 + length pl) buffer)"
  proof (cases pl)
    case Nil
    then show ?thesis by simp
  next
    case Cons
    then have "?len > 0" using u by (metis length_greater_0_conv list.distinct(1) unat_gt_0 word_gt_0)
    moreover have "poke 16 pl (?h @ drop 16 buffer) = Some ((?h @ pl) @ drop (16 + length pl) buffer)"
      using room' by (intro poke_seq) simp_all
    ultimately show ?thesis by (simp add: peek_def HEADER_SIZE_def u)
  qed
  have read: "peek HEADER_SIZE (unat ?len) ((?h @ pl) @ drop (16 + length pl) buffer) = Some pl"
    by (simp add: peek_append HEADER_SIZE_def u)
  have crc: "poke (HEADER_SIZE + unat ?len) (be32 (crc_of pl)) ((?h @ pl) @ drop (16 + length pl) buffer) =
      Some (((?h @ pl) @ be32 (crc_of pl)) @ drop (20 + length pl) buffer)"
    using room' poke_seq [of "?h @ pl" "16 + length pl" "be32 (crc_of pl)" buffer]
    by (simp add: HEADER_SIZE_def u)
  show ?thesis
    using le tot
    by (simp only: packet_encode_def Let_def encode_16_bit_def encode_32_bit_def hdr hdr_end pay read crc
        Option.bind.bind_lunit simp_thms if_False) (simp add: wire_frame_def)
qed

lemma packet_encode_total:
  assumes "unat cap \<le> length buffer" and "unat len \<le> length payload"
  shows "packet_encode buffer cap type rid payload len =
    (if unat len \<le> MAX_PAYLOAD \<and> 20 + unat len \<le> unat cap
     then Some (0, wire_frame type rid (take (unat len) payload) @ drop (20 + unat len) buffer)
     else Some (-1, buffer))"
proof (cases "unat len \<le> MAX_PAYLOAD \<and> 20 + unat len \<le> unat cap")
  case True
  then show ?thesis
    using assms packet_encode_layout [of "take (unat len) payload" cap buffer type rid "drop (unat len) payload"]
    by simp
next
  case False
  then have "len > word_of_nat MAX_PAYLOAD \<or> unat len + 20 > unat cap"
    by (auto simp: word_less_nat_alt protocol_consts)
  then show ?thesis using False by (simp add: packet_encode_rejects)
qed

lemma build_error_packet_frame:
  "length blk = 21 \<Longrightarrow>
   build_error_packet (Some blk) rid err = Some (Some (wire_frame MSG_ERROR rid [err], 21))"
  using packet_encode_layout [of "[err]" 21 blk MSG_ERROR rid "[]"]
  by (simp add: build_error_packet_def protocol_consts)

text \<open>The header fields of a frame read back, wherever the frame lies in a buffer.\<close>

lemma frame_header_fields [codec_simps]:
  "decode_32_bit (frame_header t l r @ rest) 0 = Some PROTOCOL_MAGIC"
  "decode_16_bit (frame_header t l r @ rest) 4 = Some PROTOCOL_VERSION"
  "decode_16_bit (frame_header t l r @ rest) 6 = Some t"
  "decode_32_bit (frame_header t l r @ rest) 8 = Some l"
  "decode_32_bit (frame_header t l r @ rest) 12 = Some r"
  using decode_32_be32 [of "[]" 0] decode_16_be16 [of "be32 PROTOCOL_MAGIC" 4]
    decode_16_be16 [of "be32 PROTOCOL_MAGIC @ be16 PROTOCOL_VERSION" 6]
    decode_32_be32 [of "be32 PROTOCOL_MAGIC @ be16 PROTOCOL_VERSION @ be16 t" 8]
    decode_32_be32 [of "be32 PROTOCOL_MAGIC @ be16 PROTOCOL_VERSION @ be16 t @ be32 l" 12]
  by (simp_all add: frame_header_def)

section \<open>Properties\<close>

text \<open>
  C23. Encoding a packet is total and memory safe. Into a buffer of at least the announced
  \<open>size\<close>, with a payload object of at least \<open>length\<close> bytes, \<open>packet_encode\<close> never leaves an
  object: it either writes exactly the frame (header, payload, CRC-32 of the payload), leaves
  the rest of the buffer alone and returns 0, or, when the payload is over \<open>MAX_PAYLOAD\<close> or
  the frame does not fit, changes nothing and returns -1. The 32-bit sum \<open>total_len\<close> may wrap
  around for a huge length; the second guard makes up for it.
\<close>

theorem packet_encode_correct:
  assumes "unat cap \<le> length buffer" and "unat len \<le> length payload"
  shows "packet_encode buffer cap type rid payload len =
    (if unat len \<le> MAX_PAYLOAD \<and> 20 + unat len \<le> unat cap
     then Some (0, wire_frame type rid (take (unat len) payload) @ drop (20 + unat len) buffer)
     else Some (-1, buffer))"
  using assms by (rule packet_encode_total)

theorem packet_encode_correct_witness:
  "packet_encode (replicate 30 0) 30 MSG_ECHO 7 [1, 2, 3] 2 =
     Some (0, wire_frame MSG_ECHO 7 [1, 2] @ replicate 8 0)"
  using packet_encode_correct [of 30 "replicate 30 0" 2 "[1, 2, 3]" MSG_ECHO 7]
  by (simp add: protocol_consts)

end
