(* ===== verification/Queue.thy ===== *)
theory Queue
  imports Linked_Nodes Protocol_Message
begin

text \<open>
  The two queues between the gateway's threads (\<open>gateway/src/queue.c\<close>): the task queue from
  the event loop to the workers and the response queue back. Both are singly linked lists of
  heap nodes; \<open>None\<close> as the result of an operation is a NULL or dangling dereference.
\<close>

section \<open>The code\<close>

record task =
  t_slot :: int
  t_task_id :: u64
  t_generation :: u64
  t_type :: u16
  t_request_id :: u32
  t_payload :: bytes
  t_timeout_ms :: u64
  t_next_task :: "addr option"
  t_length :: nat

record response =
  r_slot :: int
  r_generation :: u64
  r_type :: u16
  r_request_id :: u32
  r_length :: u32
  r_payload :: bytes
  r_next_response :: "addr option"

record task_queue =
  tq_head :: "addr option"
  tq_tail :: "addr option"
  tq_size :: nat
  tq_max_size :: nat
  tq_shutdown :: bool

record response_queue =
  rq_head :: "addr option"
  rq_tail :: "addr option"
  rq_size :: nat
  rq_max_size :: nat

text \<open>\<open>EAGAIN\<close> of \<open>errno.h\<close> on Linux, returned negated by the two push operations.\<close>

definition EAGAIN_num :: int where "EAGAIN_num = 11"

definition task_queue_init :: "task_queue \<Rightarrow> nat \<Rightarrow> task_queue" where
  "task_queue_init queue n =
     (if n = 0 then queue
      else queue \<lparr> tq_head := None, tq_tail := None, tq_size := 0, tq_max_size := n,
                   tq_shutdown := False \<rparr>)"

definition push ::
  "task heap \<Rightarrow> task_queue \<Rightarrow> addr option \<Rightarrow> (int \<times> task heap \<times> task_queue) option" where
  "push h queue task =
     (case task of
        None \<Rightarrow> Some (-1, h, queue)
      | Some a \<Rightarrow>
          if tq_shutdown queue then Some (-1, h, queue)
          else if tq_size queue \<ge> tq_max_size queue then Some (- EAGAIN_num, h, queue)
          else do {
            (h, queue) \<leftarrow>
              (case tq_tail queue of
                 None \<Rightarrow> Some (h, queue \<lparr> tq_tail := task, tq_head := task \<rparr>)
               | Some z \<Rightarrow> do { n \<leftarrow> h z; Some (h(z \<mapsto> n \<lparr> t_next_task := task \<rparr>), queue) });
            n \<leftarrow> h a;
            Some (0, h(a \<mapsto> n \<lparr> t_next_task := None \<rparr>), queue \<lparr> tq_size := tq_size queue + 1 \<rparr>)
          })"

text \<open>
  \<open>pop\<close> waits on \<open>not_empty\<close> while the queue is empty and not shut down; a call that is
  still waiting in the given state is \<open>Waiting\<close>.
\<close>

datatype pop_result = Waiting | Returned "addr option"

definition pop :: "task heap \<Rightarrow> task_queue \<Rightarrow> (pop_result \<times> task heap \<times> task_queue) option" where
  "pop h queue =
     (if tq_size queue = 0 \<and> \<not> tq_shutdown queue then Some (Waiting, h, queue)
      else if tq_shutdown queue \<and> tq_size queue = 0 then Some (Returned None, h, queue)
      else do {
        a \<leftarrow> tq_head queue;
        n \<leftarrow> h a;
        let queue = queue \<lparr> tq_head := t_next_task n \<rparr>;
        let queue = (if tq_head queue = None then queue \<lparr> tq_tail := None \<rparr> else queue);
        let queue = queue \<lparr> tq_size := tq_size queue - 1 \<rparr>;
        Some (Returned (Some a), h(a \<mapsto> n \<lparr> t_next_task := None \<rparr>), queue)
      })"

definition task_queue_shutdown :: "task_queue \<Rightarrow> int \<times> task_queue" where
  "task_queue_shutdown queue = (0, queue \<lparr> tq_shutdown := True \<rparr>)"

text \<open>The freeing loop of \<open>task_queue_destroy\<close>; reading a freed node is undefined.\<close>

partial_function (option) free_tasks :: "task heap \<Rightarrow> addr option \<Rightarrow> task heap option" where
  "free_tasks h task =
     (case task of None \<Rightarrow> Some h
      | Some a \<Rightarrow> do { n \<leftarrow> h a; free_tasks (h(a := None)) (t_next_task n) })"

definition task_queue_destroy :: "task heap \<Rightarrow> task_queue \<Rightarrow> (int \<times> task heap \<times> task_queue) option" where
  "task_queue_destroy h queue = do {
     h \<leftarrow> free_tasks h (tq_head queue);
     Some (0, h, queue \<lparr> tq_head := None, tq_tail := None, tq_size := 0 \<rparr>)
   }"

definition response_queue_init :: "response_queue \<Rightarrow> nat \<Rightarrow> response_queue" where
  "response_queue_init queue n =
     (if n \<le> 0 then queue
      else queue \<lparr> rq_head := None, rq_tail := None, rq_size := 0, rq_max_size := n \<rparr>)"

definition response_queue_destroy :: "response_queue \<Rightarrow> response_queue" where
  "response_queue_destroy queue = queue"

definition response_queue_push ::
  "response heap \<Rightarrow> response_queue \<Rightarrow> addr option \<Rightarrow> (int \<times> response heap \<times> response_queue) option" where
  "response_queue_push h queue response =
     (case response of
        None \<Rightarrow> Some (-1, h, queue)
      | Some a \<Rightarrow>
          if rq_size queue \<ge> rq_max_size queue then Some (- EAGAIN_num, h, queue)
          else do {
            (h, queue) \<leftarrow>
              (case rq_tail queue of
                 None \<Rightarrow> Some (h, queue \<lparr> rq_head := response, rq_tail := response \<rparr>)
               | Some z \<Rightarrow> do { n \<leftarrow> h z;
                   Some (h(z \<mapsto> n \<lparr> r_next_response := response \<rparr>), queue \<lparr> rq_tail := response \<rparr>) });
            let queue = queue \<lparr> rq_size := rq_size queue + 1 \<rparr>;
            z \<leftarrow> rq_tail queue;
            n \<leftarrow> h z;
            Some (0, h(z \<mapsto> n \<lparr> r_next_response := None \<rparr>), queue)
          })"

definition response_queue_pop ::
  "response heap \<Rightarrow> response_queue \<Rightarrow> (addr option \<times> response heap \<times> response_queue) option" where
  "response_queue_pop h queue =
     (if rq_size queue = 0 then Some (None, h, queue)
      else do {
        a \<leftarrow> rq_head queue;
        n \<leftarrow> h a;
        let queue = queue \<lparr> rq_head := r_next_response n \<rparr>;
        let queue = (if rq_head queue = None then queue \<lparr> rq_tail := None \<rparr> else queue);
        Some (Some a, h(a \<mapsto> n \<lparr> r_next_response := None \<rparr>), queue \<lparr> rq_size := rq_size queue - 1 \<rparr>)
      })"

section \<open>The response queue is a bounded FIFO\<close>

interpretation resp: linked_nodes r_next_response "\<lambda>p r. r \<lparr> r_next_response := p \<rparr>"
  "\<lambda>r. r \<lparr> r_next_response := None \<rparr>"
  by unfold_locales simp_all

definition response_holds :: "response heap \<times> response_queue \<Rightarrow> addr list \<Rightarrow> bool" where
  "response_holds s as =
     (case s of (h, q) \<Rightarrow>
        linked_fifo r_next_response h (rq_head q) (rq_tail q) as \<and>
        rq_size q = length as \<and> length as \<le> rq_max_size q)"

lemma response_push_full:
  "rq_size q \<ge> rq_max_size q \<Longrightarrow> response_queue_push h q (Some a) = Some (- EAGAIN_num, h, q)"
  by (simp add: response_queue_push_def)

lemma response_push_room:
  assumes q: "response_holds (h, q) as" and room: "length as < rq_max_size q"
    and a: "h a = Some r" "a \<notin> set as"
  shows "\<exists>h' q'. response_queue_push h q (Some a) = Some (0, h', q') \<and>
    response_holds (h', q') (as @ [a]) \<and> rq_max_size q' = rq_max_size q \<and>
    (\<forall>b. map_option (\<lambda>r. r \<lparr> r_next_response := None \<rparr>) (h' b) =
         map_option (\<lambda>r. r \<lparr> r_next_response := None \<rparr>) (h b))"
proof (cases "rq_tail q")
  case None
  with q have "as = []" by (auto simp: response_holds_def linked_fifo_def split: if_splits)
  then show ?thesis using q room a None resp.fifo_singleton [of h a r]
    by (auto simp: response_queue_push_def response_holds_def)
next
  case (Some z)
  with q have fifo: "linked_fifo r_next_response h (rq_head q) (Some z) as"
    and sz: "rq_size q = length as" by (auto simp: response_holds_def)
  from resp.fifo_append [OF fifo a] obtain nz where z: "h z = Some nz"
    and l: "linked_fifo r_next_response
      (h(z \<mapsto> nz \<lparr> r_next_response := Some a \<rparr>, a \<mapsto> r \<lparr> r_next_response := None \<rparr>)) (rq_head q) (Some a) (as @ [a])"
    by blast
  have "z \<in> set as" using fifo by (auto simp: linked_fifo_def split: if_splits)
  then have "z \<noteq> a" using a(2) by blast
  then show ?thesis using Some z l a room sz
    by (auto simp: response_queue_push_def response_holds_def)
qed

lemma response_pop_empty:
  "response_holds (h, q) [] \<Longrightarrow> response_queue_pop h q = Some (None, h, q)"
  by (simp add: response_queue_pop_def response_holds_def)

lemma response_pop_front:
  assumes q: "response_holds (h, q) (a # as)"
  shows "\<exists>r h' q'. h a = Some r \<and> response_queue_pop h q = Some (Some a, h', q') \<and>
    h' = h(a \<mapsto> r \<lparr> r_next_response := None \<rparr>) \<and> response_holds (h', q') as \<and>
    rq_max_size q' = rq_max_size q"
proof -
  from q have "linked_fifo r_next_response h (rq_head q) (rq_tail q) (a # as)"
    and sz: "rq_size q = Suc (length as)" "Suc (length as) \<le> rq_max_size q"
    by (auto simp: response_holds_def)
  from resp.fifo_unlink [OF this(1)] sz show ?thesis
    by (auto simp: response_queue_pop_def response_holds_def Let_def split: if_splits)
qed

text \<open>
  The queue as its users see it: a worker puts a response it has just allocated at \<open>a\<close>, the
  event loop takes the oldest one; \<open>response_values\<close> are the responses in the queue.
\<close>

definition response_content :: "response \<Rightarrow> response" where
  "response_content r = r \<lparr> r_next_response := None \<rparr>"

definition response_fresh :: "addr \<times> response \<Rightarrow> response heap \<times> response_queue \<Rightarrow> bool" where
  "response_fresh i s = (fst s (fst i) = None)"

definition response_put ::
  "addr \<times> response \<Rightarrow> response heap \<times> response_queue \<Rightarrow> (bool \<times> response heap \<times> response_queue) option" where
  "response_put i s = do {
     (ret, s') \<leftarrow> response_queue_push ((fst s)(fst i \<mapsto> snd i)) (snd s) (Some (fst i));
     Some (ret = 0, s')
   }"

definition response_get ::
  "response heap \<times> response_queue \<Rightarrow> (response option \<times> response heap \<times> response_queue) option" where
  "response_get s = do {
     (p, h, q) \<leftarrow> response_queue_pop (fst s) (snd s);
     case p of None \<Rightarrow> Some (None, h, q)
     | Some a \<Rightarrow> do { r \<leftarrow> h a; Some (Some r, h, q) }
   }"

definition response_values :: "nat \<Rightarrow> response heap \<times> response_queue \<Rightarrow> response list \<Rightarrow> bool" where
  "response_values n s rs =
     (\<exists>as. response_holds s as \<and> rq_max_size (snd s) = n \<and>
        map (\<lambda>a. map_option response_content (fst s a)) as = map Some rs)"

lemmas response_user_defs = response_content_def response_fresh_def response_put_def response_get_def
  response_values_def

lemma response_values_length: "response_values n s rs \<Longrightarrow> length rs \<le> n"
  by (cases s) (auto simp: response_values_def response_holds_def dest: map_eq_imp_length_eq)

lemma response_holds_other:
  assumes "response_holds (h, q) as" and "h a = None"
  shows "a \<notin> set as \<and> response_holds (h(a \<mapsto> r), q) as"
proof -
  have "a \<notin> set as"
    using assms chain_dom [of r_next_response h "rq_head q" as a]
    by (auto simp: response_holds_def linked_fifo_def)
  with assms(1) show ?thesis by (simp add: response_holds_def linked_fifo_def chain_frame)
qed

lemma response_map_other:
  "a \<notin> set as \<Longrightarrow> map (\<lambda>b. map_option f ((h(a \<mapsto> x)) b)) as = map (\<lambda>b. map_option f (h b)) as"
  by (rule map_cong) auto

lemma response_put_room:
  assumes v: "response_values n s rs" and f: "response_fresh i s" and room: "length rs < n"
  shows "\<exists>s'. response_put i s = Some (True, s') \<and> response_values n s' (rs @ [response_content (snd i)])"
proof -
  obtain h q a r where s: "s = (h, q)" "i = (a, r)" by (cases s, cases i) auto
  from v s obtain as where as: "response_holds (h, q) as" "rq_max_size q = n"
    and rs: "map (\<lambda>a. map_option response_content (h a)) as = map Some rs"
    by (auto simp: response_values_def)
  from f s have fa: "h a = None" by (simp add: response_fresh_def)
  note o = response_holds_other [OF as(1) fa, of r]
  have "length as < n" using room rs by (metis length_map)
  then obtain h' q' where p: "response_queue_push (h(a \<mapsto> r)) q (Some a) = Some (0, h', q')"
    "response_holds (h', q') (as @ [a])" "rq_max_size q' = n"
    and c: "\<And>b. map_option response_content (h' b) = map_option response_content ((h(a \<mapsto> r)) b)"
    using response_push_room [of "h(a \<mapsto> r)" q as a r] o as(2) unfolding response_content_def by auto
  have "map (\<lambda>b. map_option response_content (h' b)) (as @ [a]) = map Some (rs @ [response_content r])"
    unfolding c map_append using o rs response_map_other [of a as response_content h r] by simp
  with p s show ?thesis unfolding response_values_def response_put_def by auto
qed

lemma response_put_full:
  assumes v: "response_values n s rs" and f: "response_fresh i s" and full: "length rs = n"
  shows "\<exists>s'. response_put i s = Some (False, s') \<and> response_values n s' rs"
proof -
  obtain h q a r where s: "s = (h, q)" "i = (a, r)" by (cases s, cases i) auto
  from v s obtain as where as: "response_holds (h, q) as" "rq_max_size q = n"
    and rs: "map (\<lambda>a. map_option response_content (h a)) as = map Some rs"
    by (auto simp: response_values_def)
  from f s have fa: "h a = None" by (simp add: response_fresh_def)
  note o = response_holds_other [OF as(1) fa, of r]
  have "rq_size q \<ge> rq_max_size q" using full rs as by (auto simp: response_holds_def dest: map_eq_imp_length_eq)
  moreover have "map (\<lambda>b. map_option response_content ((h(a \<mapsto> r)) b)) as = map Some rs"
    using o rs response_map_other [of a as response_content h r] by simp
  ultimately show ?thesis using s o as(2)
    unfolding response_values_def response_put_def by (auto simp: response_push_full EAGAIN_num_def)
qed

lemma response_get_empty:
  "response_values n s [] \<Longrightarrow> \<exists>s'. response_get s = Some (None, s') \<and> response_values n s' []"
  by (auto simp: response_values_def response_get_def response_pop_empty split: prod.splits)

lemma response_get_front:
  assumes v: "response_values n s (r # rs)"
  shows "\<exists>s'. response_get s = Some (Some r, s') \<and> response_values n s' rs"
proof -
  obtain h q where s: "s = (h, q)" by (cases s)
  from v s obtain a as where as: "response_holds (h, q) (a # as)" "rq_max_size q = n"
    and r: "map_option response_content (h a) = Some r"
    and rs: "map (\<lambda>a. map_option response_content (h a)) as = map Some rs"
    by (auto simp: response_values_def)
  from as(1) have "a \<notin> set as" by (simp add: response_holds_def linked_fifo_def)
  then have m: "map (\<lambda>b. map_option response_content ((h(a \<mapsto> x)) b)) as = map Some rs" for x
    using rs response_map_other [of a as response_content h x] by simp
  from response_pop_front [OF as(1)] as(2) obtain x q' where
    p: "h a = Some x" "response_queue_pop h q = Some (Some a, h(a \<mapsto> response_content x), q')"
    "response_holds (h(a \<mapsto> response_content x), q') as" "rq_max_size q' = n"
    by (auto simp: response_content_def)
  have "response_values n (h(a \<mapsto> response_content x), q') rs"
    unfolding response_values_def using p(3,4) m by (intro exI [of _ as]) simp
  with r s p(1,2) show ?thesis by (simp add: response_get_def)
qed

interpretation rqueue: bounded_fifo "response_values n" n response_fresh "\<lambda>i. response_content (snd i)"
  response_put response_get for n
proof (unfold_locales, goal_cases)
  case 1 then show ?case by (rule response_values_length)
next
  case 2 then show ?case by (rule response_put_room)
next
  case 3 then show ?case by (rule response_put_full)
next
  case 4 then show ?case by (rule response_get_empty)
next
  case 5 then show ?case by (rule response_get_front)
qed

section \<open>The task queue\<close>

interpretation tasks: linked_nodes t_next_task "\<lambda>p t. t \<lparr> t_next_task := p \<rparr>"
  "\<lambda>t. t \<lparr> t_next_task := None \<rparr>"
  by unfold_locales simp_all

text \<open>Successive pushes, as the event loop makes them while the workers are busy.\<close>

fun push_all :: "task heap \<Rightarrow> task_queue \<Rightarrow> addr list \<Rightarrow> (task heap \<times> task_queue) option" where
  "push_all h q [] = Some (h, q)"
| "push_all h q (a # as) = do { (ret, h, q) \<leftarrow> push h q (Some a); push_all h q as }"

lemma push_first:
  assumes "tq_tail q = None" and "\<not> tq_shutdown q" and "tq_size q < tq_max_size q" and "h a = Some t"
  shows "push h q (Some a) = Some (0, h(a \<mapsto> t \<lparr> t_next_task := None \<rparr>),
    q \<lparr> tq_head := Some a, tq_tail := Some a, tq_size := tq_size q + 1 \<rparr>)"
  using assms by (simp add: push_def)

lemma push_next:
  assumes "tq_tail q = Some z" and "\<not> tq_shutdown q" and "tq_size q < tq_max_size q"
    and "h z = Some n" and "h a = Some t" and "a \<noteq> z"
  shows "push h q (Some a) = Some (0,
    h(z \<mapsto> n \<lparr> t_next_task := Some a \<rparr>, a \<mapsto> t \<lparr> t_next_task := None \<rparr>),
    q \<lparr> tq_size := tq_size q + 1 \<rparr>)"
  using assms by (simp add: push_def)

text \<open>Once the queue is not empty, the tail stays put and its link is overwritten.\<close>

lemma push_all_behind_tail:
  assumes "tq_head q = Some z" and "tq_tail q = Some z" and "\<not> tq_shutdown q" and "as \<noteq> []"
    and "tq_size q + length as \<le> tq_max_size q" and "h z \<noteq> None"
    and "\<forall>a \<in> set as. h a \<noteq> None" and "z \<notin> set as"
  shows "\<exists>h'. push_all h q as = Some (h', q \<lparr> tq_size := tq_size q + length as \<rparr>) \<and>
    chain t_next_task h' (Some z) [z, last as]"
  using assms
proof (induction as arbitrary: h q)
  case (Cons a as)
  then obtain n t where z: "h z = Some n" "h a = Some t" by auto
  let ?h = "h(z \<mapsto> n \<lparr> t_next_task := Some a \<rparr>, a \<mapsto> t \<lparr> t_next_task := None \<rparr>)"
  let ?q = "q \<lparr> tq_size := tq_size q + 1 \<rparr>"
  have p: "push h q (Some a) = Some (0, ?h, ?q)"
    using Cons.prems z by (intro push_next) auto
  show ?case
  proof (cases "as = []")
    case True
    then show ?thesis using p Cons.prems by auto
  next
    case False
    have "\<exists>h'. push_all ?h ?q as = Some (h', ?q \<lparr> tq_size := tq_size ?q + length as \<rparr>) \<and>
      chain t_next_task h' (Some z) [z, last as]"
      using Cons.prems False z by (intro Cons.IH) auto
    then show ?thesis using p False by simp
  qed
qed simp

lemma push_all_empty:
  assumes "0 < n" and "length as + 2 \<le> n" and "\<forall>b \<in> set (a # as @ [z]). h b \<noteq> None"
    and "distinct (a # as @ [z])"
  shows "\<exists>h' q'. push_all h (task_queue_init q n) (a # as @ [z]) = Some (h', q') \<and>
    tq_size q' = length as + 2 \<and> tq_head q' = Some a \<and> tq_tail q' = Some a \<and>
    \<not> tq_shutdown q' \<and> chain t_next_task h' (tq_head q') [a, z]"
proof -
  let ?q = "task_queue_init q n"
  have q: "tq_tail ?q = None" "\<not> tq_shutdown ?q" "tq_size ?q = 0" "tq_max_size ?q = n"
    using assms by (simp_all add: task_queue_init_def)
  obtain t where t: "h a = Some t" using assms by auto
  let ?h = "h(a \<mapsto> t \<lparr> t_next_task := None \<rparr>)"
  let ?q' = "?q \<lparr> tq_head := Some a, tq_tail := Some a, tq_size := 1 \<rparr>"
  have p: "push h ?q (Some a) = Some (0, ?h, ?q')" using push_first [of ?q h a t] q t assms by simp
  have "\<exists>h'. push_all ?h ?q' (as @ [z]) =
      Some (h', ?q' \<lparr> tq_size := tq_size ?q' + length (as @ [z]) \<rparr>) \<and>
    chain t_next_task h' (Some a) [a, last (as @ [z])]"
    using q assms by (intro push_all_behind_tail) auto
  with p q show ?thesis by auto
qed

lemma pop_head:
  assumes "tq_head q = Some a" and "h a = Some n" and "0 < tq_size q"
  shows "pop h q = Some (Returned (Some a), h(a \<mapsto> n \<lparr> t_next_task := None \<rparr>),
    q \<lparr> tq_head := t_next_task n, tq_tail := (if t_next_task n = None then None else tq_tail q),
        tq_size := tq_size q - 1 \<rparr>)"
  using assms by (simp add: pop_def Let_def)

text \<open>Taking the two reachable tasks of such a queue leaves it with a size and no head.\<close>

lemma pop_twice_then_null:
  assumes "chain t_next_task h (tq_head q) [a, z]" and "2 < tq_size q"
  shows "\<exists>h1 q1 h2 q2. pop h q = Some (Returned (Some a), h1, q1) \<and>
    pop h1 q1 = Some (Returned (Some z), h2, q2) \<and> pop h2 q2 = None"
proof -
  have "a \<noteq> z" using chain_distinct [OF assms(1)] by simp
  moreover from assms(1) obtain n m where "tq_head q = Some a" "h a = Some n" "t_next_task n = Some z"
    "h z = Some m" "t_next_task m = None"
    by (auto split: option.splits)
  ultimately show ?thesis
    using assms(2) by (simp add: pop_head) (simp add: pop_def)
qed

lemma free_tasks_chain:
  "chain t_next_task h p as \<Longrightarrow> free_tasks h p = Some (\<lambda>b. if b \<in> set as then None else h b)"
proof (induction as arbitrary: h p)
  case Nil
  then show ?case by (subst free_tasks.simps) simp
next
  case (Cons a as)
  then obtain n where n: "p = Some a" "h a = Some n" "chain t_next_task h (t_next_task n) as"
    by (auto split: option.splits)
  moreover have "a \<notin> set as" using chain_distinct [OF Cons.prems] by simp
  ultimately have "chain t_next_task (h(a := None)) (t_next_task n) as"
    by (simp only: chain_frame not_False_eq_True)
  from Cons.IH [OF this] have "free_tasks (h(a := None)) (t_next_task n) =
      Some (\<lambda>b. if b \<in> set as then None else (h(a := None)) b)" .
  moreover have "(\<lambda>b. if b \<in> set as then None else (h(a := None)) b) =
      (\<lambda>b. if b \<in> set (a # as) then None else h b)" by auto
  ultimately show ?case using n by (subst free_tasks.simps) simp
qed

lemma response_values_init: "0 < n \<Longrightarrow> response_values n (h, response_queue_init q n) []"
  by (simp add: response_values_def response_holds_def response_queue_init_def linked_fifo_def)

section \<open>Properties\<close>

text \<open>
  C1. The response queue is a lossless, ordered channel. However the workers' pushes of newly
  allocated responses and the event loop's pops interleave from initialisation on, the
  responses taken out so far, followed by the at most \<open>max_size\<close> responses still linked in the
  queue, are exactly the responses whose push was accepted, in order; and the next call of
  either operation is defined, whatever node is passed.
\<close>

theorem response_queue_fifo:
  assumes "0 < n"
    and "fifo_exec response_fresh (\<lambda>i. response_content (snd i)) response_put response_get
      (h, response_queue_init q n) ins outs t"
  shows "(\<exists>rs. ins = outs @ rs \<and> response_values n t rs \<and> length rs \<le> n) \<and>
    response_get t \<noteq> None \<and> (\<forall>i. response_fresh i t \<longrightarrow> response_put i t \<noteq> None)"
  using rqueue.exec_order [OF assms(2) response_values_init [OF assms(1)]]
    rqueue.exec_defined [OF assms(2) response_values_init [OF assms(1)]]
  by (auto intro: response_values_length)

text \<open>A queue for two, with one response put and taken.\<close>

definition sample_response :: response where
  "sample_response = \<lparr> r_slot = 3, r_generation = 9, r_type = MSG_RESPONSE, r_request_id = 5,
     r_length = 0, r_payload = replicate MAX_PAYLOAD 0, r_next_response = None \<rparr>"

definition sample_response_queue :: response_queue where
  "sample_response_queue = \<lparr> rq_head = Some 77, rq_tail = None, rq_size = 6, rq_max_size = 0 \<rparr>"

lemma sample_response_run:
  "fifo_exec response_fresh (\<lambda>i. response_content (snd i)) response_put response_get
     (Map.empty, response_queue_init sample_response_queue 2)
     [response_content sample_response] [response_content sample_response]
     ([100 \<mapsto> sample_response], \<lparr> rq_head = None, rq_tail = None, rq_size = 0, rq_max_size = 2 \<rparr>)"
proof -
  let ?e = "fifo_exec response_fresh (\<lambda>i. response_content (snd i)) response_put response_get
     (Map.empty, response_queue_init sample_response_queue 2)"
  let ?q = "\<lparr> rq_head = Some 100, rq_tail = Some 100, rq_size = 1, rq_max_size = 2 \<rparr>"
  have "?e ([] @ [response_content (snd (100 :: addr, sample_response))]) [] ([100 \<mapsto> sample_response], ?q)"
    by (rule fifo_exec.put [OF fifo_exec.start])
      (simp_all add: response_fresh_def response_put_def response_queue_push_def
        response_queue_init_def sample_response_queue_def sample_response_def)
  then have "?e [response_content sample_response] [] ([100 \<mapsto> sample_response], ?q)" by simp
  then have "?e [response_content sample_response] ([] @ [response_content sample_response])
     ([100 \<mapsto> sample_response], \<lparr> rq_head = None, rq_tail = None, rq_size = 0, rq_max_size = 2 \<rparr>)"
    by (rule fifo_exec.get)
      (simp add: response_get_def response_queue_pop_def response_content_def sample_response_def)
  then show ?thesis by simp
qed

theorem response_queue_fifo_witness:
  "response_get ([100 \<mapsto> sample_response],
     \<lparr> rq_head = None, rq_tail = None, rq_size = 0, rq_max_size = 2 \<rparr>) \<noteq> None"
  using response_queue_fifo [OF _ sample_response_run] by simp

text \<open>
  C24. The task queue loses work. \<open>push\<close> links a task behind \<open>tail\<close> but moves \<open>tail\<close> only
  when the queue was empty: after any number of at least three pushes into an empty queue the
  list reachable from \<open>head\<close> holds the first and the last task only, while \<open>size\<close> counts all
  of them. Two pops later \<open>head\<close> is NULL with \<open>size\<close> still positive and the next pop
  dereferences it.
\<close>

theorem push_loses_tasks:
  assumes "as \<noteq> []" and "length as + 2 \<le> n" and "\<forall>b \<in> set (a # as @ [z]). h b \<noteq> None"
    and "distinct (a # as @ [z])"
  shows "\<exists>h' q'. push_all h (task_queue_init q n) (a # as @ [z]) = Some (h', q') \<and>
    tq_size q' = length as + 2 \<and> chain t_next_task h' (tq_head q') [a, z] \<and>
    (\<exists>h1 q1 h2 q2. pop h' q' = Some (Returned (Some a), h1, q1) \<and>
       pop h1 q1 = Some (Returned (Some z), h2, q2) \<and> pop h2 q2 = None)"
proof -
  have "0 < n" using assms(2) by simp
  from push_all_empty [OF this assms(2-4), of q] obtain h' q' where
    p: "push_all h (task_queue_init q n) (a # as @ [z]) = Some (h', q')"
    "tq_size q' = length as + 2" "chain t_next_task h' (tq_head q') [a, z]" by blast
  then have "2 < tq_size q'" using assms(1) by simp
  with p pop_twice_then_null [OF p(3)] show ?thesis by blast
qed

definition sample_task :: task where
  "sample_task = \<lparr> t_slot = 0, t_task_id = 1, t_generation = 1, t_type = MSG_ECHO, t_request_id = 4,
     t_payload = replicate MAX_PAYLOAD 0, t_timeout_ms = 5000, t_next_task = None, t_length = 0 \<rparr>"

definition sample_task_queue :: task_queue where
  "sample_task_queue = \<lparr> tq_head = None, tq_tail = None, tq_size = 0, tq_max_size = 0, tq_shutdown = True \<rparr>"

theorem push_loses_tasks_witness:
  "\<exists>h' q'. push_all [10 \<mapsto> sample_task, 20 \<mapsto> sample_task, 30 \<mapsto> sample_task]
     (task_queue_init sample_task_queue 1024) [10, 20, 30] = Some (h', q') \<and>
     tq_size q' = 3 \<and> chain t_next_task h' (tq_head q') [10, 30]"
  using push_loses_tasks [of "[20]" 1024 10 30
      "[10 \<mapsto> sample_task, 20 \<mapsto> sample_task, 30 \<mapsto> sample_task]" sample_task_queue]
  by auto

text \<open>
  C25. A worker that has freed the task it popped leaves a dangling tail: with two tasks queued,
  popping one, freeing it as \<open>worker_thread\<close> does, and pushing another writes through the
  freed node.
\<close>

theorem push_after_free:
  assumes "2 \<le> n" and "h a \<noteq> None" and "h b \<noteq> None" and "a \<noteq> b"
  shows "\<exists>h1 q1 h2 q2. push_all h (task_queue_init q n) [a, b] = Some (h1, q1) \<and>
    pop h1 q1 = Some (Returned (Some a), h2, q2) \<and>
    (\<forall>h3 c. h3 a = None \<longrightarrow> push h3 q2 (Some c) = None)"
proof -
  obtain s t where "h a = Some s" "h b = Some t" using assms by auto
  with assms show ?thesis
    by (simp add: push_first push_next pop_head task_queue_init_def) (simp add: push_def)
qed

theorem push_after_free_witness:
  "\<exists>h1 q1 h2 q2. push_all [10 \<mapsto> sample_task, 20 \<mapsto> sample_task] (task_queue_init sample_task_queue 1024)
       [10, 20] = Some (h1, q1) \<and> pop h1 q1 = Some (Returned (Some 10), h2, q2) \<and>
     push (h2(10 := None, 30 \<mapsto> sample_task)) q2 (Some 30) = None"
  using push_after_free [of 1024 "[10 \<mapsto> sample_task, 20 \<mapsto> sample_task]" 10 20 sample_task_queue]
  by (auto simp del: push_all.simps)

text \<open>
  Destroying a task queue terminates and frees exactly the tasks linked from \<open>head\<close>: no
  freed node is read, no other node is touched, and the queue is empty afterwards. (A task
  that \<open>push\<close> has unlinked is therefore never freed.)
\<close>

theorem task_queue_destroy_frees:
  assumes "chain t_next_task h (tq_head q) as"
  shows "task_queue_destroy h q =
    Some (0, \<lambda>b. if b \<in> set as then None else h b,
          q \<lparr> tq_head := None, tq_tail := None, tq_size := 0 \<rparr>)"
  using free_tasks_chain [OF assms] by (simp add: task_queue_destroy_def)

theorem task_queue_destroy_frees_witness:
  "task_queue_destroy [10 \<mapsto> sample_task, 20 \<mapsto> sample_task]
     (sample_task_queue \<lparr> tq_head := Some 20, tq_size := 1 \<rparr>) =
   Some (0, \<lambda>b. if b = 20 then None else [10 \<mapsto> sample_task, 20 \<mapsto> sample_task] b, sample_task_queue)"
  using task_queue_destroy_frees [of "[10 \<mapsto> sample_task, 20 \<mapsto> sample_task]"
      "sample_task_queue \<lparr> tq_head := Some 20, tq_size := 1 \<rparr>" "[20]"]
  by (simp add: sample_task_def sample_task_queue_def)

end
