(* ===== verification/Double.thy ===== *)
theory Double
  imports Complex_Main
begin

text \<open>
  Rounding of C's \<open>double\<close>: every arithmetic operation of the sources on \<open>double\<close> operands is
  the exact real operation followed by \<open>dbl\<close>, round to nearest with ties to even at 53
  significant bits. Overflow, subnormal numbers and NaN do not arise in the ranges the sources
  compute in (counts of requests and of milliseconds) and are not represented.
\<close>

section \<open>The rounding function\<close>

definition rne :: "real \<Rightarrow> int" where
  "rne y = (let f = \<lfloor>y\<rfloor>; d = y - of_int f in
     if d < 1 / 2 then f else if d > 1 / 2 then f + 1 else if even f then f else f + 1)"

definition ulp :: "real \<Rightarrow> real" where
  "ulp x = 2 powr (of_int \<lfloor>log 2 \<bar>x\<bar>\<rfloor> - 52)"

definition dbl :: "real \<Rightarrow> real" where
  "dbl x = (if x = 0 then 0 else of_int (rne (x / ulp x)) * ulp x)"

section \<open>Its laws\<close>

lemma rne_of_int [simp]: "rne (of_int n) = n"
  by (simp add: rne_def)

lemma rne_error: "\<bar>of_int (rne y) - y\<bar> \<le> 1 / 2"
  unfolding rne_def Let_def by (auto simp: abs_if) linarith+

lemma rne_floor: "rne y = \<lfloor>y\<rfloor> \<or> rne y = \<lfloor>y\<rfloor> + 1"
  by (simp add: rne_def Let_def)

lemma rne_mono: "x \<le> y \<Longrightarrow> rne x \<le> rne y"
proof -
  assume "x \<le> y"
  then consider "\<lfloor>x\<rfloor> = \<lfloor>y\<rfloor>" | "\<lfloor>x\<rfloor> + 1 \<le> \<lfloor>y\<rfloor>"
    using floor_mono [of x y] by linarith
  then show ?thesis
  proof cases
    case 1
    with \<open>x \<le> y\<close> show ?thesis unfolding rne_def Let_def by auto
  next
    case 2
    with rne_floor [of x] rne_floor [of y] show ?thesis by linarith
  qed
qed

lemma ulp_pos [simp]: "0 < ulp x"
  by (simp add: ulp_def)

lemma ulp_nonzero [simp]: "ulp x \<noteq> 0"
  by (simp add: ulp_def)

lemma ulp_range:
  assumes "0 < x"
  shows "2 ^ 52 \<le> x / ulp x" and "x / ulp x < 2 ^ 53"
proof -
  let ?e = "\<lfloor>log 2 x\<rfloor>"
  have e: "2 powr of_int ?e \<le> x" "x < 2 powr (of_int ?e + 1)"
    using floor_log_eq_powr_iff [of x 2 ?e] assms by auto
  have "2 ^ 52 * ulp x = 2 powr of_int ?e"
    using assms by (simp add: ulp_def powr_diff powr_numeral)
  with e(1) show "2 ^ 52 \<le> x / ulp x" by (simp add: field_simps)
  have "2 ^ 53 * ulp x = 2 powr (of_int ?e + 1)"
    using assms by (simp add: ulp_def powr_diff powr_add powr_numeral)
  with e(2) show "x / ulp x < 2 ^ 53" by (simp add: field_simps)
qed

lemma dbl_zero [simp]: "dbl 0 = 0"
  by (simp add: dbl_def)

lemma dbl_error: "0 \<le> x \<Longrightarrow> \<bar>dbl x - x\<bar> \<le> x / 2 ^ 53"
proof (cases "x = 0")
  case False
  assume "0 \<le> x"
  with False have x: "0 < x" by simp
  have "\<bar>dbl x - x\<bar> = \<bar>of_int (rne (x / ulp x)) - x / ulp x\<bar> * ulp x"
    using False abs_mult_pos [of "ulp x" "of_int (rne (x / ulp x)) - x / ulp x"] ulp_pos [of x]
    by (simp add: dbl_def left_diff_distrib less_imp_le)
  also have "\<dots> \<le> 1 / 2 * ulp x"
    using rne_error by (rule mult_right_mono) (simp add: less_imp_le)
  also have "\<dots> \<le> x / 2 ^ 53"
    using ulp_range(1) [OF x] by (simp add: field_simps)
  finally show ?thesis .
qed simp

lemma dbl_le: "0 \<le> x \<Longrightarrow> dbl x \<le> x + x / 2 ^ 53"
  using dbl_error [of x] by linarith

text \<open>Numbers in a lower binade round to at most its upper end.\<close>

lemma dbl_binade:
  assumes "0 < x"
  shows "2 ^ 52 * ulp x \<le> dbl x" and "dbl x \<le> 2 ^ 53 * ulp x"
proof -
  have "rne (of_int (2 ^ 52)) \<le> rne (x / ulp x)" and "rne (x / ulp x) \<le> rne (of_int (2 ^ 53))"
    using ulp_range [OF assms] by (auto intro!: rne_mono simp: less_imp_le)
  then have "2 ^ 52 \<le> rne (x / ulp x)" and "rne (x / ulp x) \<le> 2 ^ 53"
    by (simp_all only: rne_of_int)
  then have "2 ^ 52 \<le> real_of_int (rne (x / ulp x))" and "real_of_int (rne (x / ulp x)) \<le> 2 ^ 53"
    by simp_all
  with assms show "2 ^ 52 * ulp x \<le> dbl x" and "dbl x \<le> 2 ^ 53 * ulp x"
    by (simp_all add: dbl_def mult_right_mono less_imp_le)
qed

lemma dbl_mono:
  assumes "0 \<le> x" and "x \<le> y"
  shows "dbl x \<le> dbl y"
proof (cases "x = 0")
  case True
  show ?thesis
  proof (cases "y = 0")
    case False
    with True assms have "0 < y" by simp
    have "0 \<le> 2 ^ 52 * ulp y" using ulp_pos [of y] by (simp add: less_imp_le)
    also have "\<dots> \<le> dbl y" using dbl_binade(1) [OF \<open>0 < y\<close>] .
    finally have "0 \<le> dbl y" .
    with True show ?thesis by simp
  qed (simp add: True)
next
  case False
  with assms have pos: "0 < x" "0 < y" by auto
  let ?e = "\<lfloor>log 2 x\<rfloor>" and ?f = "\<lfloor>log 2 y\<rfloor>"
  have "?e \<le> ?f" using pos assms(2) by (intro floor_mono) simp
  then consider "?e = ?f" | "?e + 1 \<le> ?f" by linarith
  then show ?thesis
  proof cases
    case 1
    then have u: "ulp x = ulp y" using pos by (simp add: ulp_def)
    have "rne (x / ulp y) \<le> rne (y / ulp y)"
      using assms(2) by (intro rne_mono divide_right_mono) (simp_all add: less_imp_le)
    then show ?thesis using pos by (simp add: dbl_def u mult_right_mono less_imp_le)
  next
    case 2
    then have "2 * ulp x \<le> ulp y"
      using pos by (simp add: ulp_def powr_mult_base) 
    then have "2 ^ 53 * ulp x \<le> 2 ^ 52 * ulp y" by simp
    with dbl_binade(2) [OF pos(1)] dbl_binade(1) [OF pos(2)] show ?thesis by linarith
  qed
qed

lemma dbl_nonneg: "0 \<le> x \<Longrightarrow> 0 \<le> dbl x"
  using dbl_mono [of 0 x] by simp

lemma dbl_of_nat: "n < 2 ^ 53 \<Longrightarrow> dbl (real n) = real n"
proof (cases "n = 0")
  case False
  assume n: "n < 2 ^ 53"
  let ?e = "\<lfloor>log 2 (real n)\<rfloor>"
  have x: "0 < real n" "1 \<le> real n" using False by simp_all
  have "real n < real (2 ^ 53)" using n by (simp only: of_nat_less_iff)
  then have "real n < 2 powr 53" by (simp add: powr_numeral)
  then have "log 2 (real n) < 53" using x by (subst log_less_iff) simp_all
  then have e: "0 \<le> ?e" "?e \<le> 52" using x by (simp_all add: le_log_iff) linarith?
  then obtain k where k: "52 - ?e = int k" by (metis diff_ge_0_iff_ge nonneg_int_cases)
  have u: "ulp (real n) * 2 ^ k = 1"
    using k by (simp add: ulp_def powr_add [symmetric] flip: powr_realpow)
  have "real n / ulp (real n) = real n * (ulp (real n) * 2 ^ k) / ulp (real n)" by (simp only: u mult_1_right)
  also have "\<dots> = real_of_int (int n * 2 ^ k)" by simp
  finally have "rne (real n / ulp (real n)) = int n * 2 ^ k" by (simp only: rne_of_int)
  then have "dbl (real n) = real n * (ulp (real n) * 2 ^ k)" using False by (simp add: dbl_def)
  then show ?thesis by (simp only: u mult_1_right)
qed simp

end
