(* ===== verification/Rate_Limit.thy ===== *)
theory Rate_Limit
  imports Double Prelude
begin

text \<open>
  The token bucket of the gateway (\<open>gateway/src/rate_limit.c\<close>). The two readings of the
  monotonic clock that \<open>request_allow\<close> makes are arguments; \<open>double\<close> arithmetic is rounded
  as in theory \<open>Double\<close>.
\<close>

section \<open>The code\<close>

record rate_limit =
  capacity :: real
  number_request_available :: real
  request_per_second :: real
  last_request_ms :: u64

definition RATE_LIMIT_CAP :: real where "RATE_LIMIT_CAP = 100"
definition RATE_LIMIT_REFILL_SEC :: real where "RATE_LIMIT_REFILL_SEC = 50"

definition rate_limit_init :: "real \<Rightarrow> real \<Rightarrow> u64 \<Rightarrow> rate_limit" where
  "rate_limit_init cap rps now =
     \<lparr> capacity = cap, number_request_available = cap, request_per_second = rps,
       last_request_ms = now \<rparr>"

definition request_allow :: "u64 \<Rightarrow> u64 \<Rightarrow> rate_limit \<Rightarrow> bool \<times> rate_limit" where
  "request_allow now now' rate =
     (let time_eslaped = dbl (dbl (real (unat (now - last_request_ms rate))) / 1000);
          could_process = dbl (time_eslaped * request_per_second rate);
          rate = rate \<lparr> number_request_available := dbl (number_request_available rate + could_process) \<rparr>;
          rate = (if number_request_available rate > capacity rate
                  then rate \<lparr> number_request_available := capacity rate \<rparr> else rate);
          rate = rate \<lparr> last_request_ms := now' \<rparr>
      in if number_request_available rate < 1 then (False, rate)
         else (True, rate \<lparr> number_request_available := dbl (number_request_available rate - 1) \<rparr>))"

text \<open>The answers to a sequence of calls, each with its two clock readings.\<close>

fun request_run :: "(u64 \<times> u64) list \<Rightarrow> rate_limit \<Rightarrow> bool list \<times> rate_limit" where
  "request_run [] rate = ([], rate)"
| "request_run ((now, now') # ts) rate =
     (let (b, rate) = request_allow now now' rate; (bs, rate) = request_run ts rate in (b # bs, rate))"

section \<open>The bucket invariant\<close>

text \<open>The limiter of a client: the gateway's constants, and between no and \<open>RATE_LIMIT_CAP\<close> tokens.\<close>

definition rate_inv :: "rate_limit \<Rightarrow> bool" where
  "rate_inv r = (capacity r = RATE_LIMIT_CAP \<and> request_per_second r = RATE_LIMIT_REFILL_SEC \<and>
     0 \<le> number_request_available r \<and> number_request_available r \<le> RATE_LIMIT_CAP)"

lemmas rate_consts = RATE_LIMIT_CAP_def RATE_LIMIT_REFILL_SEC_def

definition refill :: "nat \<Rightarrow> real" where
  "refill ms = dbl (dbl (dbl (real ms) / 1000) * 50)"

definition bucket :: "nat \<Rightarrow> real \<Rightarrow> real" where
  "bucket ms a = min 100 (dbl (a + refill ms))"

lemma refill_nonneg: "0 \<le> refill ms"
  by (simp add: refill_def dbl_nonneg)

lemma request_allow_bucket:
  assumes "rate_inv r"
  shows "request_allow now now' r =
    (let a = bucket (unat (now - last_request_ms r)) (number_request_available r) in
     (1 \<le> a, r \<lparr> number_request_available := (if 1 \<le> a then dbl (a - 1) else a), last_request_ms := now' \<rparr>))"
  using assms
  by (auto simp: request_allow_def rate_inv_def rate_consts bucket_def refill_def Let_def min_def not_le)

lemma dbl_mono_nat: "0 \<le> x \<Longrightarrow> x \<le> real n \<Longrightarrow> n < 2 ^ 53 \<Longrightarrow> dbl x \<le> real n"
  using dbl_mono [of x "real n"] dbl_of_nat [of n] by simp

lemma dbl_ge_nat: "real n \<le> x \<Longrightarrow> n < 2 ^ 53 \<Longrightarrow> real n \<le> dbl x"
  using dbl_mono [of "real n" x] dbl_of_nat [of n] by simp

lemma bucket_bounds: "0 \<le> a \<Longrightarrow> 0 \<le> bucket ms a \<and> bucket ms a \<le> 100"
  using refill_nonneg [of ms] by (auto simp: bucket_def intro: dbl_nonneg)

text \<open>Refilling never takes whole tokens away.\<close>

lemma bucket_ge_nat:
  assumes "real n \<le> a" and "n \<le> 100"
  shows "real n \<le> bucket ms a"
proof -
  have "real n \<le> dbl (a + refill ms)"
    using assms refill_nonneg [of ms] by (intro dbl_ge_nat) simp_all
  with assms(2) show ?thesis by (simp add: bucket_def)
qed

lemma request_allow_inv: "rate_inv r \<Longrightarrow> rate_inv (snd (request_allow now now' r))"
proof -
  assume r: "rate_inv r"
  let ?a = "bucket (unat (now - last_request_ms r)) (number_request_available r)"
  have a: "0 \<le> ?a" "?a \<le> 100" using r bucket_bounds by (auto simp: rate_inv_def)
  have "0 \<le> dbl (?a - 1) \<and> dbl (?a - 1) \<le> 100" if "1 \<le> ?a"
    using that a dbl_mono_nat [of "?a - 1" 100] by (auto intro: dbl_nonneg)
  with a r show ?thesis
    by (simp add: request_allow_bucket Let_def) (simp add: rate_inv_def rate_consts)
qed

lemma request_run_inv: "rate_inv r \<Longrightarrow> rate_inv (snd (request_run ts r))"
proof (induction ts arbitrary: r)
  case (Cons t ts)
  then show ?case using request_allow_inv [of r "fst t" "snd t"]
    by (cases t) (auto simp: split_beta Let_def)
qed simp

lemma rate_inv_init: "rate_inv (rate_limit_init RATE_LIMIT_CAP RATE_LIMIT_REFILL_SEC now)"
  by (simp add: rate_inv_def rate_limit_init_def rate_consts)

section \<open>The burst a full bucket admits\<close>

lemma request_allow_burst:
  assumes "rate_inv r" and "real (Suc n) \<le> number_request_available r" and "Suc n \<le> 100"
  shows "fst (request_allow now now' r) \<and> real n \<le> number_request_available (snd (request_allow now now' r))"
proof -
  let ?a = "bucket (unat (now - last_request_ms r)) (number_request_available r)"
  have a: "real (Suc n) \<le> ?a" using assms bucket_ge_nat by blast
  then have "real n \<le> dbl (?a - 1)" using assms(3) by (intro dbl_ge_nat) simp_all
  with a assms(1) show ?thesis by (simp add: request_allow_bucket Let_def)
qed

lemma request_run_burst:
  "rate_inv r \<Longrightarrow> real (length ts) \<le> number_request_available r \<Longrightarrow> length ts \<le> 100 \<Longrightarrow>
   fst (request_run ts r) = replicate (length ts) True"
proof (induction ts arbitrary: r)
  case (Cons t ts)
  obtain now now' where t: "t = (now, now')" by (cases t)
  note b = request_allow_burst [of r "length ts" now now']
  from Cons.prems b have "fst (request_run ts (snd (request_allow now now' r))) = replicate (length ts) True"
    by (intro Cons.IH) (auto intro: request_allow_inv)
  then show ?case using b Cons.prems t by (simp add: split_beta Let_def)
qed simp

section \<open>The rate it enforces\<close>

text \<open>Clock readings in the order the code takes them, never going back.\<close>

fun clock_ok :: "u64 \<Rightarrow> (u64 \<times> u64) list \<Rightarrow> bool" where
  "clock_ok t [] = True"
| "clock_ok t ((now, now') # ts) = (t \<le> now \<and> now \<le> now' \<and> clock_ok now' ts)"

fun last_reading :: "u64 \<Rightarrow> (u64 \<times> u64) list \<Rightarrow> u64" where
  "last_reading t [] = t"
| "last_reading t ((now, now') # ts) = last_reading now' ts"

definition eps :: real where "eps = 1 / 2 ^ 53"

lemma dbl_upper: "0 \<le> x \<Longrightarrow> x \<le> y \<Longrightarrow> dbl x \<le> y * (1 + eps)"
  using dbl_le [of x] mult_right_mono [of x y "1 + eps"] by (simp add: eps_def algebra_simps)

lemma refill_le: "refill ms \<le> real ms / 20 * (1 + 4 * eps)"
proof -
  let ?x = "real ms" and ?u = "1 + eps"
  have 1: "dbl ?x / 1000 \<le> ?x * ?u / 1000" using dbl_upper [of ?x ?x] by simp
  have 2: "dbl (dbl ?x / 1000) * 50 \<le> ?x * ?u / 1000 * ?u * 50"
    using dbl_upper [OF _ 1] by (simp add: dbl_nonneg)
  have 3: "refill ms \<le> ?x * ?u / 1000 * ?u * 50 * ?u"
    unfolding refill_def using dbl_upper [OF _ 2] by (simp add: dbl_nonneg)
  have "?u * ?u * ?u \<le> 1 + 4 * eps" by (simp add: eps_def)
  then have "?x / 20 * (?u * ?u * ?u) \<le> ?x / 20 * (1 + 4 * eps)" by (intro mult_left_mono) simp_all
  moreover have "?x * ?u / 1000 * ?u * 50 * ?u = ?x / 20 * (?u * ?u * ?u)" by simp
  ultimately show ?thesis using 3 by linarith
qed

lemma bucket_le:
  assumes "0 \<le> a"
  shows "bucket ms a \<le> a + real ms / 20 * (1 + 4 * eps) + 100 * eps"
proof -
  have y: "0 \<le> a + refill ms" using assms refill_nonneg [of ms] by simp
  have "bucket ms a \<le> a + refill ms + 100 * eps"
  proof (cases "a + refill ms \<le> 100")
    case True
    then have "(a + refill ms) / 2 ^ 53 \<le> 100 / 2 ^ 53" by (intro divide_right_mono) simp_all
    with dbl_le [OF y] show ?thesis unfolding bucket_def eps_def by linarith
  next
    case False
    then show ?thesis by (simp add: bucket_def eps_def)
  qed
  with refill_le [of ms] show ?thesis by linarith
qed

lemma request_allow_pays:
  assumes r: "rate_inv r" and t: "last_request_ms r \<le> now"
  shows "of_bool (fst (request_allow now now' r)) + number_request_available (snd (request_allow now now' r)) \<le>
    number_request_available r + (real (unat now) - real (unat (last_request_ms r))) / 20 * (1 + 4 * eps) + 200 * eps"
proof -
  let ?ms = "unat (now - last_request_ms r)"
  let ?a = "bucket ?ms (number_request_available r)"
  have ms: "real ?ms = real (unat now) - real (unat (last_request_ms r))"
    using t by (simp add: unat_sub word_le_nat_alt of_nat_diff)
  have n: "0 \<le> number_request_available r" using r by (simp add: rate_inv_def)
  have a: "0 \<le> ?a" "?a \<le> 100" "?a \<le> number_request_available r + real ?ms / 20 * (1 + 4 * eps) + 100 * eps"
    using bucket_bounds [OF n] bucket_le [OF n] by blast+
  have "dbl (?a - 1) \<le> ?a - 1 + 100 * eps" if "1 \<le> ?a"
  proof -
    have "(?a - 1) / 2 ^ 53 \<le> 100 / 2 ^ 53" using a(2) by (intro divide_right_mono) simp_all
    with that dbl_le [of "?a - 1"] show ?thesis unfolding eps_def by linarith
  qed
  with a(3) show ?thesis
    unfolding ms [symmetric] using r by (auto simp: request_allow_bucket Let_def eps_def)
qed

lemma request_run_pays:
  assumes "rate_inv r" and "clock_ok (last_request_ms r) ts"
  shows "real (length (filter (\<lambda>b. b) (fst (request_run ts r)))) \<le> number_request_available r +
    (real (unat (last_reading (last_request_ms r) ts)) - real (unat (last_request_ms r))) / 20 * (1 + 4 * eps) +
    200 * eps * real (length ts)"
  using assms
proof (induction ts arbitrary: r)
  case Nil
  then show ?case by (simp add: rate_inv_def)
next
  case (Cons t ts)
  obtain now now' where t: "t = (now, now')" by (cases t)
  let ?r = "snd (request_allow now now' r)" and ?c = "1 + 4 * eps"
  have c: "last_request_ms r \<le> now" "now \<le> now'" "clock_ok now' ts" using Cons.prems t by auto
  have l: "last_request_ms ?r = now'" using Cons.prems by (simp add: request_allow_bucket Let_def)
  have ih: "real (length (filter (\<lambda>b. b) (fst (request_run ts ?r)))) \<le> number_request_available ?r +
    (real (unat (last_reading now' ts)) - real (unat now')) / 20 * ?c + 200 * eps * real (length ts)"
    using Cons.IH [of ?r] request_allow_inv [OF Cons.prems(1)] c(3) l by simp
  have "real (unat now) / 20 * ?c \<le> real (unat now') / 20 * ?c"
    using c(2) unfolding word_le_nat_alt of_nat_le_iff [where 'a = real, symmetric]
    by (intro mult_right_mono) (simp_all add: eps_def)
  moreover have "real (length (filter (\<lambda>b. b) (fst (request_run (t # ts) r)))) =
      of_bool (fst (request_allow now now' r)) + real (length (filter (\<lambda>b. b) (fst (request_run ts ?r))))"
    by (simp add: t split_beta Let_def)
  moreover have e: "(x - y) / 20 * ?c = x / 20 * ?c - y / 20 * ?c" for x y :: real
    by (simp add: diff_divide_distrib left_diff_distrib)
  moreover have "200 * eps * real (length (t # ts)) = 200 * eps * real (length ts) + 200 * eps"
    by (simp add: algebra_simps)
  moreover have "last_reading (last_request_ms r) (t # ts) = last_reading now' ts" by (simp add: t)
  ultimately show ?case
    using ih request_allow_pays [OF Cons.prems(1) c(1), of now'] unfolding e by simp
qed

section \<open>Properties\<close>

text \<open>
  C26. The limiter enforces its rate. From its initialisation at time \<open>t0\<close> on, whatever the
  timing of the calls, the number of requests allowed by time \<open>t\<close> is at most the capacity of
  100 plus 50 per second elapsed, up to the rounding of \<open>double\<close> arithmetic: a relative
  \<open>2\<^sup>-\<^sup>5\<^sup>1\<close> of the refill and less than \<open>200 / 2\<^sup>5\<^sup>3\<close> per call. The clock is only assumed not to go
  back.
\<close>

theorem request_allow_rate:
  assumes "clock_ok t0 ts"
  shows "real (length (filter (\<lambda>b. b) (fst (request_run ts (rate_limit_init RATE_LIMIT_CAP RATE_LIMIT_REFILL_SEC t0)))))
    \<le> 100 + 50 * ((real (unat (last_reading t0 ts)) - real (unat t0)) / 1000) * (1 + 4 / 2 ^ 53)
      + 200 / 2 ^ 53 * real (length ts)"
proof -
  let ?r = "rate_limit_init RATE_LIMIT_CAP RATE_LIMIT_REFILL_SEC t0"
  have i: "last_request_ms ?r = t0" "number_request_available ?r = 100"
    by (simp_all add: rate_limit_init_def rate_consts)
  have e: "50 * (x / 1000) * (1 + 4 / 2 ^ 53) = x / 20 * (1 + 4 * eps)" for x :: real
    by (simp add: eps_def)
  have "200 / 2 ^ 53 = 200 * eps" by (simp add: eps_def)
  with request_run_pays [OF rate_inv_init [of t0], of ts] assms show ?thesis
    by (simp only: i e)
qed

theorem request_allow_rate_witness:
  "real (length (filter (\<lambda>b. b) (fst (request_run [(1000, 1000), (1001, 1002)]
      (rate_limit_init RATE_LIMIT_CAP RATE_LIMIT_REFILL_SEC 1000)))))
    \<le> 100 + 50 * ((real (unat (1002 :: u64)) - real (unat (1000 :: u64))) / 1000) * (1 + 4 / 2 ^ 53)
      + 200 / 2 ^ 53 * 2"
  using request_allow_rate [of 1000 "[(1000, 1000), (1001, 1002)]"] by simp

text \<open>
  A fresh limiter admits a burst of its full capacity: the first 100 requests are all
  allowed, at any spacing and for any clock readings, so that rounding never costs a client a
  whole request.
\<close>

theorem request_allow_burst_100:
  assumes "length ts \<le> 100"
  shows "fst (request_run ts (rate_limit_init RATE_LIMIT_CAP RATE_LIMIT_REFILL_SEC t0)) =
    replicate (length ts) True"
  using assms request_run_burst [OF rate_inv_init, of ts t0]
  by (simp add: rate_limit_init_def rate_consts)

theorem request_allow_burst_100_witness:
  "fst (request_run [(5, 5), (5, 6), (9, 9)] (rate_limit_init RATE_LIMIT_CAP RATE_LIMIT_REFILL_SEC 5)) =
    [True, True, True]"
  using request_allow_burst_100 [of "[(5, 5), (5, 6), (9, 9)]" 5] by (simp add: numeral_3_eq_3)

end
