(* ===== verification/Client.thy ===== *)
theory Client
  imports Queue Rate_Limit
begin

text \<open>
  The gateway's per-connection state (\<open>gateway/src/client.c\<close>): the slot table, the transmit
  queue of each client and its two flush loops, the packing of responses and the building of
  tasks. The socket and the TLS library are parameters (\<open>tx\<close>); clock readings, \<open>malloc\<close>
  answers and the epoll registration the functions update are explicit.
\<close>

section \<open>The code\<close>

text \<open>
  The \<open>data\<close> block of a node belongs to that node alone: it is freed with it, and the node
  carries its contents.
\<close>

record data_transmit =
  d_data :: bytes
  d_len :: nat
  d_offset :: nat
  d_next_data :: "addr option"

type_synonym sockaddr_in = "u32 \<times> u16"

record client =
  c_fd :: int
  c_generation :: u64
  c_alive :: bool
  c_rate :: rate_limit
  c_stage :: read_stage
  c_data_receive :: bytes
  c_rx_len :: nat
  c_tail :: "addr option"
  c_head :: "addr option"
  c_bytes_need_to_send :: u64
  c_addr :: sockaddr_in
  c_last_active_ms :: u64
  c_ssl :: "nat option"
  c_tls_handshake_done :: bool
  c_tls_read_pending :: bool

definition MAX_CLIENTS :: nat where "MAX_CLIENTS = 128"
definition RX_BUF_CAP :: nat where "RX_BUF_CAP = 8192"
definition REQUEST_TIMEOUT_MS :: u64 where "REQUEST_TIMEOUT_MS = 5000"

text \<open>The epoll instance: the events each registered descriptor is watched for.\<close>

datatype epoll_events = EPOLLIN | EPOLLIN_OUT

type_synonym epoll = "int \<rightharpoonup> epoll_events"

text \<open>\<open>epoll_ctl\<close> may refuse to add a descriptor (\<open>ok\<close>) and fails on one not registered.\<close>

definition epoll_add :: "bool \<Rightarrow> epoll \<Rightarrow> epoll_events \<Rightarrow> int \<Rightarrow> int \<times> epoll" where
  "epoll_add ok ep event fd = (if ok \<and> ep fd = None then (0, ep(fd \<mapsto> event)) else (-1, ep))"

definition epoll_mod :: "epoll \<Rightarrow> epoll_events \<Rightarrow> int \<Rightarrow> int \<times> epoll" where
  "epoll_mod ep event fd = (if ep fd \<noteq> None then (0, ep(fd \<mapsto> event)) else (-1, ep))"

definition epoll_del :: "epoll \<Rightarrow> int \<Rightarrow> int \<times> epoll" where
  "epoll_del ep fd = (if ep fd \<noteq> None then (0, ep(fd := None)) else (-1, ep))"

definition client_reset :: "client \<Rightarrow> client" where
  "client_reset c = c \<lparr> c_fd := -1, c_generation := 0, c_tail := None, c_head := None, c_alive := False,
     c_bytes_need_to_send := 0, c_rx_len := 0, c_stage := READ_HEADER, c_ssl := None,
     c_tls_handshake_done := False, c_tls_read_pending := False \<rparr>"

definition clients_init :: "client list \<Rightarrow> int \<Rightarrow> (int \<times> client list) option" where
  "clients_init client max_clients =
     (if max_clients < 1 then Some (-1, client)
      else if nat max_clients > length client then None
      else Some (0, map client_reset (take (nat max_clients) client) @ drop (nat max_clients) client))"

text \<open>
  What \<open>client_alloc\<close> stores in the slot it has found. The two clock readings are
  \<open>last_active_ms\<close> and the one in \<open>rate_limit_init\<close>.
\<close>

definition client_open :: "client \<Rightarrow> int \<Rightarrow> sockaddr_in \<Rightarrow> u64 \<Rightarrow> u64 \<Rightarrow> client" where
  "client_open c fd addr now now' = c \<lparr>
     c_fd := fd, c_addr := addr, c_last_active_ms := now, c_generation := c_generation c + 1,
     c_rx_len := 0, c_stage := READ_HEADER, c_tail := None, c_head := None,
     c_bytes_need_to_send := 0, c_ssl := None, c_tls_handshake_done := False,
     c_tls_read_pending := False,
     c_rate := rate_limit_init RATE_LIMIT_CAP RATE_LIMIT_REFILL_SEC now', c_alive := True \<rparr>"

definition client_alloc ::
  "client list \<Rightarrow> int \<Rightarrow> int \<Rightarrow> sockaddr_in \<Rightarrow> u64 \<Rightarrow> u64 \<Rightarrow> (int \<times> client list) option" where
  "client_alloc client max_clients fd addr now now' =
     (if max_clients < 1 \<or> fd < 0 then Some (-1, client)
      else do {
        slot \<leftarrow> scan (\<lambda>c. c_fd c = -1) client 0 (nat max_clients);
        if slot = -1 then Some (-1, client)
        else Some (slot, client [nat slot := client_open (client ! nat slot) fd addr now now'])
      })"

definition fd_to_slot :: "client list \<Rightarrow> int \<Rightarrow> int \<Rightarrow> int option" where
  "fd_to_slot clients client_fd max_client =
     (if client_fd < 0 then Some (-1)
      else scan (\<lambda>c. c_alive c \<and> c_fd c = client_fd) clients 0 (nat max_client))"

text \<open>\<open>blk\<close> is the answer of \<open>malloc(sizeof(struct data_transmit))\<close>.\<close>

definition enqueue_message ::
  "data_transmit heap \<Rightarrow> client \<Rightarrow> bytes option \<Rightarrow> nat \<Rightarrow> addr option \<Rightarrow>
   (int \<times> data_transmit heap \<times> client) option" where
  "enqueue_message h client data len blk =
     (case data of
        None \<Rightarrow> Some (-1, h, client)
      | Some bs \<Rightarrow>
          (case blk of
             None \<Rightarrow> Some (-1, h, client)
           | Some a \<Rightarrow> do {
               let h = h(a \<mapsto> \<lparr> d_data = bs, d_len = len, d_offset = 0, d_next_data = None \<rparr>);
               (h, client) \<leftarrow>
                 (case c_tail client of
                    None \<Rightarrow> Some (h, client \<lparr> c_head := blk \<rparr>)
                  | Some z \<Rightarrow> do { n \<leftarrow> h z; Some (h(z \<mapsto> n \<lparr> d_next_data := blk \<rparr>), client) });
               let client = client \<lparr> c_tail := blk \<rparr>;
               Some (0, h, client \<lparr> c_bytes_need_to_send := c_bytes_need_to_send client + word_of_nat len \<rparr>)
             }))"

definition dequeue_message ::
  "data_transmit heap \<Rightarrow> client \<Rightarrow> (addr option \<times> data_transmit heap \<times> client) option" where
  "dequeue_message h client =
     (case c_head client of
        None \<Rightarrow> Some (None, h, client)
      | Some a \<Rightarrow> do {
          n \<leftarrow> h a;
          let client = client \<lparr> c_head := d_next_data n \<rparr>;
          let client = (if c_head client = None then client \<lparr> c_tail := None \<rparr> else client);
          Some (Some a, h(a \<mapsto> n \<lparr> d_next_data := None \<rparr>), client)
        })"

text \<open>\<open>send_data_to_client\<close>: what its loop does on an error of \<open>send\<close>.\<close>

fun send_on_err :: "errno \<Rightarrow> nat \<Rightarrow> int option" where
  "send_on_err EINTR sent = None"
| "send_on_err EAGAIN sent = Some (if sent > 0 then int sent else -2)"
| "send_on_err EOTHER sent = Some (-1)"

definition send_data_to_client ::
  "nat \<Rightarrow> (errno, 'w) sender \<Rightarrow> 'w \<Rightarrow> int \<Rightarrow> bytes \<Rightarrow> nat \<Rightarrow> (int \<times> 'w) option" where
  "send_data_to_client k tx w client_fd data len =
     (if client_fd < 0 then Some (-1, w) else send_all k tx send_on_err w data len 0)"

text \<open>
  The loop of \<open>flush_message_from_queue\<close> over the dequeued nodes. \<open>now\<close> is the last clock
  reading of the call; fuel \<open>f\<close> bounds the number of messages, \<open>k\<close> the calls of \<open>send\<close> per
  message.
\<close>

fun flush_loop ::
  "nat \<Rightarrow> nat \<Rightarrow> (errno, 'w) sender \<Rightarrow> u64 \<Rightarrow> 'w \<Rightarrow> data_transmit heap \<Rightarrow> client \<Rightarrow> addr option \<Rightarrow>
   (int \<times> 'w \<times> data_transmit heap \<times> client) option" where
  "flush_loop 0 k tx now w h client send_data = None"
| "flush_loop (Suc f) k tx now w h client send_data =
     (case send_data of
        None \<Rightarrow> Some (0, w, h, client \<lparr> c_last_active_ms := now \<rparr>)
      | Some a \<Rightarrow> do {
          n \<leftarrow> h a;
          (ret, w) \<leftarrow> send_data_to_client k tx w (c_fd client) (d_data n) (d_len n);
          if ret < 0 then Some (-1, w, h(a := None), client)
          else if ret = 1 then Some (2, w, h(a := None), client \<lparr> c_alive := False \<rparr>)
          else if ret = -2 then
            (let h = h(a \<mapsto> n \<lparr> d_next_data := c_head client \<rparr>);
                 client = client \<lparr> c_head := send_data \<rparr>;
                 client = (if c_tail client = None then client \<lparr> c_tail := send_data \<rparr> else client)
             in Some (1, w, h, client))
          else do {
            let client = client \<lparr> c_last_active_ms := now,
              c_bytes_need_to_send := c_bytes_need_to_send client - word_of_nat (d_len n) \<rparr>;
            let h = h(a := None);
            (send_data, h, client) \<leftarrow> dequeue_message h client;
            flush_loop f k tx now w h client send_data
          }
        })"

definition flush_message_from_queue ::
  "nat \<Rightarrow> nat \<Rightarrow> (errno, 'w) sender \<Rightarrow> u64 \<Rightarrow> 'w \<Rightarrow> data_transmit heap \<Rightarrow> client \<Rightarrow>
   (int \<times> 'w \<times> data_transmit heap \<times> client) option" where
  "flush_message_from_queue f k tx now w h client =
     (if c_head client = None then Some (1, w, h, client)
      else do {
        (send_data, h, client) \<leftarrow> dequeue_message h client;
        flush_loop f k tx now w h client send_data
      })"

definition check_response_message :: "response \<Rightarrow> client \<Rightarrow> bool" where
  "check_response_message response client =
     (if c_generation client \<noteq> r_generation response then False else True)"

text \<open>
  \<open>blk\<close> is the answer of \<open>malloc(total_len)\<close>; the sum is 32-bit arithmetic
  (\<open>HEADER_SIZE + response->length\<close> is \<open>uint32_t\<close>).
\<close>

definition packet_response_message :: "response \<Rightarrow> bytes option \<Rightarrow> bytes option option" where
  "packet_response_message response blk =
     (let total_len = (ucast (word_of_nat HEADER_SIZE + r_length response + word_of_nat CRC_SIZE) :: u64)
      in case blk of
        None \<Rightarrow> Some None
      | Some buffer \<Rightarrow> do {
          (ret, b) \<leftarrow> packet_encode buffer total_len (r_type response) (r_request_id response)
                       (r_payload response) (r_length response);
          if ret < 0 then Some None else Some (Some b)
        })"

text \<open>The freeing loop of \<open>close_client\<close>.\<close>

partial_function (option) free_transmits ::
  "data_transmit heap \<Rightarrow> addr option \<Rightarrow> data_transmit heap option" where
  "free_transmits h data =
     (case data of None \<Rightarrow> Some h
      | Some a \<Rightarrow> do { n \<leftarrow> h a; free_transmits (h(a := None)) (d_next_data n) })"

text \<open>Closing a descriptor removes it from the epoll instance.\<close>

definition close_client ::
  "data_transmit heap \<Rightarrow> epoll \<Rightarrow> client list \<Rightarrow> int \<Rightarrow>
   (int \<times> data_transmit heap \<times> epoll \<times> client list) option" where
  "close_client h ep clients slot =
     (if slot < 0 then Some (-1, h, ep, clients)
      else if nat slot \<ge> length clients then None
      else do {
        let client = clients ! nat slot;
        let (ep, client) = (if c_fd client \<ge> 0 then (ep(c_fd client := None), client \<lparr> c_fd := -1 \<rparr>)
                            else (ep, client));
        let client = client \<lparr> c_ssl := None, c_alive := False \<rparr>;
        h \<leftarrow> free_transmits h (c_head client);
        Some (0, h, ep, clients [nat slot := client \<lparr> c_head := None, c_tail := None,
          c_bytes_need_to_send := 0, c_rx_len := 0 \<rparr>])
      })"

text \<open>
  \<open>blk\<close> is the uninitialised \<open>struct task\<close> that \<open>malloc\<close> returned, at its address. The
  fields the function does not set (\<open>task_id\<close>, the payload of an empty request) keep their
  indeterminate contents.
\<close>

definition build_task ::
  "task heap \<Rightarrow> client \<Rightarrow> header_packet \<Rightarrow> int \<Rightarrow> u64 \<Rightarrow> (addr \<times> task) option \<Rightarrow>
   (addr option \<times> task heap) option" where
  "build_task h client header slot now blk =
     (if slot < 0 then Some (None, h)
      else case blk of
        None \<Rightarrow> Some (None, h)
      | Some (a, t) \<Rightarrow> do {
          let t = t \<lparr> t_slot := slot, t_generation := c_generation client, t_type := h_type header,
            t_request_id := h_request_id header, t_timeout_ms := now + REQUEST_TIMEOUT_MS,
            t_length := unat (h_length header), t_next_task := None \<rparr>;
          t \<leftarrow> (if h_length header > 0 \<and> h_length header \<le> word_of_nat MAX_PAYLOAD then do {
                  bs \<leftarrow> peek HEADER_SIZE (unat (h_length header)) (c_data_receive client);
                  p \<leftarrow> poke 0 bs (t_payload t);
                  Some (t \<lparr> t_payload := p \<rparr>)
                } else Some t);
          Some (Some a, h(a \<mapsto> t))
        })"

text \<open>\<open>SSL_get_error\<close> after a failed \<open>SSL_write\<close>, and what the TLS loop does with it.\<close>

datatype ssl_error = SSL_ERROR_WANT_WRITE | SSL_ERROR_WANT_READ | SSL_ERROR_ZERO_RETURN | SSL_ERROR_OTHER

definition send_tls_on_err :: "ssl_error \<Rightarrow> nat \<Rightarrow> int option" where
  "send_tls_on_err err sent_total =
     (if sent_total > 0 then Some (int sent_total)
      else case err of
        SSL_ERROR_WANT_WRITE \<Rightarrow> Some (-2)
      | SSL_ERROR_WANT_READ \<Rightarrow> Some (-3)
      | SSL_ERROR_ZERO_RETURN \<Rightarrow> Some 0
      | SSL_ERROR_OTHER \<Rightarrow> Some (-1))"

definition send_data_to_client_tls ::
  "nat \<Rightarrow> (ssl_error, 'w) sender \<Rightarrow> 'w \<Rightarrow> bytes \<Rightarrow> nat \<Rightarrow> (int \<times> 'w) option" where
  "send_data_to_client_tls k tx w data len = send_all k tx send_tls_on_err w data len 0"

fun flush_tls_loop ::
  "nat \<Rightarrow> nat \<Rightarrow> (ssl_error, 'w) sender \<Rightarrow> u64 \<Rightarrow> 'w \<Rightarrow> epoll \<Rightarrow> data_transmit heap \<Rightarrow> client \<Rightarrow> addr option \<Rightarrow>
   (int \<times> 'w \<times> epoll \<times> data_transmit heap \<times> client) option" where
  "flush_tls_loop 0 k tx now w ep h client send_data = None"
| "flush_tls_loop (Suc f) k tx now w ep h client send_data =
     (case send_data of
        None \<Rightarrow> Some (0, w, snd (epoll_mod ep EPOLLIN (c_fd client)), h, client \<lparr> c_last_active_ms := now \<rparr>)
      | Some a \<Rightarrow> do {
          n \<leftarrow> h a;
          let remain = unat (word_of_nat (d_len n) - word_of_nat (d_offset n) :: u64);
          (ret, w) \<leftarrow> send_data_to_client_tls k tx w (drop (d_offset n) (d_data n)) remain;
          if ret = -1 \<or> ret = 0 then Some (if ret = 0 then 2 else -1, w, ep, h(a := None), client)
          else if ret = -2 \<or> ret = -3 then
            Some (1, w, snd (epoll_mod ep (if ret = -2 then EPOLLIN_OUT else EPOLLIN) (c_fd client)), h, client)
          else if ret > 0 then do {
            let n = n \<lparr> d_offset := d_offset n + nat ret \<rparr>;
            let h = h(a \<mapsto> n);
            let client = client \<lparr> c_bytes_need_to_send := c_bytes_need_to_send client - word_of_int ret,
                                  c_last_active_ms := now \<rparr>;
            if d_offset n < d_len n
            then Some (1, w, snd (epoll_mod ep EPOLLIN_OUT (c_fd client)), h, client)
            else do {
              let client = client \<lparr> c_head := d_next_data n \<rparr>;
              let client = (if c_head client = None then client \<lparr> c_tail := None \<rparr> else client);
              let h = h(a := None);
              flush_tls_loop f k tx now w ep h client (c_head client)
            }
          }
          else flush_tls_loop f k tx now w ep h client send_data
        })"

definition client_flush_tx_tls ::
  "nat \<Rightarrow> nat \<Rightarrow> (ssl_error, 'w) sender \<Rightarrow> u64 \<Rightarrow> 'w \<Rightarrow> epoll \<Rightarrow> data_transmit heap \<Rightarrow> client \<Rightarrow>
   (int \<times> 'w \<times> epoll \<times> data_transmit heap \<times> client) option" where
  "client_flush_tx_tls f k tx now w ep h client =
     (if c_head client = None then Some (0, w, ep, h, client)
      else do {
        (send_data, h, client) \<leftarrow> dequeue_message h client;
        flush_tls_loop f k tx now w ep h client send_data
      })"

section \<open>The slot table\<close>

lemma client_alloc_full:
  assumes "nat m \<le> length cs" and "1 \<le> m" and "\<forall>i < nat m. c_fd (cs ! i) \<noteq> -1"
  shows "client_alloc cs m fd addr now now' = Some (-1, cs)"
proof -
  have "scan (\<lambda>c. c_fd c = -1) cs 0 (nat m) = Some (-1)"
    using scan_cases [of "nat m" cs 0 "\<lambda>c. c_fd c = -1"] scan_found [of "\<lambda>c. c_fd c = -1" cs 0 "nat m"] assms
    by blast
  then show ?thesis by (simp add: client_alloc_def)
qed

lemma client_alloc_free:
  assumes m: "nat m \<le> length cs" "1 \<le> m" and fd: "0 \<le> fd" and "j < nat m" "c_fd (cs ! j) = -1"
  shows "\<exists>i. client_alloc cs m fd addr now now' = Some (int i, cs [i := client_open (cs ! i) fd addr now now']) \<and>
    i < nat m \<and> c_fd (cs ! i) = -1 \<and> (\<forall>j < i. c_fd (cs ! j) \<noteq> -1)"
proof -
  have "\<not> (\<forall>j. 0 \<le> j \<longrightarrow> j < nat m \<longrightarrow> c_fd (cs ! j) \<noteq> -1)" using assms by blast
  then obtain i where i: "scan (\<lambda>c. c_fd c = -1) cs 0 (nat m) = Some (int i)"
    using scan_cases [OF m(1), of 0 "\<lambda>c. c_fd c = -1"] by auto
  with scan_found [OF i] m fd show ?thesis
    by (intro exI [of _ i]) (simp add: client_alloc_def)
qed

lemma fd_to_slot_cases:
  assumes "nat m \<le> length cs" and "0 \<le> fd"
  shows "(\<exists>i. fd_to_slot cs fd m = Some (int i) \<and> i < nat m \<and> c_alive (cs ! i) \<and> c_fd (cs ! i) = fd) \<or>
    fd_to_slot cs fd m = Some (-1) \<and> (\<forall>i < nat m. c_alive (cs ! i) \<longrightarrow> c_fd (cs ! i) \<noteq> fd)"
  using assms scan_cases [of "nat m" cs 0 "\<lambda>c. c_alive c \<and> c_fd c = fd"]
    scan_found [of "\<lambda>c. c_alive c \<and> c_fd c = fd" cs 0 "nat m"]
  unfolding fd_to_slot_def by (auto simp: not_less)

section \<open>The transmit queue\<close>

interpretation txq: linked_nodes d_next_data "\<lambda>p n. n \<lparr> d_next_data := p \<rparr>"
  "\<lambda>n. n \<lparr> d_next_data := None \<rparr>"
  by unfold_locales simp_all

definition tx_queue :: "data_transmit heap \<Rightarrow> client \<Rightarrow> addr list \<Rightarrow> bool" where
  "tx_queue h c as = linked_fifo d_next_data h (c_head c) (c_tail c) as"

lemma tx_queue_dom: "tx_queue h c as \<Longrightarrow> a \<in> set as \<Longrightarrow> h a \<noteq> None"
  using chain_dom unfolding tx_queue_def linked_fifo_def by fastforce

lemma tx_queue_frame: "a \<notin> set as \<Longrightarrow> tx_queue (h(a := v)) c as = tx_queue h c as"
  by (simp add: tx_queue_def linked_fifo_def chain_frame)

lemma tx_queue_cong: "c_head c' = c_head c \<Longrightarrow> c_tail c' = c_tail c \<Longrightarrow> tx_queue h c' as = tx_queue h c as"
  by (simp add: tx_queue_def)

lemma enqueue_message_appends:
  assumes q: "tx_queue h c as" and a: "h a = None"
  shows "\<exists>h' c'. enqueue_message h c (Some bs) len (Some a) = Some (0, h', c') \<and> tx_queue h' c' (as @ [a]) \<and>
    h' a = Some \<lparr> d_data = bs, d_len = len, d_offset = 0, d_next_data = None \<rparr> \<and>
    (\<forall>b. b \<noteq> a \<longrightarrow> map_option (\<lambda>n. n \<lparr> d_next_data := None \<rparr>) (h' b) = map_option (\<lambda>n. n \<lparr> d_next_data := None \<rparr>) (h b)) \<and>
    (\<forall>b. b \<noteq> a \<longrightarrow> b \<notin> set as \<longrightarrow> h' b = h b) \<and>
    c' = c \<lparr> c_head := c_head c', c_tail := Some a,
             c_bytes_need_to_send := c_bytes_need_to_send c + word_of_nat len \<rparr>"
proof -
  let ?n = "\<lparr> d_data = bs, d_len = len, d_offset = 0, d_next_data = None \<rparr>"
  have na: "a \<notin> set as" using tx_queue_dom [OF q] a by blast
  show ?thesis
  proof (cases "c_tail c")
    case None
    then have "as = []" using q by (auto simp: tx_queue_def linked_fifo_def split: if_splits)
    then show ?thesis using None txq.fifo_singleton [of "h(a \<mapsto> ?n)" a ?n]
      by (simp add: enqueue_message_def tx_queue_def)
  next
    case (Some z)
    have q': "linked_fifo d_next_data (h(a \<mapsto> ?n)) (c_head c) (Some z) as"
      using q na Some by (simp add: tx_queue_def linked_fifo_def chain_frame)
    from txq.fifo_append [OF q', of a ?n] na obtain nz where z: "(h(a \<mapsto> ?n)) z = Some nz"
      and l: "linked_fifo d_next_data (h(a \<mapsto> ?n, z \<mapsto> nz \<lparr> d_next_data := Some a \<rparr>, a \<mapsto> ?n)) (c_head c) (Some a) (as @ [a])"
      by auto
    have "z \<in> set as" using q' by (auto simp: linked_fifo_def split: if_splits)
    with na have za: "z \<noteq> a" by blast
    then have "h(a \<mapsto> ?n, z \<mapsto> nz \<lparr> d_next_data := Some a \<rparr>, a \<mapsto> ?n) = h(a \<mapsto> ?n, z \<mapsto> nz \<lparr> d_next_data := Some a \<rparr>)"
      by (auto simp: fun_eq_iff)
    with l z za Some \<open>z \<in> set as\<close> show ?thesis
      by (auto simp: enqueue_message_def tx_queue_def)
  qed
qed

lemma dequeue_message_empty: "c_head c = None \<Longrightarrow> dequeue_message h c = Some (None, h, c)"
  by (simp add: dequeue_message_def)

lemma dequeue_message_first:
  assumes "tx_queue h c (a # as)"
  shows "\<exists>n c'. h a = Some n \<and> dequeue_message h c = Some (Some a, h(a \<mapsto> n \<lparr> d_next_data := None \<rparr>), c') \<and>
    tx_queue (h(a \<mapsto> n \<lparr> d_next_data := None \<rparr>)) c' as \<and> a \<notin> set as \<and>
    c' = c \<lparr> c_head := c_head c', c_tail := c_tail c' \<rparr>"
proof -
  from assms have "linked_fifo d_next_data h (c_head c) (c_tail c) (a # as)" by (simp add: tx_queue_def)
  from txq.fifo_unlink [OF this] this show ?thesis
    by (auto simp: dequeue_message_def tx_queue_def linked_fifo_def Let_def split: if_splits)
qed

lemma free_transmits_chain:
  "chain d_next_data h p as \<Longrightarrow> free_transmits h p = Some (\<lambda>b. if b \<in> set as then None else h b)"
proof (induction as arbitrary: h p)
  case Nil
  then show ?case by (subst free_transmits.simps) simp
next
  case (Cons a as)
  then obtain n where n: "p = Some a" "h a = Some n" "chain d_next_data h (d_next_data n) as"
    by (auto split: option.splits)
  moreover have "a \<notin> set as" using chain_distinct [OF Cons.prems] by simp
  ultimately have "chain d_next_data (h(a := None)) (d_next_data n) as"
    by (simp only: chain_frame not_False_eq_True)
  from Cons.IH [OF this] have "free_transmits (h(a := None)) (d_next_data n) =
      Some (\<lambda>b. if b \<in> set as then None else (h(a := None)) b)" .
  moreover have "(\<lambda>b. if b \<in> set as then None else (h(a := None)) b) =
      (\<lambda>b. if b \<in> set (a # as) then None else h b)" by auto
  ultimately show ?case using n by (subst free_transmits.simps) simp
qed

lemma close_client_frees:
  assumes "i < length cs" and "tx_queue h (cs ! i) as"
  shows "close_client h ep cs (int i) = Some (0, \<lambda>b. if b \<in> set as then None else h b,
    (if c_fd (cs ! i) \<ge> 0 then ep(c_fd (cs ! i) := None) else ep),
    cs [i := (cs ! i) \<lparr> c_fd := (if c_fd (cs ! i) \<ge> 0 then -1 else c_fd (cs ! i)), c_ssl := None, c_alive := False,
       c_head := None, c_tail := None, c_bytes_need_to_send := 0, c_rx_len := 0 \<rparr>])"
proof -
  have "free_transmits h (c_head (cs ! i)) = Some (\<lambda>b. if b \<in> set as then None else h b)"
    using assms(2) by (intro free_transmits_chain) (simp add: tx_queue_def linked_fifo_def)
  with assms(1) show ?thesis by (simp add: close_client_def Let_def)
qed

section \<open>Flushing the transmit queue\<close>

text \<open>One message offered to a sink that takes \<open>m\<close> bytes and then would block.\<close>

lemma send_tls_room:
  assumes "2 \<le> k" and "0 < m" and "0 < len" and "len \<le> length data"
  shows "send_data_to_client_tls k (sock_send SSL_ERROR_WANT_WRITE) \<lparr> tx_plan = [Room m], tx_wire = out \<rparr> data len =
    Some (int (min m len), \<lparr> tx_plan = [], tx_wire = out @ take (min m len) data \<rparr>)"
proof -
  obtain j where "k = Suc (Suc j)" using assms(1) by (metis add_2_eq_Suc le_Suc_ex)
  with assms show ?thesis
    by (auto simp: send_data_to_client_tls_def peek_def send_tls_on_err_def min_def)
qed

lemma send_room:
  assumes "2 \<le> k" and "0 < m" and "0 < len" and "len \<le> length data" and "0 \<le> fd"
  shows "send_data_to_client k (sock_send EAGAIN) \<lparr> tx_plan = [Room m], tx_wire = out \<rparr> fd data len =
    Some (int (min m len), \<lparr> tx_plan = [], tx_wire = out @ take (min m len) data \<rparr>)"
proof -
  obtain j where "k = Suc (Suc j)" using assms(1) by (metis add_2_eq_Suc le_Suc_ex)
  with assms show ?thesis
    by (auto simp: send_data_to_client_def peek_def min_def)
qed

definition message_node :: "data_transmit \<Rightarrow> bool" where
  "message_node n = (d_offset n = 0 \<and> d_len n = length (d_data n) \<and> 0 < d_len n \<and> d_len n < 2 ^ 64)"

lemma message_remain:
  "message_node n \<Longrightarrow> unat (word_of_nat (d_len n) - word_of_nat (d_offset n) :: u64) = d_len n"
  by (simp add: message_node_def unat_of_nat)

text \<open>
  Whatever the TLS library answers, a flush is defined, leaves a well-formed queue of messages
  that were queued before, and touches no node of another queue.
\<close>

lemma send_tls_defined:
  assumes "byte_sender tx again wire work" and "work w < k" and "message_node n"
  shows "\<exists>r w'. send_data_to_client_tls k tx w (d_data n) (d_len n) = Some (r, w') \<and> -3 \<le> r"
proof -
  have "send_tls_on_err e m \<noteq> None" for e m
    by (simp add: send_tls_on_err_def split: ssl_error.splits)
  moreover have "d_len n \<le> length (d_data n)" using assms(3) by (simp add: message_node_def)
  ultimately obtain r w' m where r: "send_all k tx send_tls_on_err w (d_data n) (d_len n) 0 = Some (r, w')"
    "m = d_len n \<and> r = int (d_len n) \<or> (\<exists>e. send_tls_on_err e m = Some r) \<or> m < d_len n \<and> r = 1"
    using byte_sender.send_all_returns [OF assms(1,2), of "d_len n" "d_data n" 0 send_tls_on_err] by blast
  then have "-3 \<le> r" by (auto simp: send_tls_on_err_def split: if_splits ssl_error.splits)
  with r(1) show ?thesis by (simp add: send_data_to_client_tls_def)
qed

lemma flush_tls_loop_step:
  assumes tx: "byte_sender tx again wire work" "work w < k"
    and n: "h a = Some n" "message_node n" "d_next_data n = None"
    and q: "tx_queue h c as" "a \<notin> set as"
  shows "\<exists>r w' ep' h' c' as'. flush_tls_loop (Suc (Suc f)) k tx now w ep h c (Some a) = Some (r, w', ep', h', c') \<and>
    tx_queue h' c' as' \<and> set as' \<subseteq> set as \<and> (\<forall>b. b \<noteq> a \<longrightarrow> h' b = h b) \<and>
    c' = c \<lparr> c_head := c_head c', c_tail := c_tail c', c_bytes_need_to_send := c_bytes_need_to_send c',
             c_last_active_ms := c_last_active_ms c' \<rparr>"
proof -
  from send_tls_defined [OF tx n(2)] obtain r w' where
    s: "send_data_to_client_tls k tx w (d_data n) (d_len n) = Some (r, w')" "-3 \<le> r" by blast
  have off: "d_offset n = 0" using n(2) by (simp add: message_node_def)
  have keep: "tx_queue (h(a := v)) c' as" if "c_head c' = c_head c" "c_tail c' = c_tail c" for v c'
    using q tx_queue_frame tx_queue_cong [OF that] by simp
  have empty: "tx_queue h' (c' \<lparr> c_head := None, c_tail := None, c_last_active_ms := t \<rparr>) []" for h' c' t
    by (simp add: tx_queue_def linked_fifo_def)
  consider "r = -1 \<or> r = 0" | "r = -2 \<or> r = -3" | "0 < r" "nat r < d_len n" | "0 < r" "\<not> nat r < d_len n"
    using s(2) by linarith
  then show ?thesis
  proof cases
    case 1
    then show ?thesis using s(1) n off message_remain [OF n(2)] keep [of c None] by (auto intro!: exI [of _ as])
  next
    case 2
    then show ?thesis using s(1) n off message_remain [OF n(2)] q(1) by (auto intro!: exI [of _ as])
  next
    case 3
    then show ?thesis using s(1) n off message_remain [OF n(2)]
        keep [of "c \<lparr> c_bytes_need_to_send := c_bytes_need_to_send c - word_of_int r, c_last_active_ms := now \<rparr>"]
      by (auto simp: Let_def intro!: exI [of _ as])
  next
    case 4
    then show ?thesis using s(1) n off message_remain [OF n(2)]
      by (auto simp: Let_def tx_queue_def linked_fifo_def intro!: exI [of _ "[]"])
  qed
qed

lemma client_flush_tx_tls_defined:
  assumes tx: "byte_sender tx again wire work" "work w < k" and f: "2 \<le> f"
    and q: "tx_queue h c as" and n: "\<forall>a \<in> set as. \<exists>n. h a = Some n \<and> message_node n"
  shows "\<exists>r w' ep' h' c' as'. client_flush_tx_tls f k tx now w ep h c = Some (r, w', ep', h', c') \<and>
    tx_queue h' c' as' \<and> set as' \<subseteq> set as \<and> (\<forall>b \<in> set as'. h' b = h b) \<and> (\<forall>b. b \<notin> set as \<longrightarrow> h' b = h b) \<and>
    c' = c \<lparr> c_head := c_head c', c_tail := c_tail c', c_bytes_need_to_send := c_bytes_need_to_send c',
             c_last_active_ms := c_last_active_ms c' \<rparr>"
proof (cases as)
  case Nil
  then have "c_head c = None" using q by (simp add: tx_queue_def linked_fifo_def)
  with Nil q show ?thesis by (auto simp: client_flush_tx_tls_def)
next
  case (Cons a bs)
  obtain g where g: "f = Suc (Suc g)" using f by (metis add_2_eq_Suc le_Suc_ex)
  from dequeue_message_first [OF q [unfolded Cons]] obtain m c1 where
    m: "h a = Some m" and d: "dequeue_message h c = Some (Some a, h(a \<mapsto> m \<lparr> d_next_data := None \<rparr>), c1)"
    and q1: "tx_queue (h(a \<mapsto> m \<lparr> d_next_data := None \<rparr>)) c1 bs" "a \<notin> set bs"
    and c1: "c1 = c \<lparr> c_head := c_head c1, c_tail := c_tail c1 \<rparr>" by blast
  have mn: "message_node (m \<lparr> d_next_data := None \<rparr>)" using n Cons m by (auto simp: message_node_def)
  obtain r w' ep' h' c' as' where
    l: "flush_tls_loop (Suc (Suc g)) k tx now w ep (h(a \<mapsto> m \<lparr> d_next_data := None \<rparr>)) c1 (Some a) = Some (r, w', ep', h', c')"
      "tx_queue h' c' as'" "set as' \<subseteq> set bs" "\<forall>b. b \<noteq> a \<longrightarrow> h' b = (h(a \<mapsto> m \<lparr> d_next_data := None \<rparr>)) b"
      "c' = c1 \<lparr> c_head := c_head c', c_tail := c_tail c', c_bytes_need_to_send := c_bytes_need_to_send c',
             c_last_active_ms := c_last_active_ms c' \<rparr>"
    using flush_tls_loop_step [OF tx _ mn _ q1, of g now ep] by auto
  have "c_head c = Some a" using q Cons by (simp add: tx_queue_def linked_fifo_def)
  then have "client_flush_tx_tls f k tx now w ep h c = Some (r, w', ep', h', c')"
    using d l(1) g by (simp add: client_flush_tx_tls_def)
  moreover have "c' = c \<lparr> c_head := c_head c', c_tail := c_tail c', c_bytes_need_to_send := c_bytes_need_to_send c',
             c_last_active_ms := c_last_active_ms c' \<rparr>" by (subst l(5), subst c1) simp
  moreover have "\<forall>b \<in> set as'. h' b = h b" "\<forall>b. b \<notin> set as \<longrightarrow> h' b = h b" "set as' \<subseteq> set as"
    using l(3,4) q1(2) Cons by auto
  ultimately show ?thesis using l(2) by blast
qed

section \<open>Packing responses and building tasks\<close>

lemma packet_response_frame:
  assumes "unat (r_length r) \<le> MAX_PAYLOAD" and "length blk = 20 + unat (r_length r)"
    and "length (r_payload r) = MAX_PAYLOAD"
  shows "packet_response_message r (Some blk) =
    Some (Some (wire_frame (r_type r) (r_request_id r) (take (unat (r_length r)) (r_payload r))))"
proof -
  let ?t = "ucast (word_of_nat HEADER_SIZE + r_length r + word_of_nat CRC_SIZE) :: u64"
  have "r_length r \<le> word_of_nat MAX_PAYLOAD" using assms(1) by (simp add: word_le_nat_alt protocol_consts)
  from unat_total_len [OF this] have "unat ?t = unat (r_length r) + 20" by (simp add: add.commute)
  with packet_encode_total [of ?t blk "r_length r" "r_payload r"] assms show ?thesis
    by (simp add: packet_response_message_def Let_def)
qed

lemma build_task_payload:
  assumes "0 \<le> slot" and "unat (h_length hdr) \<le> MAX_PAYLOAD" and "length (c_data_receive c) = RX_BUF_CAP"
    and "length (t_payload t) = MAX_PAYLOAD"
  shows "\<exists>t'. build_task h c hdr slot now (Some (a, t)) = Some (Some a, h(a \<mapsto> t')) \<and>
    t_slot t' = slot \<and> t_generation t' = c_generation c \<and> t_type t' = h_type hdr \<and>
    t_request_id t' = h_request_id hdr \<and> t_length t' = unat (h_length hdr) \<and>
    t_timeout_ms t' = now + REQUEST_TIMEOUT_MS \<and> t_next_task t' = None \<and>
    length (t_payload t') = MAX_PAYLOAD \<and>
    take (t_length t') (t_payload t') = take (unat (h_length hdr)) (drop HEADER_SIZE (c_data_receive c))"
proof -
  have le: "h_length hdr \<le> word_of_nat MAX_PAYLOAD" using assms(2) by (simp add: word_le_nat_alt protocol_consts)
  have "16 + unat (h_length hdr) \<le> 8192" using assms(2) by (simp add: protocol_consts)
  with assms le show ?thesis
    by (cases "h_length hdr = 0")
      (auto simp: build_task_def peek_def poke_def protocol_consts RX_BUF_CAP_def word_neq_0_conv)
qed

section \<open>Properties\<close>


definition sample_client :: client where
  "sample_client = \<lparr> c_fd = -1, c_generation = 0, c_alive = False,
     c_rate = rate_limit_init RATE_LIMIT_CAP RATE_LIMIT_REFILL_SEC 0, c_stage = READ_HEADER,
     c_data_receive = replicate RX_BUF_CAP 0, c_rx_len = 0, c_tail = None, c_head = None,
     c_bytes_need_to_send = 0, c_addr = (0, 0), c_last_active_ms = 0, c_ssl = None,
     c_tls_handshake_done = False, c_tls_read_pending = False \<rparr>"


text \<open>
  C28. The TLS flush drops the queue. \<open>client_flush_tx_tls\<close> first takes the head message off
  the list (which clears its link) and, once that message is out, follows the cleared link: with
  a connection that takes the first message whole, it sends exactly that message, reports
  complete success, stops watching for writability, and leaves head and tail NULL however many
  messages \<open>as\<close> are queued behind, which stay allocated but unreachable.
\<close>

theorem client_flush_tx_tls_drops_queue:
  assumes "2 \<le> f" and "2 \<le> k" and "tx_queue h c (a # as)" and "h a = Some n" and "message_node n"
    and "d_len n \<le> m"
  shows "\<exists>h' c' w'. client_flush_tx_tls f k (sock_send SSL_ERROR_WANT_WRITE) now
      \<lparr> tx_plan = [Room m], tx_wire = out \<rparr> ep h c =
      Some (0, w', snd (epoll_mod ep EPOLLIN (c_fd c)), h', c') \<and>
    tx_wire w' = out @ d_data n \<and> tx_queue h' c' [] \<and>
    h' = h(a := None) \<and> (\<forall>b \<in> set as. h' b \<noteq> None)"
proof -
  obtain g where g: "f = Suc (Suc g)" using assms(1) by (metis add_2_eq_Suc le_Suc_ex)
  from dequeue_message_first [OF assms(3)] assms(4) obtain c' where
    d: "dequeue_message h c = Some (Some a, h(a \<mapsto> n \<lparr> d_next_data := None \<rparr>), c')"
    and c': "c' = c \<lparr> c_head := c_head c', c_tail := c_tail c' \<rparr>" and a: "a \<notin> set as" by auto
  have "c_head c = Some a" using assms(3) by (simp add: tx_queue_def linked_fifo_def)
  moreover have "send_data_to_client_tls k (sock_send SSL_ERROR_WANT_WRITE) \<lparr> tx_plan = [Room m], tx_wire = out \<rparr>
      (d_data n) (d_len n) = Some (int (d_len n), \<lparr> tx_plan = [], tx_wire = out @ d_data n \<rparr>)"
    using assms send_tls_room [of k m "d_len n" "d_data n" out] by (auto simp: message_node_def min_def)
  moreover have "c_fd c' = c_fd c" by (subst c') simp
  moreover have "\<forall>b \<in> set as. h b \<noteq> None" using tx_queue_dom [OF assms(3)] by simp
  ultimately show ?thesis
    using d g a assms(5) message_remain [OF assms(5)]
    by (auto simp: client_flush_tx_tls_def message_node_def tx_queue_def linked_fifo_def Let_def)
qed

text \<open>A client with two three-byte messages queued.\<close>

definition sample_message :: "bytes \<Rightarrow> addr option \<Rightarrow> data_transmit" where
  "sample_message bs p = \<lparr> d_data = bs, d_len = length bs, d_offset = 0, d_next_data = p \<rparr>"

definition sample_tx_heap :: "data_transmit heap" where
  "sample_tx_heap = [50 \<mapsto> sample_message [1, 2, 3] (Some 60), 60 \<mapsto> sample_message [4, 5, 6] None]"

definition sample_tx_client :: client where
  "sample_tx_client = sample_client \<lparr> c_fd := 5, c_alive := True, c_head := Some 50, c_tail := Some 60,
     c_bytes_need_to_send := 6 \<rparr>"

lemma sample_tx_queue: "tx_queue sample_tx_heap sample_tx_client [50, 60]"
  by (simp add: tx_queue_def linked_fifo_def sample_tx_heap_def sample_tx_client_def sample_message_def)

lemma sample_tx_first:
  "sample_tx_heap 50 = Some (sample_message [1, 2, 3] (Some 60))" "message_node (sample_message [1, 2, 3] (Some 60))"
  by (simp_all add: sample_tx_heap_def message_node_def sample_message_def)

theorem client_flush_tx_tls_drops_queue_witness:
  "\<exists>h' c' w' ep'. client_flush_tx_tls 9 9 (sock_send SSL_ERROR_WANT_WRITE) 7
      \<lparr> tx_plan = [Room 100], tx_wire = [] \<rparr> [5 \<mapsto> EPOLLIN_OUT] sample_tx_heap sample_tx_client =
      Some (0, w', ep', h', c') \<and> tx_wire w' = [1, 2, 3] \<and> tx_queue h' c' [] \<and> h' 60 \<noteq> None"
  using client_flush_tx_tls_drops_queue [of 9 9 sample_tx_heap sample_tx_client 50 "[60]"
      "sample_message [1, 2, 3] (Some 60)" 100 7 "[]" "[5 \<mapsto> EPOLLIN_OUT]"] sample_tx_queue sample_tx_first
  by (auto simp: sample_message_def)

text \<open>
  The TLS flush loses the rest of a partly sent message. When the connection takes only
  \<open>m\<close> bytes of the first message, the call reports that more is to be sent (1) but the message has
  already left the list: the queue holds exactly the later messages, so the peer will see the
  first \<open>m\<close> bytes of one frame followed by the next frame.
\<close>

theorem client_flush_tx_tls_partial_lost:
  assumes "1 \<le> f" and "2 \<le> k" and "tx_queue h c (a # as)" and "h a = Some n" and "message_node n"
    and "0 < m" and "m < d_len n"
  shows "\<exists>h' c' w'. client_flush_tx_tls f k (sock_send SSL_ERROR_WANT_WRITE) now
      \<lparr> tx_plan = [Room m], tx_wire = out \<rparr> ep h c =
      Some (1, w', snd (epoll_mod ep EPOLLIN_OUT (c_fd c)), h', c') \<and>
    tx_wire w' = out @ take m (d_data n) \<and> tx_queue h' c' as"
proof -
  obtain g where g: "f = Suc g" using assms(1) by (cases f) auto
  let ?h = "h(a \<mapsto> n \<lparr> d_next_data := None \<rparr>)"
  from dequeue_message_first [OF assms(3)] assms(4) obtain c' where
    d: "dequeue_message h c = Some (Some a, ?h, c')" "tx_queue ?h c' as" "a \<notin> set as"
    and c': "c' = c \<lparr> c_head := c_head c', c_tail := c_tail c' \<rparr>" by auto
  have "c_head c = Some a" using assms(3) by (simp add: tx_queue_def linked_fifo_def)
  moreover have "send_data_to_client_tls k (sock_send SSL_ERROR_WANT_WRITE) \<lparr> tx_plan = [Room m], tx_wire = out \<rparr>
      (d_data n) (d_len n) = Some (int m, \<lparr> tx_plan = [], tx_wire = out @ take m (d_data n) \<rparr>)"
    using assms(2,5-7) by (subst send_tls_room) (auto simp: message_node_def min_def)
  moreover have "c_fd c' = c_fd c" by (subst c') simp
  moreover have "tx_queue (h(a \<mapsto> v)) (c' \<lparr> c_bytes_need_to_send := x, c_last_active_ms := now \<rparr>) as" for v x
    using d(2,3) by (simp add: tx_queue_def linked_fifo_def chain_frame)
  ultimately show ?thesis
    using d(1) g assms(5-7) message_remain [OF assms(5)]
    by (auto simp: client_flush_tx_tls_def message_node_def Let_def)
qed

theorem client_flush_tx_tls_partial_lost_witness:
  "\<exists>h' c' w' ep'. client_flush_tx_tls 9 9 (sock_send SSL_ERROR_WANT_WRITE) 7
      \<lparr> tx_plan = [Room 2], tx_wire = [] \<rparr> [5 \<mapsto> EPOLLIN_OUT] sample_tx_heap sample_tx_client =
      Some (1, w', ep', h', c') \<and> tx_wire w' = [1, 2] \<and> tx_queue h' c' [60]"
  using client_flush_tx_tls_partial_lost [of 9 9 sample_tx_heap sample_tx_client 50 "[60]"
      "sample_message [1, 2, 3] (Some 60)" 2 7 "[]" "[5 \<mapsto> EPOLLIN_OUT]"] sample_tx_queue sample_tx_first
  by (auto simp: sample_message_def)

end
