(* ===== verification/Frame_Reader.thy ===== *)
theory Frame_Reader
  imports Client
begin

text \<open>
  The receiving side of a connection: \<open>check_header\<close> and the reading loop of
  \<open>client_read_message\<close> (\<open>gateway/src/server.c\<close>), up to the point where the loop has an
  answer. What the server does with that answer is in theory \<open>Server\<close>. The call that reads
  (\<open>SSL_read\<close>, or \<open>recv\<close> in a build without TLS) is the parameter \<open>rd\<close>.
\<close>

section \<open>The code\<close>

definition check_header :: "header_packet \<Rightarrow> int" where
  "check_header header =
     (if h_magic header \<noteq> PROTOCOL_MAGIC then int (err_num ERR_BAD_MAGIC)
      else if h_version header \<noteq> PROTOCOL_VERSION then int (err_num ERR_BAD_VERSION)
      else if h_length header > word_of_nat MAX_PAYLOAD then int (err_num ERR_PAYLOAD_TOO_LARGE)
      else if h_type header \<noteq> MSG_ECHO \<and> h_type header \<noteq> MSG_STATUS \<and>
              h_type header \<noteq> MSG_GET_SENSOR \<and> h_type header \<noteq> MSG_SET_ACTUATOR
      then int (err_num ERR_UNKNOWN_TYPE)
      else 0)"

definition decode_header :: "bytes \<Rightarrow> header_packet option" where
  "decode_header data_receive = do {
     magic \<leftarrow> decode_32_bit data_receive 0;
     version \<leftarrow> decode_16_bit data_receive 4;
     type \<leftarrow> decode_16_bit data_receive 6;
     len \<leftarrow> decode_32_bit data_receive 8;
     request_id \<leftarrow> decode_32_bit data_receive 12;
     Some \<lparr> h_magic = magic, h_version = version, h_type = type, h_length = len,
            h_request_id = request_id \<rparr>
   }"

text \<open>Where the loop leaves: the return values -1, 1 and 3, a refused header, a whole frame.\<close>

datatype read_exit = Ret_fail | Ret_closed | Ret_again | Ret_bad_header u32 int | Ret_frame

definition header_remain :: "client \<Rightarrow> nat" where
  "header_remain client = unat (word_of_nat HEADER_SIZE - word_of_nat (c_rx_len client) :: u64)"

text \<open>\<open>length + HEADER_SIZE + CRC_SIZE\<close> is 32-bit arithmetic in \<open>remain\<close>, 64-bit in \<open>total_needed\<close>.\<close>

definition payload_remain :: "client \<Rightarrow> u32 \<Rightarrow> nat" where
  "payload_remain client len =
     unat (ucast (len + word_of_nat HEADER_SIZE + word_of_nat CRC_SIZE) - word_of_nat (c_rx_len client) :: u64)"

definition total_needed :: "u32 \<Rightarrow> nat" where
  "total_needed len = unat (ucast len + word_of_nat HEADER_SIZE + word_of_nat CRC_SIZE :: u64)"

definition store_rx :: "client \<Rightarrow> bytes \<Rightarrow> client option" where
  "store_rx client bs = do {
     buf \<leftarrow> poke (c_rx_len client) bs (c_data_receive client);
     Some (client \<lparr> c_data_receive := buf, c_rx_len := c_rx_len client + length bs \<rparr>)
   }"

fun read_loop :: "nat \<Rightarrow> 'w reader \<Rightarrow> 'w \<Rightarrow> client \<Rightarrow> (read_exit \<times> 'w \<times> client) option" where
  "read_loop 0 rd w client = None"
| "read_loop (Suc k) rd w client =
     (case c_stage client of
        READ_HEADER \<Rightarrow>
          (case rd w (header_remain client) of
             (RxErr EINTR, w) \<Rightarrow> read_loop k rd w client
           | (RxErr EAGAIN, w) \<Rightarrow> Some (Ret_again, w, client)
           | (RxErr EOTHER, w) \<Rightarrow> Some (Ret_fail, w, client)
           | (RxEof, w) \<Rightarrow> Some (Ret_closed, w, client \<lparr> c_alive := False \<rparr>)
           | (RxData bs, w) \<Rightarrow> do {
               client \<leftarrow> store_rx client bs;
               if c_rx_len client < HEADER_SIZE then read_loop k rd w client
               else do {
                 header \<leftarrow> decode_header (c_data_receive client);
                 let ret = check_header header;
                 if ret < 0 then Some (Ret_fail, w, client)
                 else if ret > 0 then Some (Ret_bad_header (h_request_id header) ret, w, client)
                 else read_loop k rd w (client \<lparr> c_stage := READ_PAYLOAD \<rparr>)
               }
             })
      | READ_PAYLOAD \<Rightarrow> do {
          len \<leftarrow> decode_32_bit (c_data_receive client) 8;
          case rd w (payload_remain client len) of
            (RxErr EINTR, w) \<Rightarrow> read_loop k rd w client
          | (RxErr EAGAIN, w) \<Rightarrow> Some (Ret_again, w, client)
          | (RxErr EOTHER, w) \<Rightarrow> Some (Ret_fail, w, client)
          | (RxEof, w) \<Rightarrow> Some (Ret_closed, w, client \<lparr> c_alive := False \<rparr>)
          | (RxData bs, w) \<Rightarrow> do {
              client \<leftarrow> store_rx client bs;
              if c_rx_len client < total_needed len then read_loop k rd w client
              else Some (Ret_frame, w, client)
            }
        }
      | READ_CRC \<Rightarrow> Some (Ret_fail, w, client))"

section \<open>The stream as a specification\<close>

text \<open>What the first frame of a byte stream is, as far as the stream goes.\<close>

datatype scan_result = Incomplete | Bad_header u32 int | Complete nat

definition frame_scan :: "bytes \<Rightarrow> scan_result" where
  "frame_scan acc =
     (case decode_header acc of
        None \<Rightarrow> Incomplete
      | Some header \<Rightarrow>
          if check_header header \<noteq> 0 then Bad_header (h_request_id header) (check_header header)
          else if length acc < 20 + unat (h_length header) then Incomplete
          else Complete (unat (h_length header)))"

text \<open>The bytes of the current frame received so far, and the invariant between calls.\<close>

definition pending :: "client \<Rightarrow> bytes" where
  "pending c = take (c_rx_len c) (c_data_receive c)"

definition client_inv :: "client \<Rightarrow> bool" where
  "client_inv c =
     (length (c_data_receive c) = RX_BUF_CAP \<and>
      (case c_stage c of
         READ_HEADER \<Rightarrow> c_rx_len c < HEADER_SIZE
       | READ_PAYLOAD \<Rightarrow> HEADER_SIZE \<le> c_rx_len c \<and>
           (case decode_header (c_data_receive c) of
              None \<Rightarrow> False
            | Some header \<Rightarrow> check_header header = 0 \<and> c_rx_len c < 20 + unat (h_length header))
       | READ_CRC \<Rightarrow> False))"

lemma client_inv_cong:
  "c_stage c' = c_stage c \<Longrightarrow> c_data_receive c' = c_data_receive c \<Longrightarrow> c_rx_len c' = c_rx_len c \<Longrightarrow>
   client_inv c' = client_inv c \<and> pending c' = pending c"
  by (auto simp: client_inv_def pending_def split: read_stage.splits option.splits)

lemma check_header_nonneg: "0 \<le> check_header header"
  by (simp add: check_header_def)

lemma check_header_length: "check_header header = 0 \<Longrightarrow> unat (h_length header) \<le> 4096"
  by (auto simp: check_header_def not_less word_le_nat_alt protocol_consts split: if_splits)

lemma decode_header_prefix: "16 \<le> length xs \<Longrightarrow> decode_header (xs @ ys) = decode_header xs"
  by (cases "xs = []") (simp_all add: decode_header_def decode_32_bit_def decode_16_bit_def nth_append)

lemma decode_header_short: "length xs < 16 \<Longrightarrow> decode_header xs = None"
  by (simp add: decode_header_def decode_32_bit_def decode_16_bit_def bind_eq_None_conv)

lemma decode_header_long: "16 \<le> length xs \<Longrightarrow> \<exists>header. decode_header xs = Some header"
  by (simp add: decode_header_def decode_32_bit_def decode_16_bit_def)

lemma decode_header_len: "decode_header xs = Some header \<Longrightarrow> decode_32_bit xs 8 = Some (h_length header)"
  by (auto simp: decode_header_def bind_eq_Some_conv)

lemma decode_header_frame:
  "decode_header (frame_header t l r @ rest) =
     Some \<lparr> h_magic = PROTOCOL_MAGIC, h_version = PROTOCOL_VERSION, h_type = t, h_length = l, h_request_id = r \<rparr>"
  by (simp add: decode_header_def codec_simps)

lemma buffer_split: "c_rx_len c \<le> length (c_data_receive c) \<Longrightarrow>
   c_data_receive c = pending c @ drop (c_rx_len c) (c_data_receive c) \<and> length (pending c) = c_rx_len c"
  by (simp add: pending_def)

lemma decode_header_pending:
  "16 \<le> c_rx_len c \<Longrightarrow> c_rx_len c \<le> length (c_data_receive c) \<Longrightarrow>
   decode_header (c_data_receive c) = decode_header (pending c @ ys)"
  using buffer_split [of c] decode_header_prefix [of "pending c"] by metis

lemma client_inv_bounds:
  assumes "client_inv c"
  shows "c_rx_len c < 4116" and "c_rx_len c \<le> length (c_data_receive c)"
proof -
  show "c_rx_len c < 4116"
    using assms check_header_length
    by (auto simp: client_inv_def HEADER_SIZE_def split: read_stage.splits option.splits) fastforce
  then show "c_rx_len c \<le> length (c_data_receive c)"
    using assms by (simp add: client_inv_def RX_BUF_CAP_def)
qed

text \<open>A client that satisfies the invariant holds no whole frame and no bad header.\<close>

lemma client_inv_incomplete:
  assumes "client_inv c"
  shows "frame_scan (pending c) = Incomplete"
proof (cases "c_stage c")
  case READ_HEADER
  then have "length (pending c) < 16" using assms by (simp add: client_inv_def pending_def HEADER_SIZE_def min_less_iff_disj)
  then show ?thesis by (simp add: frame_scan_def decode_header_short)
next
  case READ_PAYLOAD
  then have "decode_header (pending c) = decode_header (c_data_receive c)"
    using assms decode_header_pending [of c "[]"] client_inv_bounds [OF assms]
    by (simp add: client_inv_def HEADER_SIZE_def)
  then show ?thesis
    using assms READ_PAYLOAD buffer_split [of c] client_inv_bounds [OF assms]
    by (auto simp: client_inv_def frame_scan_def split: option.splits)
next
  case READ_CRC
  then show ?thesis using assms by (simp add: client_inv_def)
qed

section \<open>The loop follows the stream\<close>

lemma header_remain_value: "c_rx_len c < 16 \<Longrightarrow> header_remain c = 16 - c_rx_len c"
  by (simp add: header_remain_def HEADER_SIZE_def unat_sub unat_of_nat word_le_nat_alt)

lemma total_needed_value: "unat len \<le> 4096 \<Longrightarrow> total_needed len = 20 + unat len"
  by (simp add: total_needed_def protocol_consts unat_word_ariths unsigned_ucast_eq take_bit_nat_eq_self)

lemma payload_remain_value:
  assumes "unat len \<le> 4096" and "c_rx_len c < 20 + unat len"
  shows "payload_remain c len = 20 + unat len - c_rx_len c"
proof -
  have "len \<le> word_of_nat MAX_PAYLOAD" using assms(1) by (simp add: word_le_nat_alt protocol_consts)
  from unat_total_len [OF this] show ?thesis
    using assms by (simp add: payload_remain_def unat_sub word_le_nat_alt unat_of_nat)
qed

lemma store_rx_data:
  assumes "c_rx_len c + length bs \<le> length (c_data_receive c)"
  shows "\<exists>c'. store_rx c bs = Some c' \<and> pending c' = pending c @ bs \<and>
    c' = c \<lparr> c_data_receive := c_data_receive c', c_rx_len := c_rx_len c + length bs \<rparr> \<and>
    length (c_data_receive c') = length (c_data_receive c) \<and>
    (16 \<le> c_rx_len c \<longrightarrow> decode_header (c_data_receive c') = decode_header (c_data_receive c))"
proof -
  let ?b = "pending c @ bs @ drop (c_rx_len c + length bs) (c_data_receive c)"
  let ?c = "c \<lparr> c_data_receive := ?b, c_rx_len := c_rx_len c + length bs \<rparr>"
  have s: "store_rx c bs = Some ?c" using assms by (simp add: store_rx_def poke_def pending_def)
  have l: "length (pending c) = c_rx_len c" using assms by (simp add: pending_def)
  have "decode_header ?b = decode_header (c_data_receive c)" if "16 \<le> c_rx_len c"
    using that l assms decode_header_prefix [of "pending c"] decode_header_pending [of c "[]"] by simp
  with s l assms show ?thesis by (intro exI [of _ ?c]) (simp add: pending_def)
qed

definition same_conn :: "client \<Rightarrow> client \<Rightarrow> read_exit \<Rightarrow> bool" where
  "same_conn c c' x =
     (c' = c \<lparr> c_stage := c_stage c', c_data_receive := c_data_receive c', c_rx_len := c_rx_len c',
               c_alive := (c_alive c \<and> x \<noteq> Ret_closed) \<rparr> \<and> length (c_data_receive c') = RX_BUF_CAP)"

text \<open>
  What a run of the loop must do, given the bytes \<open>acc\<close> of the stream from the start of the
  current frame to the last byte available.
\<close>

definition read_post :: "('w \<Rightarrow> bytes) \<Rightarrow> client \<Rightarrow> bytes \<Rightarrow> read_exit \<times> 'w \<times> client \<Rightarrow> bool" where
  "read_post avail c acc res =
     (case res of (x, w', c') \<Rightarrow> same_conn c c' x \<and>
        (case frame_scan acc of
           Incomplete \<Rightarrow> x \<in> {Ret_again, Ret_fail, Ret_closed} \<and> client_inv c' \<and>
             pending c' = acc \<and> avail w' = []
         | Bad_header r e \<Rightarrow> x = Ret_bad_header r e \<and> c_rx_len c' = 16 \<and> pending c' @ avail w' = acc
         | Complete l \<Rightarrow> x = Ret_frame \<and> c_rx_len c' = 20 + l \<and> pending c' @ avail w' = acc))"

lemma read_post_same:
  assumes "read_post avail c1 acc (x, w', c')"
    and "c1 = c \<lparr> c_stage := c_stage c1, c_data_receive := c_data_receive c1, c_rx_len := c_rx_len c1 \<rparr>"
  shows "read_post avail c acc (x, w', c')"
proof -
  have "c_alive c1 = c_alive c" by (subst assms(2)) simp
  moreover have "c1 \<lparr> c_stage := p, c_data_receive := q, c_rx_len := r, c_alive := b \<rparr> =
      c \<lparr> c_stage := p, c_data_receive := q, c_rx_len := r, c_alive := b \<rparr>" for p q r b
    by (subst assms(2)) simp
  ultimately show ?thesis using assms(1) by (simp add: read_post_def same_conn_def)
qed

text \<open>Nothing was available: the client is as before, but for \<open>alive\<close> at the end of the stream.\<close>

lemma read_post_nothing:
  assumes "client_inv c" and "avail w' = []" and "x \<in> {Ret_again, Ret_fail, Ret_closed}"
    and "c' = (if x = Ret_closed then c \<lparr> c_alive := False \<rparr> else c)"
  shows "read_post avail c (pending c) (x, w', c')"
proof -
  have "pending c' = pending c" and "client_inv c'"
    using assms(1,4) client_inv_cong [of c' c] by simp_all
  then show ?thesis
    using assms client_inv_incomplete [OF assms(1)]
    by (auto simp: read_post_def same_conn_def client_inv_def split: if_splits)
qed

text \<open>One delivery of data, in each of the two stages.\<close>

lemma header_data:
  assumes inv: "client_inv c" and st: "c_stage c = READ_HEADER"
    and bs: "length bs \<le> 16 - c_rx_len c" and s: "store_rx c bs = Some c1"
    and p: "pending c1 = pending c @ bs"
    and c1: "c1 = c \<lparr> c_data_receive := c_data_receive c1, c_rx_len := c_rx_len c + length bs \<rparr>"
    and l: "length (c_data_receive c1) = length (c_data_receive c)"
  shows "c_rx_len c1 < HEADER_SIZE \<and> client_inv c1 \<or>
    c_rx_len c1 = HEADER_SIZE \<and> (\<exists>hdr. decode_header (c_data_receive c1) = Some hdr \<and>
      (\<forall>ys. decode_header (pending c1 @ ys) = Some hdr) \<and>
      (check_header hdr = 0 \<longrightarrow> client_inv (c1 \<lparr> c_stage := READ_PAYLOAD \<rparr>)))"
proof -
  have r: "c_rx_len c1 = c_rx_len c + length bs" "c_stage c1 = READ_HEADER"
    using st by (subst c1, simp)+
  have lc: "length (c_data_receive c1) = RX_BUF_CAP" using l inv by (simp add: client_inv_def)
  have b: "c_rx_len c < 16" using inv st by (simp add: client_inv_def HEADER_SIZE_def)
  show ?thesis
  proof (cases "c_rx_len c1 < HEADER_SIZE")
    case True
    then show ?thesis using r lc by (simp add: client_inv_def)
  next
    case False
    then have 16: "c_rx_len c1 = 16" using r b bs by (simp add: HEADER_SIZE_def)
    then obtain hdr where h: "decode_header (c_data_receive c1) = Some hdr"
      using decode_header_long [of "c_data_receive c1"] lc by (auto simp: RX_BUF_CAP_def)
    then have "\<forall>ys. decode_header (pending c1 @ ys) = Some hdr"
      using decode_header_pending [of c1] 16 lc by (simp add: RX_BUF_CAP_def)
    with h 16 lc show ?thesis by (simp add: client_inv_def HEADER_SIZE_def)
  qed
qed

lemma payload_data:
  assumes inv: "client_inv c" and st: "c_stage c = READ_PAYLOAD"
    and h: "decode_header (c_data_receive c) = Some hdr"
    and bs: "length bs \<le> 20 + unat (h_length hdr) - c_rx_len c" and s: "store_rx c bs = Some c1"
    and c1: "c1 = c \<lparr> c_data_receive := c_data_receive c1, c_rx_len := c_rx_len c + length bs \<rparr>"
    and l: "length (c_data_receive c1) = length (c_data_receive c)"
    and d: "decode_header (c_data_receive c1) = decode_header (c_data_receive c)"
  shows "check_header hdr = 0" and "c_rx_len c1 < 20 + unat (h_length hdr) \<Longrightarrow> client_inv c1"
    and "\<not> c_rx_len c1 < 20 + unat (h_length hdr) \<Longrightarrow>
      c_rx_len c1 = 20 + unat (h_length hdr) \<and> decode_header (pending c1 @ ys) = Some hdr"
proof -
  have r: "c_rx_len c1 = c_rx_len c + length bs" "c_stage c1 = READ_PAYLOAD"
    using st by (subst c1, simp)+
  have i: "check_header hdr = 0" "16 \<le> c_rx_len c" "c_rx_len c < 20 + unat (h_length hdr)"
    "length (c_data_receive c1) = RX_BUF_CAP"
    using inv st h l by (simp_all add: client_inv_def HEADER_SIZE_def)
  then show "check_header hdr = 0" by simp
  show "client_inv c1" if "c_rx_len c1 < 20 + unat (h_length hdr)"
    using that i r h d by (simp add: client_inv_def HEADER_SIZE_def)
  show "c_rx_len c1 = 20 + unat (h_length hdr) \<and> decode_header (pending c1 @ ys) = Some hdr"
    if "\<not> c_rx_len c1 < 20 + unat (h_length hdr)"
  proof -
    have "c_rx_len c1 = 20 + unat (h_length hdr)" using that r bs i(3) by simp
    moreover from this have "c_rx_len c1 \<le> length (c_data_receive c1)"
      using check_header_length [OF i(1)] i(4) by (simp add: RX_BUF_CAP_def)
    ultimately show ?thesis using decode_header_pending [of c1 ys] h d by simp
  qed
qed

lemma client_upd:
  "c1 = c \<lparr> c_data_receive := d, c_rx_len := r \<rparr> \<Longrightarrow>
   c1 = c \<lparr> c_stage := c_stage c1, c_data_receive := c_data_receive c1, c_rx_len := c_rx_len c1 \<rparr>"
  by simp

context byte_reader
begin

lemma nothing_available:
  assumes "client_inv c" and "0 < n" and "rd w n = (res, w')" and "\<And>bs. res \<noteq> RxData bs" and "res \<noteq> RxErr EINTR"
  shows "avail w' = []" and "avail w = []"
proof -
  show w: "avail w = []" using rd_ready [of w n] assms by auto
  then show "avail w' = []" using assms(3-5) rd_keep by (cases res) metis+
qed

text \<open>
  One round of the loop, given that every later round (\<open>again\<close>) meets the specification of the
  same stream position.
\<close>

definition continues :: "nat \<Rightarrow> 'w \<Rightarrow> client \<Rightarrow> bool" where
  "continues k w c =
     (\<forall>w' c1. work w' < work w \<longrightarrow> client_inv c1 \<longrightarrow> pending c1 @ avail w' = pending c @ avail w \<longrightarrow>
        c1 = c \<lparr> c_stage := c_stage c1, c_data_receive := c_data_receive c1, c_rx_len := c_rx_len c1 \<rparr> \<longrightarrow>
        (\<exists>res. read_loop k rd w' c1 = Some res \<and> read_post avail c (pending c @ avail w) res))"

lemma no_data_stops:
  assumes "client_inv c" and "0 < n" and "rd w n = (res, w')" and "\<And>bs. res \<noteq> RxData bs" and "res \<noteq> RxErr EINTR"
    and "x \<in> {Ret_again, Ret_fail, Ret_closed}"
  shows "read_post avail c (pending c @ avail w) (x, w', if x = Ret_closed then c \<lparr> c_alive := False \<rparr> else c)"
  using read_post_nothing [OF assms(1), of avail w' x] nothing_available [OF assms(1-5)] assms(6) by simp

lemma interrupted_continues:
  assumes "continues k w c" and "client_inv c" and "rd w n = (RxErr EINTR, w')"
  shows "\<exists>res. read_loop k rd w' c = Some res \<and> read_post avail c (pending c @ avail w) res"
  using assms(1,2) rd_interrupt [OF assms(3)] rd_keep [OF disjI1 [OF assms(3)]]
  unfolding continues_def by simp

lemma header_complete:
  assumes more: "continues k w c" and w: "work w' < work w" and inv: "client_inv c"
    and acc: "pending c1 @ avail w' = pending c @ avail w"
    and upd: "c1 = c \<lparr> c_stage := c_stage c1, c_data_receive := c_data_receive c1, c_rx_len := c_rx_len c1 \<rparr>"
    and l: "length (c_data_receive c1) = length (c_data_receive c)"
    and hdr: "c_rx_len c1 = HEADER_SIZE" "decode_header (c_data_receive c1) = Some hdr"
      "\<forall>ys. decode_header (pending c1 @ ys) = Some hdr"
      "check_header hdr = 0 \<longrightarrow> client_inv (c1 \<lparr> c_stage := READ_PAYLOAD \<rparr>)"
  shows "\<exists>res. (if check_header hdr > 0 then Some (Ret_bad_header (h_request_id hdr) (check_header hdr), w', c1)
      else read_loop k rd w' (c1 \<lparr> c_stage := READ_PAYLOAD \<rparr>)) = Some res \<and>
    read_post avail c (pending c @ avail w) res"
proof (cases "check_header hdr = 0")
  case True
  let ?c = "c1 \<lparr> c_stage := READ_PAYLOAD \<rparr>"
  have "?c = c \<lparr> c_stage := c_stage ?c, c_data_receive := c_data_receive ?c, c_rx_len := c_rx_len ?c \<rparr>"
    by (subst upd) simp
  moreover have "pending ?c = pending c1" by (simp add: pending_def)
  ultimately show ?thesis using more True hdr(4) w acc unfolding continues_def by simp
next
  case False
  then have "check_header hdr > 0" using check_header_nonneg [of hdr] by simp
  moreover have "frame_scan (pending c @ avail w) = Bad_header (h_request_id hdr) (check_header hdr)"
    using False hdr(3) by (simp add: frame_scan_def flip: acc)
  ultimately show ?thesis
    using hdr(1) acc upd l inv
    by (simp add: read_post_def same_conn_def client_inv_def HEADER_SIZE_def)
qed

lemma header_round:
  assumes inv: "client_inv c" and st: "c_stage c = READ_HEADER" and more: "continues k w c"
  shows "\<exists>res. read_loop (Suc k) rd w c = Some res \<and> read_post avail c (pending c @ avail w) res"
proof -
  have n: "header_remain c = 16 - c_rx_len c" "0 < header_remain c"
    using inv st header_remain_value [of c] by (simp_all add: client_inv_def HEADER_SIZE_def)
  obtain res w' where r: "rd w (header_remain c) = (res, w')" by fastforce
  show ?thesis
  proof (cases res)
    case (RxData bs)
    with r n rd_data rd_progress have bs: "length bs \<le> 16 - c_rx_len c" "avail w = bs @ avail w'" "work w' < work w"
      by metis+
    have "c_rx_len c + length bs \<le> length (c_data_receive c)"
      using bs(1) client_inv_bounds [OF inv] inv by (simp add: client_inv_def RX_BUF_CAP_def)
    then obtain c1 where c1: "store_rx c bs = Some c1" "pending c1 = pending c @ bs"
      "c1 = c \<lparr> c_data_receive := c_data_receive c1, c_rx_len := c_rx_len c + length bs \<rparr>"
      "length (c_data_receive c1) = length (c_data_receive c)"
      using store_rx_data by blast
    have acc: "pending c1 @ avail w' = pending c @ avail w" using c1(2) bs(2) by simp
    note upd = client_upd [OF c1(3)]
    have round: "read_loop (Suc k) rd w c =
        (if c_rx_len c1 < HEADER_SIZE then read_loop k rd w' c1
         else do { hdr \<leftarrow> decode_header (c_data_receive c1);
           if check_header hdr > 0 then Some (Ret_bad_header (h_request_id hdr) (check_header hdr), w', c1)
           else read_loop k rd w' (c1 \<lparr> c_stage := READ_PAYLOAD \<rparr>) })"
      using r RxData c1(1) st check_header_nonneg by (simp add: Let_def not_less [symmetric])
    from header_data [OF inv st bs(1) c1] show ?thesis
    proof (elim disjE conjE exE)
      assume "c_rx_len c1 < HEADER_SIZE" "client_inv c1"
      then show ?thesis using more bs(3) acc upd round unfolding continues_def by simp
    next
      fix hdr assume hdr: "c_rx_len c1 = HEADER_SIZE" "decode_header (c_data_receive c1) = Some hdr"
        "\<forall>ys. decode_header (pending c1 @ ys) = Some hdr"
        "check_header hdr = 0 \<longrightarrow> client_inv (c1 \<lparr> c_stage := READ_PAYLOAD \<rparr>)"
      show ?thesis
        using header_complete [OF more bs(3) inv acc upd c1(4) hdr] round hdr(1,2) by simp
    qed
  next
    case RxEof
    then show ?thesis using r no_data_stops [OF inv n(2) r, of Ret_closed] st by simp
  next
    case (RxErr e)
    then show ?thesis
      using r no_data_stops [OF inv n(2) r, of Ret_again] no_data_stops [OF inv n(2) r, of Ret_fail] st
        interrupted_continues [OF more inv, of "header_remain c" w']
      by (cases e) auto
  qed
qed

lemma payload_round:
  assumes inv: "client_inv c" and st: "c_stage c = READ_PAYLOAD" and more: "continues k w c"
  shows "\<exists>res. read_loop (Suc k) rd w c = Some res \<and> read_post avail c (pending c @ avail w) res"
proof -
  obtain hdr where hdr: "decode_header (c_data_receive c) = Some hdr" "check_header hdr = 0"
    "16 \<le> c_rx_len c" "c_rx_len c < 20 + unat (h_length hdr)"
    using inv st by (auto simp: client_inv_def HEADER_SIZE_def split: option.splits)
  let ?n = "payload_remain c (h_length hdr)"
  have n: "?n = 20 + unat (h_length hdr) - c_rx_len c" "0 < ?n"
    "total_needed (h_length hdr) = 20 + unat (h_length hdr)"
    using payload_remain_value total_needed_value check_header_length [OF hdr(2)] hdr(4) by simp_all
  note len = decode_header_len [OF hdr(1)]
  obtain res w' where r: "rd w ?n = (res, w')" by fastforce
  show ?thesis
  proof (cases res)
    case (RxData bs)
    with r n rd_data rd_progress have bs: "length bs \<le> 20 + unat (h_length hdr) - c_rx_len c"
      "avail w = bs @ avail w'" "work w' < work w"
      by metis+
    have "c_rx_len c + length bs \<le> length (c_data_receive c)"
      using bs(1) hdr(4) check_header_length [OF hdr(2)] inv by (simp add: client_inv_def RX_BUF_CAP_def)
    then obtain c1 where c1: "store_rx c bs = Some c1" "pending c1 = pending c @ bs"
      "c1 = c \<lparr> c_data_receive := c_data_receive c1, c_rx_len := c_rx_len c + length bs \<rparr>"
      "length (c_data_receive c1) = length (c_data_receive c)"
      "decode_header (c_data_receive c1) = decode_header (c_data_receive c)"
      using store_rx_data hdr(3) by blast
    have acc: "pending c1 @ avail w' = pending c @ avail w" using c1(2) bs(2) by simp
    note upd = client_upd [OF c1(3)]
    note pd = payload_data [OF inv st hdr(1) bs(1) c1(1,3-5)]
    show ?thesis
    proof (cases "c_rx_len c1 < 20 + unat (h_length hdr)")
      case True
      then show ?thesis
        using more pd(2) [OF True] bs(3) acc upd r RxData c1(1) st len n(3) unfolding continues_def by simp
    next
      case False
      note full = pd(3) [OF False, of "avail w'"]
      then have "length (pending c1) = 20 + unat (h_length hdr)"
        using check_header_length [OF hdr(2)] c1(4) inv
        by (simp add: pending_def client_inv_def RX_BUF_CAP_def)
      then have "frame_scan (pending c @ avail w) = Complete (unat (h_length hdr))"
        using full hdr(2) by (simp add: frame_scan_def flip: acc)
      then show ?thesis
        using False full r RxData c1(1,4) st len n(3) acc upd inv
        by (simp add: read_post_def same_conn_def client_inv_def)
    qed
  next
    case RxEof
    then show ?thesis using r no_data_stops [OF inv n(2) r, of Ret_closed] st len by simp
  next
    case (RxErr e)
    then show ?thesis
      using r no_data_stops [OF inv n(2) r, of Ret_again] no_data_stops [OF inv n(2) r, of Ret_fail] st len
        interrupted_continues [OF more inv, of ?n w']
      by (cases e) auto
  qed
qed

text \<open>With more fuel than the connection can deliver, the loop returns and meets \<open>read_post\<close>.\<close>

lemma read_loop_post:
  "work w < k \<Longrightarrow> client_inv c \<Longrightarrow>
   \<exists>res. read_loop k rd w c = Some res \<and> read_post avail c (pending c @ avail w) res"
proof (induction k arbitrary: w c)
  case (Suc k)
  have "continues k w c"
    unfolding continues_def
  proof (intro allI impI)
    fix w' c1
    assume *: "work w' < work w" "client_inv c1" "pending c1 @ avail w' = pending c @ avail w"
      "c1 = c \<lparr> c_stage := c_stage c1, c_data_receive := c_data_receive c1, c_rx_len := c_rx_len c1 \<rparr>"
    then show "\<exists>res. read_loop k rd w' c1 = Some res \<and> read_post avail c (pending c @ avail w) res"
      using Suc.IH [of w' c1] Suc.prems(1) read_post_same [OF _ *(4)] by fastforce
  qed
  then show ?case
    using header_round [OF Suc.prems(2)] payload_round [OF Suc.prems(2)] Suc.prems(2)
    by (cases "c_stage c") (auto simp: client_inv_def)
qed simp

end

end
