(* ===== verification/Server.thy ===== *)
theory Server
  imports Frame_Reader
begin

text \<open>
  The gateway's event handlers (\<open>gateway/src/server.c\<close>). The server record holds the C struct,
  the three heaps its pointers lead into and the epoll registration. Each handler takes the
  answers of the system and library calls it makes (accepted descriptors, allocations, clock
  readings, the outcome of a TLS handshake) as arguments and returns the C return value with
  the new state; reading and writing a connection go through \<open>rd\<close> and \<open>tx\<close>.
\<close>

section \<open>The code\<close>

record server =
  sv_listen_fd :: int
  sv_broadcast_fd :: int
  sv_event_fd :: int
  sv_epoll_fd :: int
  sv_clients :: "client list"
  sv_tasks :: task_queue
  sv_response :: response_queue
  sv_shutdown :: bool
  sv_tls_ctx :: "nat option"
  m_tasks :: "task heap"
  m_responses :: "response heap"
  m_data :: "data_transmit heap"
  k_epoll :: epoll

text \<open>
  Start-up. \<open>fds\<close> is the set of open descriptors; the integers are the return values of the
  system calls in the order the code makes them.
\<close>

definition setup_tcp :: "int \<Rightarrow> int \<Rightarrow> int \<Rightarrow> int \<Rightarrow> int \<Rightarrow> int \<Rightarrow> int set \<Rightarrow> int \<times> int set" where
  "setup_tcp listen_fd reuseaddr reuseport keepalive bnd lst fds =
     (if listen_fd < 0 then (-1, fds)
      else let opened = insert listen_fd fds; closed = opened - {listen_fd} in
        if reuseaddr < 0 then (-1, closed)
        else if reuseport < 0 then (-1, closed)
        else if keepalive < 0 then (-1, closed)
        else if bnd < 0 then (-1, closed)
        else if lst < 0 then (-1, closed)
        else (listen_fd, opened))"

definition setup_udp :: "int \<Rightarrow> int \<Rightarrow> int \<Rightarrow> int \<Rightarrow> int set \<Rightarrow> int \<times> int set" where
  "setup_udp discovery_fd reuseaddr reuseport bnd fds =
     (if discovery_fd < 0 then (-1, fds)
      else let opened = insert discovery_fd fds; closed = opened - {discovery_fd} in
        if reuseaddr < 0 then (-1, closed)
        else if reuseport < 0 then (-1, closed)
        else if bnd < 0 then (-1, closed)
        else (discovery_fd, opened))"

definition setup_eventfd :: "int \<Rightarrow> int set \<Rightarrow> int \<times> int set" where
  "setup_eventfd efd fds = (if efd < 0 then (-1, fds) else (efd, insert efd fds))"

definition setup_epoll :: "int \<Rightarrow> int set \<Rightarrow> int \<times> int set" where
  "setup_epoll epoll_fd fds = (if epoll_fd < 0 then (-1, fds) else (epoll_fd, insert epoll_fd fds))"

text \<open>The answers \<open>server_init\<close> gets; \<open>i_now i\<close> is the clock when slot \<open>i\<close>'s limiter is set up.\<close>

record init_env =
  i_tcp :: "int \<times> int \<times> int \<times> int \<times> int \<times> int"
  i_udp :: "int \<times> int \<times> int \<times> int"
  i_eventfd :: int
  i_epollfd :: int
  i_tls_ctx :: "nat option"
  i_epoll_ok :: "bool \<times> bool \<times> bool"
  i_now :: "nat \<Rightarrow> u64"

definition TASK_QUEUE_MAX :: nat where "TASK_QUEUE_MAX = 1024"

text \<open>\<open>memset(sv, 0, sizeof(*sv))\<close>\<close>

definition zero_client :: client where
  "zero_client = \<lparr> c_fd = 0, c_generation = 0, c_alive = False,
     c_rate = \<lparr> capacity = 0, number_request_available = 0, request_per_second = 0, last_request_ms = 0 \<rparr>,
     c_stage = READ_HEADER, c_data_receive = replicate RX_BUF_CAP 0, c_rx_len = 0, c_tail = None, c_head = None,
     c_bytes_need_to_send = 0, c_addr = (0, 0), c_last_active_ms = 0, c_ssl = None,
     c_tls_handshake_done = False, c_tls_read_pending = False \<rparr>"

definition zero_server :: server where
  "zero_server = \<lparr> sv_listen_fd = 0, sv_broadcast_fd = 0, sv_event_fd = 0, sv_epoll_fd = 0,
     sv_clients = replicate MAX_CLIENTS zero_client,
     sv_tasks = \<lparr> tq_head = None, tq_tail = None, tq_size = 0, tq_max_size = 0, tq_shutdown = False \<rparr>,
     sv_response = \<lparr> rq_head = None, rq_tail = None, rq_size = 0, rq_max_size = 0 \<rparr>,
     sv_shutdown = False, sv_tls_ctx = None, m_tasks = Map.empty, m_responses = Map.empty,
     m_data = Map.empty, k_epoll = Map.empty \<rparr>"

definition server_init :: "init_env \<Rightarrow> int set \<Rightarrow> (int \<times> server \<times> int set) option" where
  "server_init env fds = do {
     let sv = zero_server;
     (ret, cs) \<leftarrow> clients_init (sv_clients sv) (int MAX_CLIENTS);
     if ret < 0 then Some (-1, sv, fds)
     else do {
       let cs = map (\<lambda>i. (cs ! i) \<lparr> c_rate := rate_limit_init RATE_LIMIT_CAP RATE_LIMIT_REFILL_SEC (i_now env i) \<rparr>)
                 [0..<MAX_CLIENTS];
       let sv = sv \<lparr> sv_clients := cs, sv_tasks := task_queue_init (sv_tasks sv) TASK_QUEUE_MAX,
                     sv_response := response_queue_init (sv_response sv) TASK_QUEUE_MAX,
                     sv_shutdown := False \<rparr>;
       let (fd, fds) = (case i_tcp env of (s, a, p, k, b, l) \<Rightarrow> setup_tcp s a p k b l fds);
       let sv = sv \<lparr> sv_listen_fd := fd \<rparr>;
       if fd < 0 then Some (-1, sv, fds) else do {
       let (fd, fds) = (case i_udp env of (s, a, p, b) \<Rightarrow> setup_udp s a p b fds);
       let sv = sv \<lparr> sv_broadcast_fd := fd \<rparr>;
       if fd < 0 then Some (-1, sv, fds) else do {
       let (fd, fds) = setup_eventfd (i_eventfd env) fds;
       let sv = sv \<lparr> sv_event_fd := fd \<rparr>;
       if fd < 0 then Some (-1, sv, fds) else do {
       let (fd, fds) = setup_epoll (i_epollfd env) fds;
       let sv = sv \<lparr> sv_epoll_fd := fd \<rparr>;
       if fd < 0 then Some (-1, sv, fds) else do {
       let sv = sv \<lparr> sv_tls_ctx := i_tls_ctx env \<rparr>;
       if sv_tls_ctx sv = None then Some (-1, sv, fds) else do {
       let (r, ep) = epoll_add (fst (i_epoll_ok env)) (k_epoll sv) EPOLLIN (sv_listen_fd sv);
       let sv = sv \<lparr> k_epoll := ep \<rparr>;
       if r < 0 then Some (-1, sv, fds) else do {
       let (r, ep) = epoll_add (fst (snd (i_epoll_ok env))) (k_epoll sv) EPOLLIN (sv_broadcast_fd sv);
       let sv = sv \<lparr> k_epoll := ep \<rparr>;
       if r < 0 then Some (-1, sv, fds) else do {
       let (r, ep) = epoll_add (snd (snd (i_epoll_ok env))) (k_epoll sv) EPOLLIN (sv_event_fd sv);
       let sv = sv \<lparr> k_epoll := ep \<rparr>;
       if r < 0 then Some (-1, sv, fds) else Some (0, sv, fds) } } } } } } }
     }
   }"

definition put_client :: "server \<Rightarrow> nat \<Rightarrow> client \<Rightarrow> server" where
  "put_client sv slot c = sv \<lparr> sv_clients := (sv_clients sv) [slot := c] \<rparr>"

text \<open>
  Answers of the calls \<open>client_read_message\<close> makes: the block for an error packet, the node
  to queue it in, the block for a task with its indeterminate contents, and the clock in
  \<open>build_task\<close> and at the end.
\<close>

record read_env =
  e_packet :: "bytes option"
  e_node :: "addr option"
  e_task :: "(addr \<times> task) option"
  e_now_task :: u64
  e_now :: u64

text \<open>\<open>enqueue_message(client, err_packet, size); epoll_mod(..., EPOLLIN | EPOLLOUT, ...)\<close>\<close>

definition queue_error :: "server \<Rightarrow> nat \<Rightarrow> client \<Rightarrow> bytes \<Rightarrow> nat \<Rightarrow> addr option \<Rightarrow> server option" where
  "queue_error sv slot c packet n node = do {
     (ret, h, c) \<leftarrow> enqueue_message (m_data sv) c (Some packet) n node;
     Some ((put_client sv slot c) \<lparr> m_data := h, k_epoll := snd (epoll_mod (k_epoll sv) EPOLLIN_OUT (c_fd c)) \<rparr>)
   }"

definition frame_done :: "client \<Rightarrow> client" where
  "frame_done c = c \<lparr> c_stage := READ_HEADER, c_rx_len := 0 \<rparr>"

text \<open>A whole frame with a matching checksum becomes a task.\<close>

definition accept_frame :: "read_env \<Rightarrow> server \<Rightarrow> nat \<Rightarrow> client \<Rightarrow> server option" where
  "accept_frame env sv slot c = do {
     type \<leftarrow> decode_16_bit (c_data_receive c) 6;
     len \<leftarrow> decode_32_bit (c_data_receive c) 8;
     request_id \<leftarrow> decode_32_bit (c_data_receive c) 12;
     let header = \<lparr> h_magic = 0, h_version = 0, h_type = type, h_length = len, h_request_id = request_id \<rparr>;
     slot' \<leftarrow> fd_to_slot (sv_clients (put_client sv slot c)) (c_fd c) (int MAX_CLIENTS);
     (t, h) \<leftarrow> build_task (m_tasks sv) c header slot' (e_now_task env) (e_task env);
     (h, q) \<leftarrow>
       (case t of
          None \<Rightarrow> Some (h, sv_tasks sv)
        | Some a \<Rightarrow> do {
            (ret, h, q) \<leftarrow> push h (sv_tasks sv) t;
            Some (if ret < 0 then h(a := None) else h, q)
          });
     Some ((put_client sv slot ((frame_done c) \<lparr> c_last_active_ms := e_now env \<rparr>))
       \<lparr> m_tasks := h, sv_tasks := q \<rparr>)
   }"

definition client_read_message ::
  "nat \<Rightarrow> 'w reader \<Rightarrow> read_env \<Rightarrow> 'w \<Rightarrow> server \<Rightarrow> nat \<Rightarrow> (int \<times> 'w \<times> server) option" where
  "client_read_message k rd env w sv slot =
     (if slot \<ge> length (sv_clients sv) then None
      else do {
        (x, w, c) \<leftarrow> read_loop k rd w (sv_clients sv ! slot);
        case x of
          Ret_fail \<Rightarrow> Some (-1, w, put_client sv slot c)
        | Ret_closed \<Rightarrow> Some (1, w, put_client sv slot c)
        | Ret_again \<Rightarrow> Some (3, w, put_client sv slot c)
        | Ret_bad_header request_id ret \<Rightarrow> do {
            err_packet \<leftarrow> build_error_packet (e_packet env) request_id (word_of_int ret);
            case err_packet of
              None \<Rightarrow> Some (-1, w, put_client sv slot c)
            | Some (packet, n) \<Rightarrow> do {
                sv \<leftarrow> queue_error sv slot (frame_done c) packet n (e_node env);
                Some (2, w, sv)
              }
          }
        | Ret_frame \<Rightarrow> do {
            len \<leftarrow> decode_32_bit (c_data_receive c) 8;
            crc_rev \<leftarrow> decode_32_bit (c_data_receive c) (HEADER_SIZE + unat len);
            d \<leftarrow> peek HEADER_SIZE (unat len) (c_data_receive c);
            if crc_rev \<noteq> crc_of d then do {
              request_id \<leftarrow> decode_32_bit (c_data_receive c) 12;
              err_packet \<leftarrow> build_error_packet (e_packet env) request_id (word_of_nat (err_num ERR_CRC_MISMATCH));
              case err_packet of
                None \<Rightarrow> Some (2, w, put_client sv slot (frame_done c))
              | Some (packet, n) \<Rightarrow> do {
                  sv \<leftarrow> queue_error sv slot (frame_done c) packet n (e_node env);
                  Some (2, w, sv)
                }
            } else do {
              sv \<leftarrow> accept_frame env sv slot c;
              Some (0, w, sv)
            }
          }
      })"

text \<open>\<open>close_client(sv->clients, slot)\<close> on the server's state.\<close>

definition drop_client :: "server \<Rightarrow> nat \<Rightarrow> server option" where
  "drop_client sv slot = do {
     (ret, h, ep, cs) \<leftarrow> close_client (m_data sv) (k_epoll sv) (sv_clients sv) (int slot);
     Some (sv \<lparr> sv_clients := cs, m_data := h, k_epoll := ep \<rparr>)
   }"

text \<open>The outcome of \<open>SSL_do_handshake\<close> with \<open>SSL_get_error\<close>.\<close>

datatype handshake = Hs_done | Hs_want_read | Hs_want_write | Hs_failed

definition tls_try_handshake :: "handshake \<Rightarrow> server \<Rightarrow> nat \<Rightarrow> (int \<times> server) option" where
  "tls_try_handshake hs sv slot =
     (if slot \<ge> length (sv_clients sv) then None
      else let client = sv_clients sv ! slot; fd = c_fd client in
        case c_ssl client of None \<Rightarrow> None
        | Some ssl \<Rightarrow>
          (case hs of
             Hs_done \<Rightarrow> Some (0, (put_client sv slot (client \<lparr> c_tls_handshake_done := True \<rparr>))
               \<lparr> k_epoll := snd (epoll_mod (k_epoll sv) EPOLLIN fd) \<rparr>)
           | Hs_want_read \<Rightarrow> Some (1, sv \<lparr> k_epoll := snd (epoll_mod (k_epoll sv) EPOLLIN fd) \<rparr>)
           | Hs_want_write \<Rightarrow> Some (1, sv \<lparr> k_epoll := snd (epoll_mod (k_epoll sv) EPOLLIN_OUT fd) \<rparr>)
           | Hs_failed \<Rightarrow> do { sv \<leftarrow> drop_client sv slot; Some (-1, sv) }))"

text \<open>
  Answers of the calls \<open>handle_accept_client\<close> makes: \<open>accept4\<close>, the clock in
  \<open>client_alloc\<close>, \<open>epoll_ctl\<close>, \<open>SSL_new\<close>, \<open>SSL_set_fd\<close> and the first handshake step.
\<close>

datatype accept_result = Accepted int sockaddr_in | Accept_err errno

record accept_env =
  a_accept :: accept_result
  a_now :: u64
  a_now_rate :: u64
  a_epoll_ok :: bool
  a_ssl :: "nat option"
  a_set_fd :: bool
  a_handshake :: handshake

definition handle_accept_client :: "accept_env \<Rightarrow> server \<Rightarrow> (int \<times> server) option" where
  "handle_accept_client env sv =
     (case a_accept env of
        Accept_err err \<Rightarrow> Some (if err = EAGAIN \<or> err = EINTR then 0 else -1, sv)
      | Accepted client_fd client_addr \<Rightarrow> do {
          (slot, cs) \<leftarrow> client_alloc (sv_clients sv) (int MAX_CLIENTS) client_fd client_addr
                          (a_now env) (a_now_rate env);
          if slot < 0 then Some (-1, sv)
          else do {
            let sv = sv \<lparr> sv_clients := cs \<rparr>;
            let (ret, ep) = epoll_add (a_epoll_ok env) (k_epoll sv) EPOLLIN client_fd;
            let sv = sv \<lparr> k_epoll := ep \<rparr>;
            if ret < 0 then do { sv \<leftarrow> drop_client sv (nat slot); Some (-1, sv) }
            else do {
              let sv = put_client sv (nat slot) ((cs ! nat slot) \<lparr> c_ssl := a_ssl env \<rparr>);
              if a_ssl env = None then do { sv \<leftarrow> drop_client sv (nat slot); Some (-1, sv) }
              else if \<not> a_set_fd env then do { sv \<leftarrow> drop_client sv (nat slot); Some (-1, sv) }
              else do {
                (ret, sv) \<leftarrow> tls_try_handshake (a_handshake env) sv (nat slot);
                Some (0, sv)
              }
            }
          }
        })"

text \<open>\<open>while (SSL_read(c->ssl, discard, sizeof(discard)) > 0)\<close>\<close>

fun discard_loop :: "nat \<Rightarrow> 'w reader \<Rightarrow> 'w \<Rightarrow> 'w option" where
  "discard_loop 0 rd w = None"
| "discard_loop (Suc k) rd w =
     (case rd w 512 of (RxData bs, w) \<Rightarrow> discard_loop k rd w | (_, w) \<Rightarrow> Some w)"

definition handle_request_client ::
  "nat \<Rightarrow> 'w reader \<Rightarrow> handshake \<Rightarrow> u64 \<Rightarrow> u64 \<Rightarrow> read_env \<Rightarrow> 'w \<Rightarrow> server \<Rightarrow> int \<Rightarrow>
   (int \<times> 'w \<times> server) option" where
  "handle_request_client k rd hs now now' env w sv client_fd =
     (if client_fd < 0 then Some (-1, w, sv)
      else do {
        slot \<leftarrow> fd_to_slot (sv_clients sv) client_fd (int MAX_CLIENTS);
        if slot < 0 then Some (-1, w, sv)
        else do {
          let c = sv_clients sv ! nat slot;
          if \<not> c_alive c then Some (-1, w, sv)
          else if \<not> c_tls_handshake_done c then do {
            (ret, sv) \<leftarrow> tls_try_handshake hs sv (nat slot);
            Some (if ret < 0 then -1 else 0, w, sv)
          }
          else do {
            let (allow, rate) = request_allow now now' (c_rate c);
            let sv = put_client sv (nat slot) (c \<lparr> c_rate := rate \<rparr>);
            if \<not> allow then do { w \<leftarrow> discard_loop k rd w; Some (1, w, sv) }
            else do {
              (ret, w, sv) \<leftarrow> client_read_message k rd env w sv (nat slot);
              if ret = -1 \<or> ret = 1 then do { sv \<leftarrow> drop_client sv (nat slot); Some (-1, w, sv) }
              else Some (0, w, sv)
            }
          }
        }
      })"

text \<open>
  The loop of \<open>handle_response_to_client\<close>, starting from the response \<open>rp\<close> just popped. Each
  valid response takes the next pair of allocations of \<open>ms\<close>: the packet block, as its
  indeterminate contents for the size asked for, and the queue node. An exhausted list is
  \<open>malloc\<close> returning NULL.
\<close>

type_synonym allocations = "((nat \<Rightarrow> bytes) option \<times> addr option) list"

definition deliver_response ::
  "server \<Rightarrow> addr \<Rightarrow> response \<Rightarrow> allocations \<Rightarrow> (server \<times> allocations) option" where
  "deliver_response sv rp r ms =
     (let slot = r_slot r; freed = sv \<lparr> m_responses := (m_responses sv)(rp := None) \<rparr> in
      if slot < 0 \<or> slot \<ge> int MAX_CLIENTS then Some (freed, ms)
      else if nat slot \<ge> length (sv_clients sv) then None
      else let c = sv_clients sv ! nat slot in
        if \<not> (c_alive c \<and> check_response_message r c) then Some (freed, ms)
        else do {
          let (blk, node) = (case ms of [] \<Rightarrow> (None, None) | m # _ \<Rightarrow> m);
          let total_len = unat (word_of_nat HEADER_SIZE + r_length r + word_of_nat CRC_SIZE);
          data \<leftarrow> packet_response_message r (map_option (\<lambda>f. f total_len) blk);
          case data of
            None \<Rightarrow> Some (freed, tl ms)
          | Some packet \<Rightarrow> do {
              (ret, h, c) \<leftarrow> enqueue_message (m_data sv) c data
                (unat (r_length r + word_of_nat CRC_SIZE + word_of_nat HEADER_SIZE)) node;
              if ret \<noteq> 0 then Some (freed, tl ms)
              else Some ((put_client freed (nat slot) c) \<lparr> m_data := h,
                k_epoll := snd (epoll_mod (k_epoll sv) EPOLLIN_OUT (c_fd c)) \<rparr>, tl ms)
            }
        })"

fun response_loop ::
  "nat \<Rightarrow> server \<Rightarrow> allocations \<Rightarrow> addr option \<Rightarrow> server option" where
  "response_loop 0 sv ms rp = None"
| "response_loop (Suc k) sv ms rp =
     (case rp of
        None \<Rightarrow> Some sv
      | Some a \<Rightarrow> do {
          r \<leftarrow> m_responses sv a;
          (sv, ms) \<leftarrow> deliver_response sv a r ms;
          (rp, h, q) \<leftarrow> response_queue_pop (m_responses sv) (sv_response sv);
          response_loop k (sv \<lparr> m_responses := h, sv_response := q \<rparr>) ms rp
        })"

definition handle_response_to_client ::
  "nat \<Rightarrow> allocations \<Rightarrow> server \<Rightarrow> (int \<times> server) option" where
  "handle_response_to_client k ms sv = do {
     (rp, h, q) \<leftarrow> response_queue_pop (m_responses sv) (sv_response sv);
     sv \<leftarrow> response_loop k (sv \<lparr> m_responses := h, sv_response := q \<rparr>) ms rp;
     Some (0, sv)
   }"

definition handle_client_sendable ::
  "nat \<Rightarrow> nat \<Rightarrow> (ssl_error, 'w) sender \<Rightarrow> handshake \<Rightarrow> u64 \<Rightarrow> 'w \<Rightarrow> server \<Rightarrow> int \<Rightarrow>
   (int \<times> 'w \<times> server) option" where
  "handle_client_sendable f k tx hs now w sv client_fd =
     (if client_fd < 0 then Some (-1, w, sv)
      else do {
        slot \<leftarrow> fd_to_slot (sv_clients sv) client_fd (int MAX_CLIENTS);
        if slot < 0 then Some (-1, w, sv)
        else do {
          let c = sv_clients sv ! nat slot;
          if \<not> c_alive c then Some (-1, w, sv)
          else if \<not> c_tls_handshake_done c then do {
            (ret, sv) \<leftarrow> tls_try_handshake hs sv (nat slot);
            Some (if ret < 0 then -1 else 0, w, sv)
          }
          else do {
            (ret, w, ep, h, c) \<leftarrow> client_flush_tx_tls f k tx now w (k_epoll sv) (m_data sv) c;
            let sv = (put_client sv (nat slot) c) \<lparr> k_epoll := ep, m_data := h \<rparr>;
            if ret < 0 \<or> ret = 2 then do { sv \<leftarrow> drop_client sv (nat slot); Some (-1, w, sv) }
            else if ret = 1 then Some (0, w, sv)
            else let (ret, ep) = epoll_mod (k_epoll sv) EPOLLIN client_fd in
              Some (if ret < 0 then -1 else 0, w, sv \<lparr> k_epoll := ep \<rparr>)
          }
        }
      })"

text \<open>
  \<open>handle_discovery\<close>: \<open>dgram\<close> is the answer of \<open>recvfrom\<close> into the 15 usable bytes of
  \<open>buffer\<close>, \<open>sent\<close> the return value of \<open>sendto\<close>; the result carries the datagram sent, if any.
\<close>

definition discovery_reply :: bytes where
  "discovery_reply = ascii ''{\"gateway\":\"iot-gw\",\"tcp_port\":5555,\"udp_port\":5556}''"

definition handle_discovery :: "rx_result \<Rightarrow> int \<Rightarrow> int \<times> bytes option" where
  "handle_discovery dgram sent =
     (case dgram of
        RxErr err \<Rightarrow> (if err = EAGAIN \<or> err = EINTR then 0 else -1, None)
      | RxEof \<Rightarrow> (0, None)
      | RxData bs \<Rightarrow>
          let buffer = take 15 bs @ [0] in
          if takeWhile (\<lambda>b. b \<noteq> 0) buffer \<noteq> ascii ''DISCOVERY'' then (0, None)
          else (if sent \<noteq> int (length discovery_reply) then -1 else 0, Some discovery_reply))"

definition IDLE_TIMEOUT_SEC :: u64 where "IDLE_TIMEOUT_SEC = 60"

text \<open>One round of the loop of \<open>reap_client\<close>, and the loop.\<close>

definition reap_slot :: "u64 \<Rightarrow> server \<Rightarrow> nat \<Rightarrow> server option" where
  "reap_slot now sv i =
     (if i \<ge> length (sv_clients sv) then None
      else let c = sv_clients sv ! i in
        if c_fd c \<ge> 0 \<and> \<not> c_alive c then drop_client sv i
        else if c_fd c < 0 then Some sv
        else if (now - c_last_active_ms c) div 1000 > IDLE_TIMEOUT_SEC then drop_client sv i
        else Some sv)"

fun reap_loop :: "u64 \<Rightarrow> server \<Rightarrow> nat list \<Rightarrow> server option" where
  "reap_loop now sv [] = Some sv"
| "reap_loop now sv (i # is) = do { sv \<leftarrow> reap_slot now sv i; reap_loop now sv is }"

definition reap_client :: "u64 \<Rightarrow> server \<Rightarrow> (int \<times> server) option" where
  "reap_client now sv = do { sv \<leftarrow> reap_loop now sv [0..<MAX_CLIENTS]; Some (0, sv) }"

definition server_shutdown :: "server \<Rightarrow> int \<times> server" where
  "server_shutdown sv = (0, sv \<lparr> sv_shutdown := True, sv_tasks := snd (task_queue_shutdown (sv_tasks sv)) \<rparr>)"

fun close_all :: "server \<Rightarrow> nat list \<Rightarrow> server option" where
  "close_all sv [] = Some sv"
| "close_all sv (i # is) = do { sv \<leftarrow> drop_client sv i; close_all sv is }"

definition server_cleanup :: "server \<Rightarrow> (int \<times> server) option" where
  "server_cleanup sv = do {
     sv \<leftarrow> close_all sv [0..<MAX_CLIENTS];
     let sv = sv \<lparr> sv_tls_ctx := None \<rparr>;
     (ret, h, q) \<leftarrow> task_queue_destroy (m_tasks sv) (sv_tasks sv);
     Some (0, sv \<lparr> m_tasks := h, sv_tasks := q, sv_response := response_queue_destroy (sv_response sv) \<rparr>)
   }"

end
