(* ===== verification/Server_Invariant.thy ===== *)
theory Server_Invariant
  imports Server
begin

text \<open>
  The invariant of the gateway's event loop. Every slot's transmit queue is a well-formed list
  of whole messages and no two slots share a node; every live client is between two reads of
  the frame reader; the response queue is a well-formed list. Each handler keeps the invariant
  and, but for the task queue (theory \<open>Queue\<close>), runs without undefined behaviour.
\<close>

section \<open>The invariant\<close>

definition slot_ok :: "client \<Rightarrow> bool" where
  "slot_ok c = (length (c_data_receive c) = RX_BUF_CAP \<and> rate_inv (c_rate c) \<and>
     (c_fd c = -1 \<or> 0 \<le> c_fd c) \<and> (c_alive c \<longrightarrow> 0 \<le> c_fd c \<and> c_ssl c \<noteq> None \<and> client_inv c))"

definition tx_own :: "client list \<Rightarrow> data_transmit heap \<Rightarrow> (nat \<Rightarrow> addr list) \<Rightarrow> bool" where
  "tx_own cs h own =
     (length cs = MAX_CLIENTS \<and>
      (\<forall>i < MAX_CLIENTS. tx_queue h (cs ! i) (own i) \<and>
         (\<forall>a \<in> set (own i). \<exists>n. h a = Some n \<and> message_node n)) \<and>
      (\<forall>i < MAX_CLIENTS. \<forall>j < MAX_CLIENTS. i \<noteq> j \<longrightarrow> set (own i) \<inter> set (own j) = {}))"

text \<open>Responses fit their payload array, as \<open>make_response\<close> builds them.\<close>

definition response_ok :: "response \<Rightarrow> bool" where
  "response_ok r = (length (r_payload r) = MAX_PAYLOAD \<and> unat (r_length r) \<le> MAX_PAYLOAD)"

definition responses_ok :: "response heap \<Rightarrow> response_queue \<Rightarrow> bool" where
  "responses_ok h q =
     (\<exists>as. response_holds (h, q) as \<and> (\<forall>a \<in> set as. \<exists>r. h a = Some r \<and> response_ok r))"

definition sv_inv :: "server \<Rightarrow> bool" where
  "sv_inv sv = ((\<exists>own. tx_own (sv_clients sv) (m_data sv) own) \<and> (\<forall>c \<in> set (sv_clients sv). slot_ok c) \<and>
     responses_ok (m_responses sv) (sv_response sv))"

lemma chain_agree: "\<forall>b \<in> set as. h' b = h b \<Longrightarrow> chain nx h' p as = chain nx h p as"
  by (induction as arbitrary: p) (auto split: option.splits)

lemma tx_queue_agree: "\<forall>b \<in> set as. h' b = h b \<Longrightarrow> tx_queue h' c as = tx_queue h c as"
  using chain_agree [of as h' h d_next_data "c_head c"] by (simp add: tx_queue_def linked_fifo_def)

lemma tx_own_put:
  assumes own: "tx_own cs h own" and i: "i < MAX_CLIENTS" and q: "tx_queue h' c' as"
    and n: "\<forall>a \<in> set as. \<exists>n. h' a = Some n \<and> message_node n"
    and frame: "\<forall>b. b \<notin> set (own i) \<longrightarrow> b \<notin> set as \<longrightarrow> h' b = h b"
    and new: "\<forall>a \<in> set as. a \<in> set (own i) \<or> h a = None"
  shows "tx_own (cs [i := c']) h' (own (i := as))"
proof -
  note o = own [unfolded tx_own_def]
  have sep: "set as \<inter> set (own j) = {}" if j: "j < MAX_CLIENTS" "j \<noteq> i" for j
  proof -
    have "\<forall>a \<in> set (own j). h a \<noteq> None" using o j(1) by fastforce
    moreover have "set (own i) \<inter> set (own j) = {}" using o j i by simp
    ultimately show ?thesis using new by blast
  qed
  have other: "tx_queue h' (cs ! j) (own j) \<and> (\<forall>a \<in> set (own j). \<exists>n. h' a = Some n \<and> message_node n)"
    if j: "j < MAX_CLIENTS" "j \<noteq> i" for j
  proof -
    have "set (own i) \<inter> set (own j) = {}" using o j i by simp
    then have "\<forall>b \<in> set (own j). h' b = h b" using frame sep [OF j] by blast
    then show ?thesis using o j(1) tx_queue_agree [of "own j" h' h "cs ! j"] by simp
  qed
  show ?thesis
    unfolding tx_own_def
  proof (intro conjI allI impI)
    show "length (cs [i := c']) = MAX_CLIENTS" using o by simp
  next
    fix j assume "j < MAX_CLIENTS"
    then show "tx_queue h' (cs [i := c'] ! j) ((own (i := as)) j)"
      and "\<forall>a \<in> set ((own (i := as)) j). \<exists>n. h' a = Some n \<and> message_node n"
      using q n other o by (cases "j = i", simp_all)+
  next
    fix j l assume "j < MAX_CLIENTS" "l < MAX_CLIENTS" "j \<noteq> l"
    then show "set ((own (i := as)) j) \<inter> set ((own (i := as)) l) = {}"
      using sep o by (cases "j = i"; cases "l = i") (auto simp: Int_commute)
  qed
qed

lemma slot_ok_put: "\<forall>c \<in> set cs. slot_ok c \<Longrightarrow> slot_ok c' \<Longrightarrow> \<forall>c \<in> set (cs [i := c']). slot_ok c"
  using set_update_subset_insert [of cs i c'] by blast

text \<open>Replacing a client by one with the same transmit queue.\<close>

lemma tx_own_same:
  assumes "tx_own cs h own" and "i < MAX_CLIENTS" and "c_head c' = c_head (cs ! i)" and "c_tail c' = c_tail (cs ! i)"
  shows "tx_own (cs [i := c']) h own"
  using tx_own_put [OF assms(1,2), of h c' "own i"] assms tx_queue_cong [of c' "cs ! i" h "own i"]
  by (simp add: tx_own_def)

lemma sv_inv_put_client:
  assumes "sv_inv sv" and "i < MAX_CLIENTS" and "slot_ok c'"
    and "c_head c' = c_head (sv_clients sv ! i)" and "c_tail c' = c_tail (sv_clients sv ! i)"
  shows "sv_inv (put_client sv i c')"
proof -
  obtain own where "tx_own (sv_clients sv) (m_data sv) own" using assms(1) by (auto simp: sv_inv_def)
  then have "tx_own ((sv_clients sv) [i := c']) (m_data sv) own" using assms by (intro tx_own_same)
  moreover have "\<forall>c \<in> set ((sv_clients sv) [i := c']). slot_ok c"
    using assms by (intro slot_ok_put) (simp_all add: sv_inv_def)
  ultimately show ?thesis using assms(1) by (auto simp: sv_inv_def put_client_def)
qed

lemma sv_inv_epoll [simp]: "sv_inv (sv \<lparr> k_epoll := ep \<rparr>) = sv_inv sv"
  by (simp add: sv_inv_def)

lemma sv_inv_length: "sv_inv sv \<Longrightarrow> length (sv_clients sv) = MAX_CLIENTS"
  by (auto simp: sv_inv_def tx_own_def)

lemma sv_inv_slot: "sv_inv sv \<Longrightarrow> i < MAX_CLIENTS \<Longrightarrow> slot_ok (sv_clients sv ! i)"
  using sv_inv_length [of sv] by (auto simp: sv_inv_def)

section \<open>Closing and opening slots\<close>

lemma drop_client_inv:
  assumes inv: "sv_inv sv" and i: "i < MAX_CLIENTS"
  shows "\<exists>sv'. drop_client sv i = Some sv' \<and> sv_inv sv' \<and> \<not> c_alive (sv_clients sv' ! i) \<and>
    c_fd (sv_clients sv' ! i) = -1 \<and> (\<forall>j. j \<noteq> i \<longrightarrow> sv_clients sv' ! j = sv_clients sv ! j) \<and>
    sv' = sv \<lparr> sv_clients := sv_clients sv', m_data := m_data sv', k_epoll := k_epoll sv' \<rparr>"
proof -
  let ?c = "sv_clients sv ! i" and ?cs = "sv_clients sv"
  obtain own where own: "tx_own ?cs (m_data sv) own" using inv by (auto simp: sv_inv_def)
  then have q: "tx_queue (m_data sv) ?c (own i)" and l: "i < length ?cs" using i by (auto simp: tx_own_def)
  have ok: "slot_ok ?c" using sv_inv_slot [OF inv i] .
  let ?c' = "?c \<lparr> c_fd := -1, c_ssl := None, c_alive := False, c_head := None, c_tail := None,
    c_bytes_need_to_send := 0, c_rx_len := 0 \<rparr>"
  let ?h = "\<lambda>b. if b \<in> set (own i) then None else m_data sv b"
  have fd: "c_fd ?c < 0 \<Longrightarrow> c_fd ?c = -1" using ok by (auto simp: slot_ok_def)
  have "?c \<lparr> c_fd := (if c_fd ?c \<ge> 0 then -1 else c_fd ?c), c_ssl := None, c_alive := False,
       c_head := None, c_tail := None, c_bytes_need_to_send := 0, c_rx_len := 0 \<rparr> = ?c'"
    using fd by (cases "c_fd ?c \<ge> 0") simp_all
  with close_client_frees [OF l q, of "k_epoll sv"]
  have d: "drop_client sv i = Some (sv \<lparr> sv_clients := ?cs [i := ?c'], m_data := ?h,
      k_epoll := (if c_fd ?c \<ge> 0 then (k_epoll sv)(c_fd ?c := None) else k_epoll sv) \<rparr>)"
    by (simp add: drop_client_def)
  have "tx_own (?cs [i := ?c']) ?h (own (i := []))"
    using own i by (rule tx_own_put) (simp_all add: tx_queue_def linked_fifo_def)
  moreover have "\<forall>c \<in> set (?cs [i := ?c']). slot_ok c"
    using inv ok by (intro slot_ok_put) (auto simp: sv_inv_def slot_ok_def)
  ultimately show ?thesis
    unfolding d using l inv
    by (intro exI [of _ "sv \<lparr> sv_clients := ?cs [i := ?c'], m_data := ?h,
        k_epoll := (if c_fd ?c \<ge> 0 then (k_epoll sv)(c_fd ?c := None) else k_epoll sv) \<rparr>"])
      (auto simp: sv_inv_def)
qed

lemma handshake_inv:
  assumes inv: "sv_inv sv" and i: "i < MAX_CLIENTS" and ssl: "c_ssl (sv_clients sv ! i) \<noteq> None"
  shows "\<exists>r sv'. tls_try_handshake hs sv i = Some (r, sv') \<and> sv_inv sv'"
proof -
  let ?c = "sv_clients sv ! i"
  have "slot_ok (?c \<lparr> c_tls_handshake_done := True \<rparr>)"
    using sv_inv_slot [OF inv i] client_inv_cong [of "?c \<lparr> c_tls_handshake_done := True \<rparr>" ?c]
    by (simp add: slot_ok_def)
  then have "sv_inv (put_client sv i (?c \<lparr> c_tls_handshake_done := True \<rparr>))"
    using inv i by (intro sv_inv_put_client) simp_all
  then show ?thesis
    using inv i ssl sv_inv_length [OF inv] drop_client_inv [OF inv i]
    by (cases hs) (auto simp: tls_try_handshake_def Let_def)
qed

lemma client_open_ok:
  "slot_ok c \<Longrightarrow> 0 \<le> fd \<Longrightarrow> slot_ok ((client_open c fd addr now now') \<lparr> c_ssl := Some s \<rparr>) \<and>
   slot_ok ((client_open c fd addr now now') \<lparr> c_ssl := p, c_alive := False \<rparr>)"
  using rate_inv_init [of now'] by (simp add: slot_ok_def client_open_def client_inv_def HEADER_SIZE_def)

definition accept_env_ok :: "accept_env \<Rightarrow> bool" where
  "accept_env_ok env = (\<forall>fd addr. a_accept env = Accepted fd addr \<longrightarrow> 0 \<le> fd)"

lemma open_inv:
  assumes inv: "sv_inv sv" and fd: "0 \<le> fd" and i: "i < MAX_CLIENTS"
  shows "sv_inv (put_client sv i ((client_open (sv_clients sv ! i) fd addr now now') \<lparr> c_ssl := Some s \<rparr>))"
    and "sv_inv (put_client sv i ((client_open (sv_clients sv ! i) fd addr now now') \<lparr> c_ssl := p, c_alive := False \<rparr>))"
proof -
  have *: "sv_inv (put_client sv i c)" if "c_head c = None" "c_tail c = None" "slot_ok c" for c
  proof -
    obtain own where own: "tx_own (sv_clients sv) (m_data sv) own" using inv by (auto simp: sv_inv_def)
    have "tx_own ((sv_clients sv) [i := c]) (m_data sv) (own (i := []))"
      using that by (intro tx_own_put [OF own i]) (auto simp: tx_queue_def linked_fifo_def)
    moreover have "\<forall>c \<in> set ((sv_clients sv) [i := c]). slot_ok c"
      using inv that(3) by (intro slot_ok_put) (simp_all add: sv_inv_def)
    ultimately show ?thesis using inv by (auto simp: sv_inv_def put_client_def)
  qed
  show "sv_inv (put_client sv i ((client_open (sv_clients sv ! i) fd addr now now') \<lparr> c_ssl := Some s \<rparr>))"
    and "sv_inv (put_client sv i ((client_open (sv_clients sv ! i) fd addr now now') \<lparr> c_ssl := p, c_alive := False \<rparr>))"
    using client_open_ok [OF sv_inv_slot [OF inv i] fd, where addr = addr and now = now and now' = now']
    by (intro *; simp add: client_open_def)+
qed

text \<open>Closing a client does not look at its \<open>alive\<close> flag.\<close>

lemma drop_client_dead:
  assumes "i < length (sv_clients sv)"
  shows "drop_client (put_client sv i ((sv_clients sv ! i) \<lparr> c_alive := False \<rparr>)) i = drop_client sv i"
  using assms by (simp add: drop_client_def close_client_def put_client_def Let_def cong: if_cong)

lemma drop_after_read:
  assumes "sv_inv (put_client sv i ((sv_clients sv ! i) \<lparr> c_alive := False \<rparr>))" and "i < MAX_CLIENTS"
  shows "\<exists>sv'. drop_client sv i = Some sv' \<and> sv_inv sv'"
proof -
  have "i < length (sv_clients sv)" using sv_inv_length [OF assms(1)] assms(2) by (simp add: put_client_def)
  from drop_client_dead [OF this] drop_client_inv [OF assms] show ?thesis by auto
qed

lemma handle_accept_inv:
  assumes inv: "sv_inv sv" and env: "accept_env_ok env"
  shows "\<exists>r sv'. handle_accept_client env sv = Some (r, sv') \<and> sv_inv sv'"
proof (cases "a_accept env")
  case (Accept_err e)
  then show ?thesis using inv by (simp add: handle_accept_client_def)
next
  case (Accepted fd addr)
  with env have fd: "0 \<le> fd" by (simp add: accept_env_ok_def)
  let ?cs = "sv_clients sv"
  let ?o = "\<lambda>i. client_open (?cs ! i) fd addr (a_now env) (a_now_rate env)"
  have L: "length ?cs = MAX_CLIENTS" using sv_inv_length [OF inv] .
  show ?thesis
  proof (cases "\<exists>i < MAX_CLIENTS. c_fd (?cs ! i) = -1")
    case False
    then have "client_alloc ?cs (int MAX_CLIENTS) fd addr (a_now env) (a_now_rate env) = Some (-1, ?cs)"
      using L by (intro client_alloc_full) (auto simp: MAX_CLIENTS_def)
    then show ?thesis using Accepted inv by (simp add: handle_accept_client_def)
  next
    case True
    then obtain j where "j < MAX_CLIENTS" "c_fd (?cs ! j) = -1" by blast
    with L client_alloc_free [of "int MAX_CLIENTS" ?cs fd j addr "a_now env" "a_now_rate env"] fd
    obtain i where i: "i < MAX_CLIENTS"
      and a: "client_alloc ?cs (int MAX_CLIENTS) fd addr (a_now env) (a_now_rate env) = Some (int i, ?cs [i := ?o i])"
      by (auto simp: MAX_CLIENTS_def)
    obtain ret ep where ep: "epoll_add (a_epoll_ok env) (k_epoll sv) EPOLLIN fd = (ret, ep)" by fastforce
    let ?sv1 = "(put_client sv i (?o i)) \<lparr> k_epoll := ep \<rparr>"
    let ?sv2 = "put_client (sv \<lparr> k_epoll := ep \<rparr>) i ((?o i) \<lparr> c_ssl := a_ssl env \<rparr>)"
    note op = open_inv [OF inv fd i, where addr = addr and now = "a_now env" and now' = "a_now_rate env"]
    have h: "handle_accept_client env sv =
        (if ret < 0 then do { sv \<leftarrow> drop_client ?sv1 i; Some (-1, sv) }
         else if a_ssl env = None \<or> \<not> a_set_fd env then do { sv \<leftarrow> drop_client ?sv2 i; Some (-1, sv) }
         else do { (ret, sv) \<leftarrow> tls_try_handshake (a_handshake env) ?sv2 i; Some (0, sv) })"
      using Accepted a ep i L by (simp add: handle_accept_client_def put_client_def Let_def)
    have "(?o i) \<lparr> c_ssl := c_ssl (?o i), c_alive := False \<rparr> = (?o i) \<lparr> c_alive := False \<rparr>"
      by (cases "?o i") simp
    with op(2) [where p = "c_ssl (?o i)"] have "sv_inv (put_client sv i ((?o i) \<lparr> c_alive := False \<rparr>))" by simp
    then have "\<exists>sv3. drop_client ?sv1 i = Some sv3 \<and> sv_inv sv3"
      using i L by (intro drop_after_read) (simp_all add: put_client_def sv_inv_def)
    moreover have "\<exists>sv4. drop_client ?sv2 i = Some sv4 \<and> sv_inv sv4"
      using op(2) [where p = "a_ssl env"] i L by (intro drop_after_read) (simp_all add: put_client_def sv_inv_def)
    moreover have "\<exists>r sv5. tls_try_handshake (a_handshake env) ?sv2 i = Some (r, sv5) \<and> sv_inv sv5"
      if "a_ssl env = Some x" for x
      using op(1) [where s = x] i L that by (intro handshake_inv) (simp_all add: put_client_def sv_inv_def)
    ultimately show ?thesis unfolding h by (cases "a_ssl env") auto
  qed
qed

section \<open>Reading a request\<close>

definition read_env_ok :: "read_env \<Rightarrow> server \<Rightarrow> bool" where
  "read_env_ok env sv =
     ((\<forall>b. e_packet env = Some b \<longrightarrow> length b = 21) \<and> (\<forall>a. e_node env = Some a \<longrightarrow> m_data sv a = None) \<and>
      (\<forall>a t. e_task env = Some (a, t) \<longrightarrow> m_tasks sv a = None \<and> length (t_payload t) = MAX_PAYLOAD))"

lemma build_error_cases:
  assumes "\<forall>b. blk = Some b \<longrightarrow> length b = 21"
  shows "build_error_packet blk rid e = Some None \<or>
    build_error_packet blk rid e = Some (Some (wire_frame MSG_ERROR rid [e], 21))"
  using assms build_error_packet_frame [of _ rid e]
  by (cases blk) (auto simp: build_error_packet_def Let_def)

lemma enqueue_inv:
  assumes inv: "sv_inv (put_client sv i c)" and i: "i < length (sv_clients sv)"
    and node: "\<forall>a. node = Some a \<longrightarrow> m_data sv a = None" and n: "n = length packet" "0 < n" "n < 2 ^ 64"
  shows "\<exists>ret h c'. enqueue_message (m_data sv) c (Some packet) n node = Some (ret, h, c') \<and>
    sv_inv ((put_client sv i c') \<lparr> m_data := h \<rparr>) \<and> c_fd c' = c_fd c"
proof (cases node)
  case None
  then show ?thesis using inv by (simp add: enqueue_message_def put_client_def)
next
  case (Some a)
  let ?cs = "(sv_clients sv) [i := c]"
  have L: "length (sv_clients sv) = MAX_CLIENTS" using sv_inv_length [OF inv] by (simp add: put_client_def)
  obtain own where own: "tx_own ?cs (m_data sv) own" using inv by (auto simp: sv_inv_def put_client_def)
  have q: "tx_queue (m_data sv) c (own i)" "\<forall>b \<in> set (own i). \<exists>n. m_data sv b = Some n \<and> message_node n"
    using own i L by (auto simp: tx_own_def)
  from enqueue_message_appends [OF q(1), of a packet n] node Some obtain h c' where
    e: "enqueue_message (m_data sv) c (Some packet) n node = Some (0, h, c')"
    and q': "tx_queue h c' (own i @ [a])" "h a = Some \<lparr> d_data = packet, d_len = n, d_offset = 0, d_next_data = None \<rparr>"
    and f: "\<forall>b. b \<noteq> a \<longrightarrow> map_option (\<lambda>n. n \<lparr> d_next_data := None \<rparr>) (h b) = map_option (\<lambda>n. n \<lparr> d_next_data := None \<rparr>) (m_data sv b)"
      "\<forall>b. b \<noteq> a \<longrightarrow> b \<notin> set (own i) \<longrightarrow> h b = m_data sv b"
    and c': "c' = c \<lparr> c_head := c_head c', c_tail := Some a, c_bytes_need_to_send := c_bytes_need_to_send c + word_of_nat n \<rparr>"
    by auto
  have "\<exists>n. h b = Some n \<and> message_node n" if "b \<in> set (own i @ [a])" for b
  proof (cases "b = a")
    case True
    then show ?thesis using q'(2) n by (simp add: message_node_def)
  next
    case False
    with that q(2) f(1) obtain x y where "m_data sv b = Some x" "message_node x" "h b = Some y"
      "y \<lparr> d_next_data := None \<rparr> = x \<lparr> d_next_data := None \<rparr>" by fastforce
    then have "d_data y = d_data x" "d_len y = d_len x" "d_offset y = d_offset x"
      by (metis data_transmit.select_convs data_transmit.surjective data_transmit.update_convs(4))+
    with \<open>message_node x\<close> \<open>h b = Some y\<close> show ?thesis by (auto simp: message_node_def)
  qed
  then have "tx_own (?cs [i := c']) h (own (i := own i @ [a]))"
    using own i L q' f node Some by (intro tx_own_put) auto
  moreover have "slot_ok c'"
  proof -
    have "slot_ok c" using sv_inv_slot [OF inv, of i] i L by (simp add: put_client_def)
    moreover have "c_stage c' = c_stage c" "c_data_receive c' = c_data_receive c" "c_rx_len c' = c_rx_len c"
      "c_rate c' = c_rate c" "c_fd c' = c_fd c" "c_alive c' = c_alive c" "c_ssl c' = c_ssl c" by (subst c', simp)+
    ultimately show ?thesis using client_inv_cong [of c' c] by (simp add: slot_ok_def)
  qed
  moreover have "\<forall>c \<in> set ?cs. slot_ok c" using inv by (simp add: sv_inv_def put_client_def)
  ultimately have "sv_inv ((put_client sv i c') \<lparr> m_data := h \<rparr>)"
    using inv slot_ok_put [of ?cs c' i] by (auto simp: sv_inv_def put_client_def)
  moreover have "c_fd c' = c_fd c" by (subst c') simp
  ultimately show ?thesis using e by blast
qed

lemma queue_error_inv:
  assumes inv: "sv_inv (put_client sv i c)" and i: "i < length (sv_clients sv)"
    and node: "\<forall>a. node = Some a \<longrightarrow> m_data sv a = None"
  shows "\<exists>sv'. queue_error sv i c (wire_frame t r [e]) 21 node = Some sv' \<and> sv_inv sv'"
proof -
  from enqueue_inv [OF inv i node, of 21 "wire_frame t r [e]"] obtain ret h c' where
    "enqueue_message (m_data sv) c (Some (wire_frame t r [e])) 21 node = Some (ret, h, c')"
    "sv_inv ((put_client sv i c') \<lparr> m_data := h \<rparr>)" by auto
  then show ?thesis by (simp add: queue_error_def)
qed

text \<open>The task queue's tail is NULL or points to an allocated task.\<close>

definition tail_ok :: "server \<Rightarrow> bool" where
  "tail_ok sv = (\<forall>z. tq_tail (sv_tasks sv) = Some z \<longrightarrow> m_tasks sv z \<noteq> None)"

lemma push_defined:
  assumes "h a \<noteq> None" and "\<forall>z. tq_tail q = Some z \<longrightarrow> h z \<noteq> None"
  shows "\<exists>r h' q'. push h q (Some a) = Some (r, h', q')"
  using assms by (cases "tq_tail q") (auto simp: push_def)

lemma frame_done_ok:
  assumes "slot_ok c" and "length (c_data_receive c') = RX_BUF_CAP"
    and "c_rate c' = c_rate c" and "c_fd c' = c_fd c" and "c_alive c' = c_alive c" and "c_ssl c' = c_ssl c"
  shows "slot_ok (frame_done c')" and "slot_ok ((frame_done c') \<lparr> c_last_active_ms := t \<rparr>)"
  using assms by (simp_all add: slot_ok_def frame_done_def client_inv_def HEADER_SIZE_def)

text \<open>
  In the lemmas on reading, the one way to undefined behaviour is a push through a dangling tail
  of the task queue.
\<close>

lemma accept_frame_inv:
  assumes inv: "sv_inv (put_client sv i (frame_done c))" and i: "i < MAX_CLIENTS"
    and L: "length (sv_clients sv) = MAX_CLIENTS"
    and c: "length (c_data_receive c) = RX_BUF_CAP" "0 \<le> c_fd c"
    and len: "decode_32_bit (c_data_receive c) 8 = Some len" "unat len \<le> MAX_PAYLOAD"
    and env: "read_env_ok env sv"
  shows "(\<exists>sv'. accept_frame env sv i c = Some sv' \<and> sv_inv sv') \<or> accept_frame env sv i c = None \<and> \<not> tail_ok sv"
proof -
  obtain t r where dec: "decode_16_bit (c_data_receive c) 6 = Some t" "decode_32_bit (c_data_receive c) 12 = Some r"
    using c by (simp add: decode_16_bit_def decode_32_bit_def RX_BUF_CAP_def)
  let ?hdr = "\<lparr> h_magic = 0, h_version = 0, h_type = t, h_length = len, h_request_id = r \<rparr>"
  have "length (sv_clients (put_client sv i c)) = MAX_CLIENTS" using L by (simp add: put_client_def)
  then obtain s where s: "fd_to_slot (sv_clients (put_client sv i c)) (c_fd c) (int MAX_CLIENTS) = Some s"
    using fd_to_slot_cases [of "int MAX_CLIENTS" "sv_clients (put_client sv i c)" "c_fd c"] c(2) by auto
  have task: "\<exists>x h'. build_task (m_tasks sv) c ?hdr s (e_now_task env) (e_task env) = Some (x, h') \<and>
      (x = None \<or> (\<exists>a. x = Some a \<and> h' a \<noteq> None)) \<and>
      (\<forall>z. m_tasks sv z \<noteq> None \<longrightarrow> h' z \<noteq> None)"
  proof (cases "s < 0 \<or> e_task env = None")
    case True
    then show ?thesis by (auto simp: build_task_def)
  next
    case False
    then obtain a t where a: "e_task env = Some (a, t)" by auto
    with env have "length (t_payload t) = MAX_PAYLOAD" by (simp add: read_env_ok_def)
    with False a build_task_payload [of s ?hdr c t "m_tasks sv" "e_now_task env" a] len c show ?thesis by auto
  qed
  have lst: "sv_inv (put_client sv i ((frame_done c) \<lparr> c_last_active_ms := e_now env \<rparr>))"
  proof -
    have "slot_ok (frame_done c)" using sv_inv_slot [OF inv i] i L by (simp add: put_client_def)
    then have "slot_ok ((frame_done c) \<lparr> c_last_active_ms := e_now env \<rparr>)"
      using client_inv_cong [of "(frame_done c) \<lparr> c_last_active_ms := e_now env \<rparr>" "frame_done c"]
      by (simp add: slot_ok_def)
    from sv_inv_put_client [OF inv i this] i L show ?thesis by (simp add: put_client_def)
  qed
  from task obtain x h' where x: "build_task (m_tasks sv) c ?hdr s (e_now_task env) (e_task env) = Some (x, h')"
    "x = None \<or> (\<exists>a. x = Some a \<and> h' a \<noteq> None)" "\<forall>z. m_tasks sv z \<noteq> None \<longrightarrow> h' z \<noteq> None" by blast
  have "sv_inv ((put_client sv i ((frame_done c) \<lparr> c_last_active_ms := e_now env \<rparr>)) \<lparr> m_tasks := h, sv_tasks := q \<rparr>)" for h q
    using lst by (simp add: sv_inv_def)
  moreover have "\<exists>h q. (case x of None \<Rightarrow> Some (h', sv_tasks sv)
      | Some a \<Rightarrow> do { (ret, h, q) \<leftarrow> push h' (sv_tasks sv) x; Some (if ret < 0 then h(a := None) else h, q) }) = Some (h, q)"
    if tail: "tail_ok sv"
  proof (cases x)
    case (Some a)
    then obtain r h q where "push h' (sv_tasks sv) (Some a) = Some (r, h, q)"
      using x push_defined [of h' a "sv_tasks sv"] tail by (auto simp: tail_ok_def)
    with Some show ?thesis by simp
  qed simp
  moreover have "accept_frame env sv i c = do {
      (h, q) \<leftarrow> (case x of None \<Rightarrow> Some (h', sv_tasks sv)
        | Some a \<Rightarrow> do { (ret, h, q) \<leftarrow> push h' (sv_tasks sv) x; Some (if ret < 0 then h(a := None) else h, q) });
      Some ((put_client sv i ((frame_done c) \<lparr> c_last_active_ms := e_now env \<rparr>)) \<lparr> m_tasks := h, sv_tasks := q \<rparr>) }"
    using dec len s x(1) by (simp add: accept_frame_def Let_def)
  ultimately show ?thesis by (auto split: bind_splits)
qed

text \<open>A client after the reading loop: its queue, limiter and descriptor are as before.\<close>

lemma same_conn_fields:
  assumes "same_conn c c' x"
  shows "c_head c' = c_head c" and "c_tail c' = c_tail c" and "c_rate c' = c_rate c" and "c_fd c' = c_fd c"
    and "c_alive c' = (c_alive c \<and> x \<noteq> Ret_closed)" and "length (c_data_receive c') = RX_BUF_CAP"
    and "c_generation c' = c_generation c" and "c_ssl c' = c_ssl c"
proof -
  from assms have e: "c' = c \<lparr> c_stage := c_stage c', c_data_receive := c_data_receive c',
      c_rx_len := c_rx_len c', c_alive := (c_alive c \<and> x \<noteq> Ret_closed) \<rparr>"
    and l: "length (c_data_receive c') = RX_BUF_CAP" unfolding same_conn_def by blast+
  show "c_head c' = c_head c" "c_tail c' = c_tail c" "c_rate c' = c_rate c" "c_fd c' = c_fd c"
    "c_alive c' = (c_alive c \<and> x \<noteq> Ret_closed)" "c_generation c' = c_generation c"
    "c_ssl c' = c_ssl c"
    by (subst e, simp)+
  show "length (c_data_receive c') = RX_BUF_CAP" by (rule l)
qed

definition read_frame_ok :: "client \<Rightarrow> bool" where
  "read_frame_ok c = (\<exists>len. decode_32_bit (c_data_receive c) 8 = Some len \<and> unat len \<le> MAX_PAYLOAD)"

lemma complete_frame_len:
  assumes "read_post avail c acc (Ret_frame, w', c')"
  shows "read_frame_ok c'"
proof -
  from assms obtain l where l: "frame_scan acc = Complete l" "c_rx_len c' = 20 + l" "pending c' @ avail w' = acc"
    by (auto simp: read_post_def split: scan_result.splits)
  then obtain hdr where hdr: "decode_header acc = Some hdr" "check_header hdr = 0" "l = unat (h_length hdr)"
    by (auto simp: frame_scan_def split: option.splits if_splits)
  have "c_rx_len c' \<le> length (c_data_receive c')"
    using same_conn_fields(6) [of c c' Ret_frame] assms l hdr check_header_length [OF hdr(2)]
    by (auto simp: read_post_def RX_BUF_CAP_def)
  then have "decode_header (c_data_receive c') = Some hdr"
    using decode_header_pending [of c' "avail w'"] l hdr(1) by simp
  then show ?thesis
    using decode_header_len [of "c_data_receive c'" hdr] check_header_length [OF hdr(2)]
    by (simp add: read_frame_ok_def MAX_PAYLOAD_def)
qed

lemma frame_result_inv:
  assumes inv: "sv_inv sv" and i: "i < MAX_CLIENTS" and c: "c_alive (sv_clients sv ! i)"
    and post: "read_post avail (sv_clients sv ! i) acc (Ret_frame, w', c')"
    and env: "read_env_ok env sv"
    and loop: "read_loop k rd w (sv_clients sv ! i) = Some (Ret_frame, w', c')"
  shows "(\<exists>r sv'. client_read_message k rd env w sv i = Some (r, w', sv') \<and> r \<noteq> -1 \<and> r \<noteq> 1 \<and> sv_inv sv') \<or>
    client_read_message k rd env w sv i = None \<and> \<not> tail_ok sv"
proof -
  let ?c = "sv_clients sv ! i"
  have L: "length (sv_clients sv) = MAX_CLIENTS" using sv_inv_length [OF inv] .
  have sc: "same_conn ?c c' Ret_frame" using post by (simp add: read_post_def)
  note f = same_conn_fields [OF sc]
  have ok: "slot_ok ?c" using sv_inv_slot [OF inv i] .
  have inv1: "sv_inv (put_client sv i (frame_done c'))"
    using inv i f c by (intro sv_inv_put_client frame_done_ok [OF ok]) (simp_all add: frame_done_def)
  obtain len where len: "decode_32_bit (c_data_receive c') 8 = Some len" "unat len \<le> MAX_PAYLOAD"
    using complete_frame_len [OF post] by (auto simp: read_frame_ok_def)
  obtain crc d rid where d: "decode_32_bit (c_data_receive c') (HEADER_SIZE + unat len) = Some crc"
    "peek HEADER_SIZE (unat len) (c_data_receive c') = Some d" "decode_32_bit (c_data_receive c') 12 = Some rid"
    using f(6) len(2) by (simp add: decode_32_bit_def peek_def RX_BUF_CAP_def protocol_consts)
  have fd: "0 \<le> c_fd c'" using ok c f(4) by (simp add: slot_ok_def)
  have node: "\<forall>a. e_node env = Some a \<longrightarrow> m_data sv a = None" "\<forall>b. e_packet env = Some b \<longrightarrow> length b = 21"
    using env by (simp_all add: read_env_ok_def)
  note acc = accept_frame_inv [OF inv1 i L f(6) fd len env]
  obtain sv2 where sv2: "queue_error sv i (frame_done c') (wire_frame MSG_ERROR rid [word_of_nat (err_num ERR_CRC_MISMATCH)]) 21 (e_node env) = Some sv2"
    "sv_inv sv2"
    using queue_error_inv [OF inv1 _ node(1)] i L by metis
  have crm: "client_read_message k rd env w sv i =
      (if crc \<noteq> crc_of d then do {
         err_packet \<leftarrow> build_error_packet (e_packet env) rid (word_of_nat (err_num ERR_CRC_MISMATCH));
         case err_packet of None \<Rightarrow> Some (2, w', put_client sv i (frame_done c'))
         | Some (packet, n) \<Rightarrow> do { sv \<leftarrow> queue_error sv i (frame_done c') packet n (e_node env); Some (2, w', sv) }
       } else do { sv1 \<leftarrow> accept_frame env sv i c'; Some (0, w', sv1) })"
    using loop i L len(1) d by (simp add: client_read_message_def)
  show ?thesis
    using build_error_cases [OF node(2), of rid "word_of_nat (err_num ERR_CRC_MISMATCH)"] acc sv2 inv1
    unfolding crm by (elim disjE) auto
qed

lemma bad_header_result_inv:
  assumes inv: "sv_inv sv" and i: "i < MAX_CLIENTS" and c: "c_alive (sv_clients sv ! i)"
    and sc: "same_conn (sv_clients sv ! i) c' (Ret_bad_header rid e)" and env: "read_env_ok env sv"
    and loop: "read_loop k rd w (sv_clients sv ! i) = Some (Ret_bad_header rid e, w', c')"
  shows "(\<exists>sv'. client_read_message k rd env w sv i = Some (2, w', sv') \<and> sv_inv sv') \<or>
    client_read_message k rd env w sv i = Some (-1, w', put_client sv i c')"
proof -
  let ?c = "sv_clients sv ! i"
  have L: "length (sv_clients sv) = MAX_CLIENTS" using sv_inv_length [OF inv] .
  note f = same_conn_fields [OF sc]
  have inv1: "sv_inv (put_client sv i (frame_done c'))"
    using inv i f c by (intro sv_inv_put_client frame_done_ok [OF sv_inv_slot [OF inv i]]) (simp_all add: frame_done_def)
  have node: "\<forall>a. e_node env = Some a \<longrightarrow> m_data sv a = None" "\<forall>b. e_packet env = Some b \<longrightarrow> length b = 21"
    using env by (simp_all add: read_env_ok_def)
  obtain sv2 where "queue_error sv i (frame_done c') (wire_frame MSG_ERROR rid [word_of_int e]) 21 (e_node env) = Some sv2"
    "sv_inv sv2"
    using queue_error_inv [OF inv1 _ node(1)] i L by metis
  then show ?thesis
    using loop i L build_error_cases [OF node(2), of rid "word_of_int e"]
    by (auto simp: client_read_message_def)
qed

text \<open>
  A read keeps the invariant, except that a failed or ended connection, which the caller
  closes, is no longer at a reading position.
\<close>

lemma read_message_inv:
  assumes rd: "byte_reader rd avail work" "work w < k" and inv: "sv_inv sv" and i: "i < MAX_CLIENTS"
    and c: "c_alive (sv_clients sv ! i)" and env: "read_env_ok env sv"
  shows "(\<exists>r w' sv'. client_read_message k rd env w sv i = Some (r, w', sv') \<and>
    (r \<noteq> -1 \<and> r \<noteq> 1 \<and> sv_inv sv' \<or>
     (r = -1 \<or> r = 1) \<and> sv_inv (put_client sv' i ((sv_clients sv' ! i) \<lparr> c_alive := False \<rparr>)))) \<or>
    client_read_message k rd env w sv i = None \<and> \<not> tail_ok sv"
proof -
  let ?c = "sv_clients sv ! i"
  have L: "length (sv_clients sv) = MAX_CLIENTS" using sv_inv_length [OF inv] .
  have ok: "slot_ok ?c" using sv_inv_slot [OF inv i] .
  with c have ci: "client_inv ?c" by (simp add: slot_ok_def)
  obtain x w' c' where loop: "read_loop k rd w ?c = Some (x, w', c')"
    and post: "read_post avail ?c (pending ?c @ avail w) (x, w', c')"
    using byte_reader.read_loop_post [OF rd(1) rd(2) ci] by auto
  have sc: "same_conn ?c c' x" using post by (simp add: read_post_def)
  note f = same_conn_fields [OF sc]
  have dead: "sv_inv (put_client sv i (c' \<lparr> c_alive := False \<rparr>))"
    using inv i f ok by (intro sv_inv_put_client) (simp_all add: slot_ok_def)
  have dead': "put_client (put_client sv i c') i ((sv_clients (put_client sv i c') ! i) \<lparr> c_alive := False \<rparr>) =
      put_client sv i (c' \<lparr> c_alive := False \<rparr>)" using i L by (simp add: put_client_def)
  show ?thesis
  proof (cases x)
    case Ret_again
    then have "client_inv c'" using post by (auto simp: read_post_def split: scan_result.splits)
    then have "sv_inv (put_client sv i c')"
      using inv i f ok c Ret_again by (intro sv_inv_put_client) (simp_all add: slot_ok_def)
    then show ?thesis using loop Ret_again i L by (simp add: client_read_message_def)
  next
    case (Ret_bad_header rid e)
    from bad_header_result_inv [OF inv i c sc [unfolded Ret_bad_header] env loop [unfolded Ret_bad_header]]
    show ?thesis using dead dead' by auto
  next
    case Ret_frame
    from frame_result_inv [OF inv i c post [unfolded Ret_frame] env loop [unfolded Ret_frame]]
    show ?thesis by blast
  qed (use loop i L dead dead' in \<open>auto simp: client_read_message_def\<close>)
qed

lemma discard_defined:
  assumes "byte_reader rd avail work" and "work w < k"
  shows "\<exists>w'. discard_loop k rd w = Some w'"
  using assms(2)
proof (induction k arbitrary: w)
  case (Suc k)
  obtain res w' where r: "rd w 512 = (res, w')" by fastforce
  show ?case
  proof (cases res)
    case (RxData bs)
    then have "work w' < work w" using r byte_reader.rd_progress [OF assms(1), of 512 w bs w'] by simp
    then show ?thesis using r RxData Suc by simp
  qed (use r in simp_all)
qed simp

text \<open>The handlers that look a descriptor up work on a live slot or do nothing.\<close>

lemma fd_lookup:
  assumes "sv_inv sv" and "0 \<le> fd"
  shows "fd_to_slot (sv_clients sv) fd (int MAX_CLIENTS) = Some (-1) \<or>
    (\<exists>i < MAX_CLIENTS. fd_to_slot (sv_clients sv) fd (int MAX_CLIENTS) = Some (int i) \<and>
       c_alive (sv_clients sv ! i) \<and> c_fd (sv_clients sv ! i) = fd)"
  using fd_to_slot_cases [of "int MAX_CLIENTS" "sv_clients sv" fd] sv_inv_length [OF assms(1)] assms(2) by auto

lemma rate_put_inv:
  assumes "sv_inv sv" and "i < MAX_CLIENTS"
  shows "sv_inv (put_client sv i ((sv_clients sv ! i) \<lparr> c_rate := snd (request_allow now now' (c_rate (sv_clients sv ! i))) \<rparr>))"
    (is "sv_inv (put_client sv i ?c)")
proof -
  have "slot_ok ?c"
    using sv_inv_slot [OF assms] request_allow_inv client_inv_cong [of ?c "sv_clients sv ! i"]
    by (simp add: slot_ok_def)
  then show ?thesis using assms by (intro sv_inv_put_client) simp_all
qed

lemma handle_request_inv:
  assumes rd: "byte_reader rd avail work" "work w < k" and inv: "sv_inv sv"
    and env: "read_env_ok env sv"
  shows "(\<exists>r w' sv'. handle_request_client k rd hs now now' env w sv fd = Some (r, w', sv') \<and> sv_inv sv') \<or>
    handle_request_client k rd hs now now' env w sv fd = None \<and> \<not> tail_ok sv"
proof (cases "0 \<le> fd \<and> fd_to_slot (sv_clients sv) fd (int MAX_CLIENTS) \<noteq> Some (-1)")
  case False
  then show ?thesis using inv by (auto simp: handle_request_client_def)
next
  case True
  with fd_lookup [OF inv] obtain i where i: "i < MAX_CLIENTS"
    and s: "fd_to_slot (sv_clients sv) fd (int MAX_CLIENTS) = Some (int i)" "c_alive (sv_clients sv ! i)" by blast
  let ?c = "sv_clients sv ! i" and ?ra = "request_allow now now' (c_rate (sv_clients sv ! i))"
  let ?sv = "put_client sv i (?c \<lparr> c_rate := snd ?ra \<rparr>)"
  have L: "i < length (sv_clients sv)" using i sv_inv_length [OF inv] by simp
  show ?thesis
  proof (cases "c_tls_handshake_done ?c")
    case False
    have "c_ssl ?c \<noteq> None" using sv_inv_slot [OF inv i] s(2) by (simp add: slot_ok_def)
    from handshake_inv [OF inv i this, of hs] show ?thesis
      using True s False by (auto simp: handle_request_client_def Let_def)
  next
    case hs_done: True
    have inv1: "sv_inv ?sv" using rate_put_inv [OF inv i] .
    have c1: "c_alive (sv_clients ?sv ! i)" using s(2) L by (simp add: put_client_def)
    have env1: "read_env_ok env ?sv" "tail_ok ?sv = tail_ok sv" using env by (simp_all add: read_env_ok_def tail_ok_def put_client_def)
    obtain wd where wd: "discard_loop k rd w = Some wd" using discard_defined [OF rd] by blast
    have h: "handle_request_client k rd hs now now' env w sv fd =
        (if \<not> fst ?ra then Some (1, wd, ?sv)
         else do { (r, w', sv') \<leftarrow> client_read_message k rd env w ?sv i;
           if r = -1 \<or> r = 1 then do { sv \<leftarrow> drop_client sv' i; Some (-1, w', sv) } else Some (0, w', sv') })"
      using True s hs_done wd by (simp add: handle_request_client_def Let_def split_beta cong: if_cong)
    show ?thesis
    proof (cases "fst ?ra")
      case allow: True
      note m = read_message_inv [OF rd inv1 i c1 env1(1), unfolded env1(2)]
      show ?thesis
      proof (cases "client_read_message k rd env w ?sv i")
        case None
        then show ?thesis using m by (simp add: h allow)
      next
        case (Some x)
        obtain r w' sv' where x: "x = (r, w', sv')" by (cases x)
        show ?thesis
        proof (cases "r = -1 \<or> r = 1")
          case True
          with m Some x have "sv_inv (put_client sv' i ((sv_clients sv' ! i) \<lparr> c_alive := False \<rparr>))" by auto
          from drop_after_read [OF this i] show ?thesis unfolding h using allow Some x True by auto
        next
          case False
          then show ?thesis using m Some x by (simp add: h allow)
        qed
      qed
    qed (simp add: h inv1)
  qed
qed

section \<open>Delivering responses\<close>

text \<open>The messages waiting in a client's transmit queue.\<close>

definition tx_contents :: "data_transmit heap \<Rightarrow> client \<Rightarrow> bytes list \<Rightarrow> bool" where
  "tx_contents h c ms = (\<exists>as. tx_queue h c as \<and> map (\<lambda>a. map_option d_data (h a)) as = map Some ms)"

lemma tx_queue_unique: "tx_queue h c as \<Longrightarrow> tx_queue h c bs \<Longrightarrow> as = bs"
  using chain_unique by (fastforce simp: tx_queue_def linked_fifo_def)

lemma tx_contents_iff:
  "tx_queue h c as \<Longrightarrow> tx_contents h c ms = (map (\<lambda>a. map_option d_data (h a)) as = map Some ms)"
  using tx_queue_unique unfolding tx_contents_def by blast

lemma tx_contents_cong: "c_head c' = c_head c \<Longrightarrow> c_tail c' = c_tail c \<Longrightarrow> tx_contents h c' ms = tx_contents h c ms"
  by (simp add: tx_contents_def tx_queue_def)

lemma link_only_data:
  "map_option (\<lambda>n. n \<lparr> d_next_data := None \<rparr>) x = map_option (\<lambda>n. n \<lparr> d_next_data := None \<rparr>) y \<Longrightarrow>
   map_option d_data x = map_option d_data y"
proof (cases x; cases y)
  fix m n assume "map_option (\<lambda>n. n \<lparr> d_next_data := None \<rparr>) x = map_option (\<lambda>n. n \<lparr> d_next_data := None \<rparr>) y"
    and xy: "x = Some m" "y = Some n"
  then have "d_data (m \<lparr> d_next_data := None \<rparr>) = d_data (n \<lparr> d_next_data := None \<rparr>)" by simp
  with xy show ?thesis by simp
qed simp_all

lemma enqueue_contents:
  assumes q: "tx_queue h c as" and a: "h a = None"
    and e: "enqueue_message h c (Some packet) n (Some a) = Some (ret, h', c')"
  shows "ret = 0" and "tx_contents h c ms \<Longrightarrow> tx_contents h' c' (ms @ [packet])"
    and "tx_queue h d bs \<Longrightarrow> set bs \<inter> set as = {} \<Longrightarrow> tx_contents h d ms \<Longrightarrow> tx_contents h' d ms"
    and "c_alive c' = c_alive c" and "c_generation c' = c_generation c"
proof -
  from enqueue_message_appends [OF q a, of packet n] e have
    r: "ret = 0" "tx_queue h' c' (as @ [a])" "map_option d_data (h' a) = Some packet"
    and f: "\<forall>b. b \<noteq> a \<longrightarrow> map_option (\<lambda>n. n \<lparr> d_next_data := None \<rparr>) (h' b) = map_option (\<lambda>n. n \<lparr> d_next_data := None \<rparr>) (h b)"
      "\<forall>b. b \<noteq> a \<longrightarrow> b \<notin> set as \<longrightarrow> h' b = h b"
    and c': "c' = c \<lparr> c_head := c_head c', c_tail := Some a, c_bytes_need_to_send := c_bytes_need_to_send c + word_of_nat n \<rparr>"
    by auto
  show "ret = 0" by (rule r)
  show "c_alive c' = c_alive c" "c_generation c' = c_generation c" by (subst c', simp)+
  have na: "b \<noteq> a" if "tx_queue h d bs" "b \<in> set bs" for b d bs using tx_queue_dom [OF that] a by auto
  have same: "map_option d_data (h' b) = map_option d_data (h b)" if "b \<noteq> a" for b
    using f(1) that link_only_data by metis
  have m: "map (\<lambda>b. map_option d_data (h' b)) as = map (\<lambda>b. map_option d_data (h b)) as"
    using same na [OF q] by auto
  show "tx_contents h' c' (ms @ [packet])" if "tx_contents h c ms"
    using that r(3) unfolding tx_contents_iff [OF q] tx_contents_iff [OF r(2)] map_append m by simp
  show "tx_contents h' d ms" if d: "tx_queue h d bs" "set bs \<inter> set as = {}" "tx_contents h d ms"
  proof -
    have "\<forall>b \<in> set bs. h' b = h b" using f(2) d(2) na [OF d(1)] by blast
    then have "tx_queue h' d bs" and "map (\<lambda>a. map_option d_data (h' a)) bs = map (\<lambda>a. map_option d_data (h a)) bs"
      using tx_queue_agree [of bs h' h d] d(1) by auto
    then show ?thesis using d tx_contents_iff by metis
  qed
qed

text \<open>
  What the event loop owes: allocations are fresh, distinct and of the size asked for.
  \<open>response_valid\<close> is the condition under which a response still has its addressee.
\<close>

definition allocs_ok :: "allocations \<Rightarrow> data_transmit heap \<Rightarrow> bool" where
  "allocs_ok ms h =
     ((\<forall>m \<in> set ms. (\<forall>f n. fst m = Some f \<longrightarrow> length (f n) = n) \<and> (\<forall>b. snd m = Some b \<longrightarrow> h b = None)) \<and>
      distinct (filter (\<lambda>x. x \<noteq> None) (map snd ms)))"

definition response_valid :: "client list \<Rightarrow> response \<Rightarrow> bool" where
  "response_valid cs r = (0 \<le> r_slot r \<and> r_slot r < int MAX_CLIENTS \<and>
     c_alive (cs ! nat (r_slot r)) \<and> c_generation (cs ! nat (r_slot r)) = r_generation r)"

definition response_frame :: "response \<Rightarrow> bytes" where
  "response_frame r = wire_frame (r_type r) (r_request_id r) (take (unat (r_length r)) (r_payload r))"

lemma allocs_ok_tl: "allocs_ok ms h \<Longrightarrow> allocs_ok (tl ms) h"
  by (cases ms) (auto simp: allocs_ok_def split: if_splits)

lemma allocs_ok_used:
  assumes "allocs_ok ((blk, Some b) # ms) h" and "\<forall>x. x \<noteq> b \<longrightarrow> h x = None \<longrightarrow> h' x = None"
  shows "allocs_ok ms h'"
proof -
  from assms(1) have d: "Some b \<notin> set (map snd ms)" "distinct (filter (\<lambda>x. x \<noteq> None) (map snd ms))"
    by (auto simp: allocs_ok_def)
  have "h' x = None" if "m \<in> set ms" "snd m = Some x" for m x
  proof -
    have "x \<noteq> b" using d(1) that by (metis image_eqI set_map)
    moreover have "h x = None" using assms(1) that by (simp add: allocs_ok_def)
    ultimately show ?thesis using assms(2) by blast
  qed
  with assms(1) d(2) show ?thesis by (simp add: allocs_ok_def)
qed

lemma response_holds_unique: "response_holds (h, q) as \<Longrightarrow> response_holds (h, q) bs \<Longrightarrow> as = bs"
  using chain_unique [of r_next_response h "rq_head q" as bs] by (simp add: response_holds_def linked_fifo_def)

lemma response_packed:
  assumes r: "response_ok r" and f: "\<forall>n. length (f n) = n"
  shows "packet_response_message r (Some (f (unat (word_of_nat HEADER_SIZE + r_length r + word_of_nat CRC_SIZE)))) =
      Some (Some (response_frame r))"
    and "unat (r_length r + word_of_nat CRC_SIZE + word_of_nat HEADER_SIZE) = length (response_frame r)"
proof -
  have b: "unat (r_length r) \<le> 4096" using r by (simp add: response_ok_def MAX_PAYLOAD_def)
  then have n: "unat (word_of_nat HEADER_SIZE + r_length r + word_of_nat CRC_SIZE) = 20 + unat (r_length r)"
    by (simp add: protocol_consts unat_word_ariths)
  show "packet_response_message r (Some (f (unat (word_of_nat HEADER_SIZE + r_length r + word_of_nat CRC_SIZE)))) =
      Some (Some (response_frame r))"
    unfolding n response_frame_def using r f by (intro packet_response_frame) (simp_all add: response_ok_def)
  show "unat (r_length r + word_of_nat CRC_SIZE + word_of_nat HEADER_SIZE) = length (response_frame r)"
    using n b r by (simp add: response_frame_def response_ok_def add.commute add.left_commute)
qed

lemma response_free_inv:
  assumes inv: "sv_inv sv" and rs: "response_holds (m_responses sv, sv_response sv) rs" and a: "a \<notin> set rs"
  shows "sv_inv (sv \<lparr> m_responses := (m_responses sv)(a := None) \<rparr>)"
    and "response_holds ((m_responses sv)(a := None), sv_response sv) rs"
proof -
  show h: "response_holds ((m_responses sv)(a := None), sv_response sv) rs"
    using rs a by (simp add: response_holds_def linked_fifo_def chain_frame)
  obtain bs where bs: "response_holds (m_responses sv, sv_response sv) bs"
    "\<forall>a \<in> set bs. \<exists>r. m_responses sv a = Some r \<and> response_ok r"
    using inv by (auto simp: sv_inv_def responses_ok_def)
  then have "bs = rs" using rs response_holds_unique by blast
  with bs(2) h a show "sv_inv (sv \<lparr> m_responses := (m_responses sv)(a := None) \<rparr>)"
    using inv by (auto simp: sv_inv_def responses_ok_def)
qed

text \<open>The state a response leaves behind when it is dropped, and when it is delivered.\<close>

lemma deliver_stale:
  assumes "\<not> response_valid (sv_clients sv) r" and "length (sv_clients sv) = MAX_CLIENTS"
  shows "deliver_response sv a r ms = Some (sv \<lparr> m_responses := (m_responses sv)(a := None) \<rparr>, ms)"
  using assms by (auto simp: deliver_response_def response_valid_def check_response_message_def Let_def MAX_CLIENTS_def)

lemma deliver_nomem:
  assumes "response_valid (sv_clients sv) r" and "length (sv_clients sv) = MAX_CLIENTS" and "response_ok r"
    and "allocs_ok ms (m_data sv)" and "\<not> (\<exists>f b ms'. ms = (Some f, Some b) # ms')"
  shows "deliver_response sv a r ms = Some (sv \<lparr> m_responses := (m_responses sv)(a := None) \<rparr>, tl ms)"
proof -
  have i: "nat (r_slot r) < length (sv_clients sv)" using assms(1,2) by (auto simp: response_valid_def)
  show ?thesis
  proof (cases "\<exists>f ms'. ms = (Some f, None) # ms'")
    case True
    then obtain f ms' where m: "ms = (Some f, None) # ms'" by blast
    with assms(4) have "\<forall>n. length (f n) = n" by (simp add: allocs_ok_def)
    from response_packed(1) [OF assms(3) this] m i assms(1) show ?thesis
      by (auto simp: deliver_response_def response_valid_def check_response_message_def Let_def
          enqueue_message_def MAX_CLIENTS_def)
  next
    case False
    with assms(5) have "ms = [] \<or> fst (hd ms) = None" by (cases ms; cases "fst (hd ms)"; cases "snd (hd ms)") auto
    with i assms(1) show ?thesis
      by (cases ms) (auto simp: deliver_response_def response_valid_def check_response_message_def Let_def
          packet_response_message_def MAX_CLIENTS_def split: prod.splits)
  qed
qed

text \<open>
  \<open>delivers sv sv' news\<close>: every slot keeps its connection, and the messages \<open>news i\<close> have been
  appended to the transmit queue of slot \<open>i\<close>.
\<close>

definition delivers :: "server \<Rightarrow> server \<Rightarrow> (nat \<Rightarrow> bytes list) \<Rightarrow> bool" where
  "delivers sv sv' news =
     (\<forall>i < MAX_CLIENTS. c_alive (sv_clients sv' ! i) = c_alive (sv_clients sv ! i) \<and>
        c_generation (sv_clients sv' ! i) = c_generation (sv_clients sv ! i) \<and>
        (\<forall>ms. tx_contents (m_data sv) (sv_clients sv ! i) ms \<longrightarrow>
              tx_contents (m_data sv') (sv_clients sv' ! i) (ms @ news i)))"

definition news_of :: "client list \<Rightarrow> response \<Rightarrow> nat \<Rightarrow> bytes list" where
  "news_of cs r i = (if response_valid cs r \<and> i = nat (r_slot r) then [response_frame r] else [])"

lemma delivers_trans: "delivers sv sv1 n \<Longrightarrow> delivers sv1 sv2 m \<Longrightarrow> delivers sv sv2 (\<lambda>i. n i @ m i)"
  unfolding delivers_def by (metis append.assoc)

lemma delivers_valid:
  "delivers sv sv' n \<Longrightarrow> response_valid (sv_clients sv') r = response_valid (sv_clients sv) r"
  unfolding delivers_def response_valid_def by auto

lemma delivers_news: "delivers sv sv' n \<Longrightarrow> news_of (sv_clients sv') r = news_of (sv_clients sv) r"
  using delivers_valid [of sv sv' n r] by (simp add: news_of_def fun_eq_iff)

lemma deliver_sent:
  assumes inv: "sv_inv sv" and v: "response_valid (sv_clients sv) r" and r: "response_ok r"
    and al: "allocs_ok ((Some f, Some b) # ms) (m_data sv)"
    and rs: "response_holds (m_responses sv, sv_response sv) rs" and a: "a \<notin> set rs"
  shows "\<exists>sv'. deliver_response sv a r ((Some f, Some b) # ms) = Some (sv', ms) \<and> sv_inv sv' \<and>
    m_responses sv' = (m_responses sv)(a := None) \<and> sv_response sv' = sv_response sv \<and>
    allocs_ok ms (m_data sv') \<and> delivers sv sv' (news_of (sv_clients sv) r)"
proof -
  define i where "i = nat (r_slot r)"
  define sv0 where "sv0 = sv \<lparr> m_responses := (m_responses sv)(a := None) \<rparr>"
  let ?c = "sv_clients sv ! i"
  have L: "length (sv_clients sv) = MAX_CLIENTS" using sv_inv_length [OF inv] .
  have i: "i < MAX_CLIENTS" "c_alive ?c" "check_response_message r ?c" "\<not> r_slot r < 0" "\<not> r_slot r \<ge> int MAX_CLIENTS"
    using v by (auto simp: response_valid_def i_def check_response_message_def)
  have fb: "\<forall>n. length (f n) = n" "m_data sv b = None" using al by (simp_all add: allocs_ok_def)
  have inv0: "sv_inv sv0" using response_free_inv(1) [OF inv rs a] by (simp add: sv0_def)
  then have "sv_inv (put_client sv0 i ?c)" using L i(1) by (simp add: put_client_def sv0_def)
  then obtain ret h c' where e: "enqueue_message (m_data sv) ?c (Some (response_frame r)) (length (response_frame r)) (Some b) = Some (ret, h, c')"
    "sv_inv ((put_client sv0 i c') \<lparr> m_data := h \<rparr>)"
    using enqueue_inv [of sv0 i ?c "Some b" "length (response_frame r)" "response_frame r"] L i(1) fb(2) r
    by (auto simp: sv0_def response_frame_def response_ok_def MAX_PAYLOAD_def)
  obtain own where own: "tx_own (sv_clients sv) (m_data sv) own" using inv by (auto simp: sv_inv_def)
  have q: "tx_queue (m_data sv) (sv_clients sv ! j) (own j)" if "j < MAX_CLIENTS" for j
    using own that by (simp add: tx_own_def)
  have sep: "set (own j) \<inter> set (own i) = {}" if "j < MAX_CLIENTS" "j \<noteq> i" for j
    using own that i(1) by (simp add: tx_own_def)
  note ec = enqueue_contents [OF q [OF i(1)] fb(2) e(1)]
  let ?sv = "(put_client sv0 i c') \<lparr> m_data := h, k_epoll := snd (epoll_mod (k_epoll sv) EPOLLIN_OUT (c_fd c')) \<rparr>"
  have d: "deliver_response sv a r ((Some f, Some b) # ms) = Some (?sv, ms)"
    using response_packed [OF r fb(1)] i L e(1) ec(1) i_def
    by (simp add: deliver_response_def Let_def sv0_def)
  have "delivers sv ?sv (news_of (sv_clients sv) r)"
    unfolding delivers_def
  proof (intro allI impI)
    fix j assume j: "j < MAX_CLIENTS"
    show "c_alive (sv_clients ?sv ! j) = c_alive (sv_clients sv ! j) \<and>
        c_generation (sv_clients ?sv ! j) = c_generation (sv_clients sv ! j) \<and>
        (\<forall>ms. tx_contents (m_data sv) (sv_clients sv ! j) ms \<longrightarrow>
              tx_contents (m_data ?sv) (sv_clients ?sv ! j) (ms @ news_of (sv_clients sv) r j))"
      using ec(2,4,5) ec(3) [OF q [OF j] sep [OF j]] j L i(1) v
      by (cases "j = i") (auto simp: put_client_def sv0_def news_of_def i_def)
  qed
  moreover have "allocs_ok ms h"
  proof (rule allocs_ok_used [OF al])
    show "\<forall>x. x \<noteq> b \<longrightarrow> m_data sv x = None \<longrightarrow> h x = None"
      using enqueue_message_appends [OF q [OF i(1)] fb(2), of "response_frame r" "length (response_frame r)"] e(1)
      by (metis None_eq_map_option_iff Pair_inject option.inject)
  qed
  ultimately show ?thesis using d e(2) by (simp add: put_client_def sv0_def)
qed

lemma delivers_none:
  "sv_clients sv' = sv_clients sv \<Longrightarrow> m_data sv' = m_data sv \<Longrightarrow> delivers sv sv' (\<lambda>i. [])"
  by (simp add: delivers_def)

text \<open>At least \<open>n\<close> pairs of allocations, none of which fails.\<close>

definition allocs_suffice :: "allocations \<Rightarrow> nat \<Rightarrow> bool" where
  "allocs_suffice ms n = (n \<le> length ms \<and> (\<forall>m \<in> set ms. fst m \<noteq> None \<and> snd m \<noteq> None))"

lemma deliver_step:
  assumes inv: "sv_inv sv" and r: "response_ok r" and al: "allocs_ok ms (m_data sv)"
    and rs: "response_holds (m_responses sv, sv_response sv) rs" and a: "a \<notin> set rs"
  shows "\<exists>sv' ms' n. deliver_response sv a r ms = Some (sv', ms') \<and> sv_inv sv' \<and>
    m_responses sv' = (m_responses sv)(a := None) \<and> sv_response sv' = sv_response sv \<and>
    allocs_ok ms' (m_data sv') \<and> delivers sv sv' n \<and>
    (allocs_suffice ms (Suc k) \<longrightarrow> n = news_of (sv_clients sv) r \<and> allocs_suffice ms' k)"
proof -
  let ?f = "sv \<lparr> m_responses := (m_responses sv)(a := None) \<rparr>"
  have L: "length (sv_clients sv) = MAX_CLIENTS" using sv_inv_length [OF inv] .
  note free = response_free_inv(1) [OF inv rs a] delivers_none [of ?f sv]
  have tl: "allocs_suffice ms (Suc k) \<Longrightarrow> allocs_suffice ms k \<and> allocs_suffice (tl ms) k \<and> ms \<noteq> []"
    by (cases ms) (auto simp: allocs_suffice_def)
  show ?thesis
  proof (cases "response_valid (sv_clients sv) r")
    case False
    have "news_of (sv_clients sv) r = (\<lambda>i. [])" using False by (simp add: news_of_def fun_eq_iff)
    then show ?thesis using deliver_stale [OF False L, of a ms] free al tl by auto
  next
    case True
    show ?thesis
    proof (cases "\<exists>f b ms'. ms = (Some f, Some b) # ms'")
      case t: True
      then obtain f b ms' where m: "ms = (Some f, Some b) # ms'" by blast
      show ?thesis using deliver_sent [OF inv True r al [unfolded m] rs a] m tl by auto
    next
      case f: False
      then have "\<not> allocs_suffice ms (Suc k)" by (cases ms) (auto simp: allocs_suffice_def)
      then show ?thesis using deliver_nomem [OF True L r al f, of a] free allocs_ok_tl [OF al] by auto
    qed
  qed
qed

lemma news_of_content [simp]: "news_of cs (response_content r) = news_of cs r"
  by (simp add: news_of_def response_content_def response_valid_def response_frame_def fun_eq_iff)

text \<open>Taking the next response off the queue.\<close>

lemma pop_next_inv:
  assumes inv: "sv_inv sv" and rs: "response_holds (m_responses sv, sv_response sv) (a # rs)"
  shows "\<exists>r h q. m_responses sv a = Some r \<and> response_ok r \<and> response_ok (response_content r) \<and>
    response_queue_pop (m_responses sv) (sv_response sv) = Some (Some a, h, q) \<and>
    h = (m_responses sv)(a \<mapsto> response_content r) \<and> response_holds (h, q) rs \<and> a \<notin> set rs \<and>
    sv_inv (sv \<lparr> m_responses := h, sv_response := q \<rparr>)"
proof -
  from inv obtain bs where "response_holds (m_responses sv, sv_response sv) bs"
    "\<forall>b \<in> set bs. \<exists>r. m_responses sv b = Some r \<and> response_ok r" by (auto simp: sv_inv_def responses_ok_def)
  with rs have ok: "\<forall>b \<in> set (a # rs). \<exists>r. m_responses sv b = Some r \<and> response_ok r"
    using response_holds_unique by blast
  have na: "a \<notin> set rs" using rs by (simp add: response_holds_def linked_fifo_def)
  from response_pop_front [OF rs] obtain r h q where
    p: "m_responses sv a = Some r" "response_queue_pop (m_responses sv) (sv_response sv) = Some (Some a, h, q)"
    "h = (m_responses sv)(a \<mapsto> response_content r)" "response_holds (h, q) rs"
    by (auto simp: response_content_def)
  have "responses_ok h q" unfolding responses_ok_def using p(3,4) ok na by (intro exI [of _ rs]) auto
  with p ok na inv show ?thesis by (auto simp: sv_inv_def response_ok_def response_content_def)
qed

lemma response_loop_spec:
  assumes "sv_inv sv" and "response_holds (m_responses sv, sv_response sv) rs"
    and "map (\<lambda>a. map_option response_content (m_responses sv a)) rs = map Some vs"
    and "m_responses sv a = Some r" and "response_ok r" and "a \<notin> set rs"
    and "length rs + 2 \<le> k" and "allocs_ok ms (m_data sv)"
  shows "\<exists>sv' n. response_loop k sv ms (Some a) = Some sv' \<and> sv_inv sv' \<and> rq_size (sv_response sv') = 0 \<and>
    delivers sv sv' n \<and>
    (allocs_suffice ms (Suc (length rs)) \<longrightarrow> n = (\<lambda>i. concat (map (\<lambda>r. news_of (sv_clients sv) r i) (r # vs))))"
  using assms
proof (induction rs arbitrary: sv ms a r k vs)
  case Nil
  obtain j where k: "k = Suc (Suc j)" using Nil.prems(7) by (metis add_2_eq_Suc le_Suc_ex list.size(3) plus_nat.add_0)
  from deliver_step [OF Nil.prems(1,5,8,2), of a 0] obtain sv' ms' n where
    d: "deliver_response sv a r ms = Some (sv', ms')" "sv_inv sv'" "m_responses sv' = (m_responses sv)(a := None)"
      "sv_response sv' = sv_response sv" "delivers sv sv' n"
      "allocs_suffice ms (Suc 0) \<longrightarrow> n = news_of (sv_clients sv) r" by auto
  have h: "response_holds (m_responses sv', sv_response sv') []"
    using Nil.prems(2) d(3,4) by (simp add: response_holds_def linked_fifo_def)
  have "response_loop k sv ms (Some a) = Some sv'"
    using Nil.prems(4) d(1) k response_pop_empty [OF h] by simp
  then show ?case using d(2,5,6) h Nil.prems(3) by (auto simp: response_holds_def)
next
  case (Cons b rs)
  obtain j where k: "k = Suc j" "length rs + 2 \<le> j" using Cons.prems(7) by (cases k) auto
  obtain v ws where vs: "vs = v # ws" using Cons.prems(3) by (cases vs) auto
  from deliver_step [OF Cons.prems(1,5,8,2), of a "Suc (length rs)"] Cons.prems(6) obtain sv1 ms1 n1 where
    d: "deliver_response sv a r ms = Some (sv1, ms1)" "sv_inv sv1" "m_responses sv1 = (m_responses sv)(a := None)"
      "sv_response sv1 = sv_response sv" "delivers sv sv1 n1" "allocs_ok ms1 (m_data sv1)"
      "allocs_suffice ms (Suc (Suc (length rs))) \<longrightarrow>
        n1 = news_of (sv_clients sv) r \<and> allocs_suffice ms1 (Suc (length rs))" by auto
  have h1: "response_holds (m_responses sv1, sv_response sv1) (b # rs)"
    using response_free_inv(2) [OF Cons.prems(1,2,6)] d(3,4) by simp
  from pop_next_inv [OF d(2) h1] obtain rb h q where
    p: "m_responses sv1 b = Some rb" "response_ok (response_content rb)"
      "response_queue_pop (m_responses sv1) (sv_response sv1) = Some (Some b, h, q)"
      "h = (m_responses sv1)(b \<mapsto> response_content rb)" "response_holds (h, q) rs" "b \<notin> set rs"
      "sv_inv (sv1 \<lparr> m_responses := h, sv_response := q \<rparr>)" by blast
  let ?sv = "sv1 \<lparr> m_responses := h, sv_response := q \<rparr>"
  have "b \<noteq> a" "a \<notin> set rs" using Cons.prems(6) by auto
  have v: "v = response_content rb" using Cons.prems(3) vs p(1) d(3) \<open>b \<noteq> a\<close> by simp
  have m: "map (\<lambda>a. map_option response_content (h a)) rs = map Some ws"
  proof -
    have "map (\<lambda>x. map_option response_content (h x)) rs = map (\<lambda>x. map_option response_content (m_responses sv x)) rs"
      using p(4,6) d(3) \<open>a \<notin> set rs\<close> by (intro map_cong) auto
    also have "\<dots> = map Some ws" using Cons.prems(3) vs by simp
    finally show ?thesis .
  qed
  have hb: "h b = Some (response_content rb)" using p(4) by simp
  have hs: "m_responses ?sv = h" by simp
  have "\<exists>sv' n. response_loop j ?sv ms1 (Some b) = Some sv' \<and> sv_inv sv' \<and> rq_size (sv_response sv') = 0 \<and>
    delivers ?sv sv' n \<and> (allocs_suffice ms1 (Suc (length rs)) \<longrightarrow>
      n = (\<lambda>i. concat (map (\<lambda>r. news_of (sv_clients ?sv) r i) (v # ws))))"
    unfolding v
  proof (rule Cons.IH [of ?sv ws b "response_content rb" j ms1])
    show "response_holds (m_responses ?sv, sv_response ?sv) rs" using p(5) by simp
    show "map (\<lambda>a. map_option response_content (m_responses ?sv a)) rs = map Some ws"
      unfolding hs by (rule m)
    show "m_responses ?sv b = Some (response_content rb)" using hb by simp
    show "allocs_ok ms1 (m_data ?sv)" using d(6) by simp
    show "sv_inv ?sv" by (rule p(7))
    show "response_ok (response_content rb)" by (rule p(2))
    show "b \<notin> set rs" by (rule p(6))
    show "length rs + 2 \<le> j" by (rule k(2))
  qed
  then obtain sv' n where
    ih: "response_loop j ?sv ms1 (Some b) = Some sv'" "sv_inv sv'" "rq_size (sv_response sv') = 0"
      "delivers ?sv sv' n"
      "allocs_suffice ms1 (Suc (length rs)) \<longrightarrow> n = (\<lambda>i. concat (map (\<lambda>r. news_of (sv_clients ?sv) r i) (v # ws)))"
    by blast
  have "response_loop k sv ms (Some a) = Some sv'"
    using Cons.prems(4) d(1) k(1) p(3) ih(1) by simp
  moreover have "delivers sv1 sv' n" using ih(4) unfolding delivers_def by simp
  then have "delivers sv sv' (\<lambda>i. n1 i @ n i)" by (rule delivers_trans [OF d(5)])
  moreover have "(\<lambda>i. n1 i @ n i) = (\<lambda>i. concat (map (\<lambda>r. news_of (sv_clients sv) r i) (r # vs)))"
    if "allocs_suffice ms (Suc (length (b # rs)))"
    using that d(7) ih(5) vs delivers_news [OF d(5)] by (simp add: fun_eq_iff)
  ultimately show ?case using ih(2,3) by blast
qed

lemma handle_response_spec:
  assumes inv: "sv_inv sv" and rs: "response_values n (m_responses sv, sv_response sv) vs"
    and k: "length vs + 2 \<le> k" and al: "allocs_ok ms (m_data sv)"
  shows "\<exists>sv' m. handle_response_to_client k ms sv = Some (0, sv') \<and> sv_inv sv' \<and>
    rq_size (sv_response sv') = 0 \<and> delivers sv sv' m \<and>
    (allocs_suffice ms (length vs) \<longrightarrow> m = (\<lambda>i. concat (map (\<lambda>r. news_of (sv_clients sv) r i) vs)))"
proof -
  from rs obtain as where as: "response_holds (m_responses sv, sv_response sv) as"
    and m: "map (\<lambda>a. map_option response_content (m_responses sv a)) as = map Some vs"
    by (auto simp: response_values_def)
  show ?thesis
  proof (cases as)
    case Nil
    with m have "vs = []" by simp
    moreover obtain j where "k = Suc j" using k by (cases k) auto
    ultimately show ?thesis
      using Nil as inv response_pop_empty [of "m_responses sv" "sv_response sv"] delivers_none [of sv sv]
      by (auto simp: handle_response_to_client_def response_holds_def)
  next
    case (Cons a bs)
    obtain v ws where vs: "vs = v # ws" using m Cons by (cases vs) auto
    from pop_next_inv [OF inv as [unfolded Cons]] obtain r h q where
      p: "m_responses sv a = Some r" "response_ok (response_content r)"
        "response_queue_pop (m_responses sv) (sv_response sv) = Some (Some a, h, q)"
        "h = (m_responses sv)(a \<mapsto> response_content r)" "response_holds (h, q) bs" "a \<notin> set bs"
        "sv_inv (sv \<lparr> m_responses := h, sv_response := q \<rparr>)" by blast
    let ?sv = "sv \<lparr> m_responses := h, sv_response := q \<rparr>"
    have mm: "map (\<lambda>a. map_option response_content (h a)) bs = map Some ws"
    proof -
      have "map (\<lambda>x. map_option response_content (h x)) bs = map (\<lambda>x. map_option response_content (m_responses sv x)) bs"
        using p(4,6) by (intro map_cong) auto
      also have "\<dots> = map Some ws" using m Cons vs by simp
      finally show ?thesis .
    qed
    have v: "v = response_content r" using m Cons vs p(1) by simp
    have len: "length ws = length bs" using mm by (metis length_map)
    have ha: "h a = Some (response_content r)" using p(4) by simp
    have hs: "m_responses ?sv = h" by simp
    have "\<exists>sv' n. response_loop k ?sv ms (Some a) = Some sv' \<and> sv_inv sv' \<and> rq_size (sv_response sv') = 0 \<and>
      delivers ?sv sv' n \<and> (allocs_suffice ms (Suc (length bs)) \<longrightarrow>
        n = (\<lambda>i. concat (map (\<lambda>r. news_of (sv_clients ?sv) r i) (v # ws))))"
      unfolding v
    proof (rule response_loop_spec [of ?sv bs ws a "response_content r" k ms])
      show "response_holds (m_responses ?sv, sv_response ?sv) bs" using p(5) by simp
      show "map (\<lambda>a. map_option response_content (m_responses ?sv a)) bs = map Some ws"
        unfolding hs by (rule mm)
      show "m_responses ?sv a = Some (response_content r)" using ha by simp
      show "allocs_ok ms (m_data ?sv)" using al by simp
      show "length bs + 2 \<le> k" using k vs len by simp
      show "sv_inv ?sv" by (rule p(7))
      show "response_ok (response_content r)" by (rule p(2))
      show "a \<notin> set bs" by (rule p(6))
    qed
    then obtain sv' n where
      "response_loop k ?sv ms (Some a) = Some sv'" "sv_inv sv'" "rq_size (sv_response sv') = 0" "delivers ?sv sv' n"
      "allocs_suffice ms (Suc (length bs)) \<longrightarrow> n = (\<lambda>i. concat (map (\<lambda>r. news_of (sv_clients ?sv) r i) (v # ws)))"
      by blast
    moreover from this(4) have "delivers sv sv' n" unfolding delivers_def by simp
    ultimately show ?thesis using p(3) vs len
      by (intro exI [of _ sv'] exI [of _ n]) (simp add: handle_response_to_client_def)
  qed
qed

section \<open>Sending, reaping, shutting down\<close>

lemma handle_sendable_inv:
  assumes tx: "byte_sender tx again wire work" "work w < k" and f: "2 \<le> f" and inv: "sv_inv sv"
  shows "\<exists>r w' sv'. handle_client_sendable f k tx hs now w sv fd = Some (r, w', sv') \<and> sv_inv sv'"
proof (cases "0 \<le> fd \<and> fd_to_slot (sv_clients sv) fd (int MAX_CLIENTS) \<noteq> Some (-1)")
  case False
  then show ?thesis using inv by (auto simp: handle_client_sendable_def)
next
  case True
  with fd_lookup [OF inv] obtain i where i: "i < MAX_CLIENTS"
    and s: "fd_to_slot (sv_clients sv) fd (int MAX_CLIENTS) = Some (int i)" "c_alive (sv_clients sv ! i)" by blast
  let ?c = "sv_clients sv ! i"
  have ok: "slot_ok ?c" using sv_inv_slot [OF inv i] .
  show ?thesis
  proof (cases "c_tls_handshake_done ?c")
    case False
    have "c_ssl ?c \<noteq> None" using ok s(2) by (simp add: slot_ok_def)
    from handshake_inv [OF inv i this, of hs] show ?thesis
      using True s False by (auto simp: handle_client_sendable_def Let_def)
  next
    case hs_done: True
    obtain own where own: "tx_own (sv_clients sv) (m_data sv) own" using inv by (auto simp: sv_inv_def)
    have q: "tx_queue (m_data sv) ?c (own i)" "\<forall>a \<in> set (own i). \<exists>n. m_data sv a = Some n \<and> message_node n"
      using own i by (auto simp: tx_own_def)
    obtain r w' ep' h' c' as' where
      fl: "client_flush_tx_tls f k tx now w (k_epoll sv) (m_data sv) ?c = Some (r, w', ep', h', c')"
        "tx_queue h' c' as'" "set as' \<subseteq> set (own i)" "\<forall>b \<in> set as'. h' b = m_data sv b"
        "\<forall>b. b \<notin> set (own i) \<longrightarrow> h' b = m_data sv b"
      and c': "c' = ?c \<lparr> c_head := c_head c', c_tail := c_tail c', c_bytes_need_to_send := c_bytes_need_to_send c',
             c_last_active_ms := c_last_active_ms c' \<rparr>"
      using client_flush_tx_tls_defined [OF tx f q, of now "k_epoll sv"] by blast
    have "c_stage c' = c_stage ?c" "c_data_receive c' = c_data_receive ?c" "c_rx_len c' = c_rx_len ?c"
      "c_rate c' = c_rate ?c" "c_fd c' = c_fd ?c" "c_alive c' = c_alive ?c" "c_ssl c' = c_ssl ?c" by (subst c', simp)+
    then have "slot_ok c'" using ok client_inv_cong [of c' ?c] by (simp add: slot_ok_def)
    moreover have "tx_own ((sv_clients sv) [i := c']) h' (own (i := as'))"
      using own i fl(2) by (rule tx_own_put) (use fl q(2) in auto)
    ultimately have inv1: "sv_inv ((put_client sv i c') \<lparr> k_epoll := ep, m_data := h' \<rparr>)"
      "sv_inv ((put_client sv i c') \<lparr> m_data := h' \<rparr>)" for ep
      using inv slot_ok_put [of "sv_clients sv" c' i] by (auto simp: sv_inv_def put_client_def)
    obtain sv2 where "drop_client ((put_client sv i c') \<lparr> k_epoll := ep', m_data := h' \<rparr>) i = Some sv2" "sv_inv sv2"
      using drop_client_inv [OF inv1(1) i] by blast
    then show ?thesis
      using True s hs_done fl(1) inv1 by (auto simp: handle_client_sendable_def Let_def split_beta)
  qed
qed

definition reaped :: "u64 \<Rightarrow> client \<Rightarrow> bool" where
  "reaped now c = (c_fd c = -1 \<or> c_alive c \<and> (now - c_last_active_ms c) div 1000 \<le> IDLE_TIMEOUT_SEC)"

lemma reap_slot_inv:
  assumes inv: "sv_inv sv" and i: "i < MAX_CLIENTS"
  shows "\<exists>sv'. reap_slot now sv i = Some sv' \<and> sv_inv sv' \<and> reaped now (sv_clients sv' ! i) \<and>
    (\<forall>j. j \<noteq> i \<longrightarrow> sv_clients sv' ! j = sv_clients sv ! j) \<and> sv_tasks sv' = sv_tasks sv"
proof -
  from drop_client_inv [OF inv i] obtain sv1 where d: "drop_client sv i = Some sv1" "sv_inv sv1"
    "c_fd (sv_clients sv1 ! i) = -1" "\<forall>j. j \<noteq> i \<longrightarrow> sv_clients sv1 ! j = sv_clients sv ! j"
    and u: "sv1 = sv \<lparr> sv_clients := sv_clients sv1, m_data := m_data sv1, k_epoll := k_epoll sv1 \<rparr>" by blast
  have t: "sv_tasks sv1 = sv_tasks sv" by (subst u) simp
  have "c_fd (sv_clients sv ! i) = -1 \<or> 0 \<le> c_fd (sv_clients sv ! i)"
    using sv_inv_slot [OF inv i] by (auto simp: slot_ok_def)
  then show ?thesis
    using d t inv i sv_inv_length [OF inv]
    by (auto simp: reap_slot_def reaped_def Let_def not_less)
qed

lemma reap_loop_inv:
  "sv_inv sv \<Longrightarrow> set is \<subseteq> {..<MAX_CLIENTS} \<Longrightarrow> distinct is \<Longrightarrow>
   \<exists>sv'. reap_loop now sv is = Some sv' \<and> sv_inv sv' \<and> (\<forall>i \<in> set is. reaped now (sv_clients sv' ! i)) \<and>
     (\<forall>j. j \<notin> set is \<longrightarrow> sv_clients sv' ! j = sv_clients sv ! j) \<and> sv_tasks sv' = sv_tasks sv"
proof (induction "is" arbitrary: sv)
  case (Cons i "is")
  from reap_slot_inv [OF Cons.prems(1), of i now] Cons.prems(2) obtain sv1 where
    s: "reap_slot now sv i = Some sv1" "sv_inv sv1" "reaped now (sv_clients sv1 ! i)"
    "\<forall>j. j \<noteq> i \<longrightarrow> sv_clients sv1 ! j = sv_clients sv ! j" "sv_tasks sv1 = sv_tasks sv" by auto
  from Cons.IH [OF s(2)] Cons.prems(2,3) obtain sv2 where
    "reap_loop now sv1 is = Some sv2" "sv_inv sv2" "\<forall>i \<in> set is. reaped now (sv_clients sv2 ! i)"
    "\<forall>j. j \<notin> set is \<longrightarrow> sv_clients sv2 ! j = sv_clients sv1 ! j" "sv_tasks sv2 = sv_tasks sv1" by auto
  with s Cons.prems(3) show ?case by auto
qed simp

lemma reap_client_inv:
  "sv_inv sv \<Longrightarrow> \<exists>sv'. reap_client now sv = Some (0, sv') \<and> sv_inv sv' \<and>
     (\<forall>i < MAX_CLIENTS. reaped now (sv_clients sv' ! i))"
proof -
  assume inv: "sv_inv sv"
  have "set [0..<MAX_CLIENTS] \<subseteq> {..<MAX_CLIENTS}" by (simp add: atLeast0LessThan)
  from reap_loop_inv [OF inv this distinct_upt, of now] show ?thesis
    by (auto simp: reap_client_def)
qed

lemma close_all_inv:
  "sv_inv sv \<Longrightarrow> set is \<subseteq> {..<MAX_CLIENTS} \<Longrightarrow>
   \<exists>sv'. close_all sv is = Some sv' \<and> sv_inv sv' \<and> m_tasks sv' = m_tasks sv \<and> sv_tasks sv' = sv_tasks sv \<and>
     (\<forall>i. i \<in> set is \<or> c_fd (sv_clients sv ! i) = -1 \<and> \<not> c_alive (sv_clients sv ! i) \<longrightarrow>
        c_fd (sv_clients sv' ! i) = -1 \<and> \<not> c_alive (sv_clients sv' ! i))"
proof (induction "is" arbitrary: sv)
  case (Cons i "is")
  from drop_client_inv [OF Cons.prems(1), of i] Cons.prems(2) obtain sv1 where
    d: "drop_client sv i = Some sv1" "sv_inv sv1" "\<not> c_alive (sv_clients sv1 ! i)" "c_fd (sv_clients sv1 ! i) = -1"
      "\<forall>j. j \<noteq> i \<longrightarrow> sv_clients sv1 ! j = sv_clients sv ! j"
    and u: "sv1 = sv \<lparr> sv_clients := sv_clients sv1, m_data := m_data sv1, k_epoll := k_epoll sv1 \<rparr>" by auto
  have t: "sv_tasks sv1 = sv_tasks sv" "m_tasks sv1 = m_tasks sv" by (subst u, simp)+
  from Cons.IH [OF d(2)] Cons.prems(2) obtain sv2 where
    c: "close_all sv1 is = Some sv2" "sv_inv sv2" "m_tasks sv2 = m_tasks sv1" "sv_tasks sv2 = sv_tasks sv1"
      "\<forall>j. j \<in> set is \<or> c_fd (sv_clients sv1 ! j) = -1 \<and> \<not> c_alive (sv_clients sv1 ! j) \<longrightarrow>
        c_fd (sv_clients sv2 ! j) = -1 \<and> \<not> c_alive (sv_clients sv2 ! j)" by auto
  have "c_fd (sv_clients sv2 ! j) = -1 \<and> \<not> c_alive (sv_clients sv2 ! j)"
    if "j \<in> set (i # is) \<or> c_fd (sv_clients sv ! j) = -1 \<and> \<not> c_alive (sv_clients sv ! j)" for j
    using that c(5) d(3-5) by (cases "j = i") auto
  with c d(1) t show ?case by auto
qed simp

end
