(* ===== verification/Server_Start.thy ===== *)
theory Server_Start
  imports Server_Invariant
begin

text \<open>
  The gateway at start-up: \<open>server_init\<close> (\<open>gateway/src/server.c\<close>) establishes the invariant of
  the event loop, and the state it leaves is the first state of every run. The started server
  with one accepted connection also serves as the concrete state of later examples.
\<close>

section \<open>Start-up\<close>

text \<open>A free slot, whatever the clock was when its limiter was set up.\<close>

definition free_slot :: "u64 \<Rightarrow> client" where
  "free_slot now = (client_reset zero_client) \<lparr> c_rate := rate_limit_init RATE_LIMIT_CAP RATE_LIMIT_REFILL_SEC now \<rparr>"

definition start_state :: "(nat \<Rightarrow> u64) \<Rightarrow> server \<Rightarrow> bool" where
  "start_state now sv =
     (sv_clients sv = map (\<lambda>i. free_slot (now i)) [0..<MAX_CLIENTS] \<and>
      sv_tasks sv = \<lparr> tq_head = None, tq_tail = None, tq_size = 0, tq_max_size = TASK_QUEUE_MAX, tq_shutdown = False \<rparr> \<and>
      sv_response sv = \<lparr> rq_head = None, rq_tail = None, rq_size = 0, rq_max_size = TASK_QUEUE_MAX \<rparr> \<and>
      \<not> sv_shutdown sv \<and> m_tasks sv = Map.empty \<and> m_responses sv = Map.empty \<and> m_data sv = Map.empty)"

lemma free_slot_ok: "slot_ok (free_slot now)"
  by (simp add: slot_ok_def free_slot_def client_reset_def zero_client_def rate_inv_init)

lemma start_state_inv:
  assumes "start_state now sv"
  shows "sv_inv sv" and "tail_ok sv"
proof -
  have "tx_own (sv_clients sv) (m_data sv) (\<lambda>i. [])"
    using assms by (simp add: start_state_def tx_own_def tx_queue_def linked_fifo_def free_slot_def client_reset_def)
  moreover have "\<forall>c \<in> set (sv_clients sv). slot_ok c" using assms free_slot_ok by (auto simp: start_state_def)
  moreover have "responses_ok (m_responses sv) (sv_response sv)"
    using assms by (auto simp: start_state_def responses_ok_def response_holds_def linked_fifo_def intro: exI [of _ "[]"])
  ultimately show "sv_inv sv" unfolding sv_inv_def by blast
  show "tail_ok sv" using assms by (simp add: start_state_def tail_ok_def)
qed

lemma start_state_upd [simp]:
  "start_state now (sv \<lparr> sv_listen_fd := x \<rparr>) = start_state now sv"
  "start_state now (sv \<lparr> sv_broadcast_fd := x \<rparr>) = start_state now sv"
  "start_state now (sv \<lparr> sv_event_fd := x \<rparr>) = start_state now sv"
  "start_state now (sv \<lparr> sv_epoll_fd := x \<rparr>) = start_state now sv"
  "start_state now (sv \<lparr> sv_tls_ctx := y \<rparr>) = start_state now sv"
  "start_state now (sv \<lparr> k_epoll := ep \<rparr>) = start_state now sv"
  by (simp_all add: start_state_def)

lemma clients_init_zero:
  "clients_init (sv_clients zero_server) (int MAX_CLIENTS) = Some (0, replicate MAX_CLIENTS (client_reset zero_client))"
  by (simp add: clients_init_def zero_server_def MAX_CLIENTS_def)

text \<open>
  The descriptors \<open>server_init\<close> asks for, in order, as far as it gets: each is -1 when the
  system refuses it or when setting it up fails.
\<close>

definition init_fds :: "init_env \<Rightarrow> int list" where
  "init_fds env =
     [case i_tcp env of (s, a, p, k, b, l) \<Rightarrow> fst (setup_tcp s a p k b l {}),
      case i_udp env of (s, a, p, b) \<Rightarrow> fst (setup_udp s a p b {}), fst (setup_eventfd (i_eventfd env) {}),
      fst (setup_epoll (i_epollfd env) {})]"

definition init_succeeds :: "init_env \<Rightarrow> bool" where
  "init_succeeds env = ((\<forall>fd \<in> set (init_fds env). 0 \<le> fd) \<and> i_tls_ctx env \<noteq> None \<and>
     i_epoll_ok env = (True, True, True) \<and> distinct (take 3 (init_fds env)))"

lemma server_init_cases:
  "\<exists>r sv fds'. server_init env fds = Some (r, sv, fds') \<and> start_state (i_now env) sv \<and>
     (r = (if init_succeeds env then 0 else -1)) \<and>
     (r = 0 \<longrightarrow> dom (k_epoll sv) = {sv_listen_fd sv, sv_broadcast_fd sv, sv_event_fd sv} \<and>
        [sv_listen_fd sv, sv_broadcast_fd sv, sv_event_fd sv, sv_epoll_fd sv] = init_fds env)"
proof -
  let ?cs = "map (\<lambda>i. (replicate MAX_CLIENTS (client_reset zero_client) ! i)
      \<lparr> c_rate := rate_limit_init RATE_LIMIT_CAP RATE_LIMIT_REFILL_SEC (i_now env i) \<rparr>) [0..<MAX_CLIENTS]"
  have cs: "?cs = map (\<lambda>i. free_slot (i_now env i)) [0..<MAX_CLIENTS]" by (simp add: free_slot_def)
  define s where "s = zero_server \<lparr> sv_clients := map (\<lambda>i. free_slot (i_now env i)) [0..<MAX_CLIENTS],
      sv_tasks := task_queue_init (sv_tasks zero_server) TASK_QUEUE_MAX,
      sv_response := response_queue_init (sv_response zero_server) TASK_QUEUE_MAX, sv_shutdown := False \<rparr>"
  have s0: "start_state (i_now env) s" "k_epoll s = Map.empty"
    by (simp_all add: s_def start_state_def zero_server_def task_queue_init_def response_queue_init_def TASK_QUEUE_MAX_def)
  obtain t1 t2 t3 t4 t5 t6 where t: "i_tcp env = (t1, t2, t3, t4, t5, t6)" by (cases "i_tcp env")
  obtain u1 u2 u3 u4 where u: "i_udp env = (u1, u2, u3, u4)" by (cases "i_udp env")
  define tcp where "tcp = setup_tcp t1 t2 t3 t4 t5 t6 fds"
  define udp where "udp = setup_udp u1 u2 u3 u4 (snd tcp)"
  define efd where "efd = setup_eventfd (i_eventfd env) (snd udp)"
  define epd where "epd = setup_epoll (i_epollfd env) (snd efd)"
  have fds: "init_fds env = [fst tcp, fst udp, fst efd, fst epd]"
    by (simp add: init_fds_def t u tcp_def udp_def efd_def epd_def setup_tcp_def setup_udp_def
        setup_eventfd_def setup_epoll_def Let_def)
  obtain o1 o2 o3 where ok: "i_epoll_ok env = (o1, o2, o3)" by (cases "i_epoll_ok env")
  have e: "server_init env fds =
    (if fst tcp < 0 then Some (-1, s \<lparr> sv_listen_fd := fst tcp \<rparr>, snd tcp)
     else let s = s \<lparr> sv_listen_fd := fst tcp, sv_broadcast_fd := fst udp \<rparr> in
     if fst udp < 0 then Some (-1, s, snd udp)
     else let s = s \<lparr> sv_event_fd := fst efd \<rparr> in
     if fst efd < 0 then Some (-1, s, snd efd)
     else let s = s \<lparr> sv_epoll_fd := fst epd \<rparr> in
     if fst epd < 0 then Some (-1, s, snd epd)
     else let s = s \<lparr> sv_tls_ctx := i_tls_ctx env \<rparr> in
     if i_tls_ctx env = None then Some (-1, s, snd epd)
     else let (r, ep) = epoll_add o1 (k_epoll s) EPOLLIN (fst tcp); s = s \<lparr> k_epoll := ep \<rparr> in
     if r < 0 then Some (-1, s, snd epd)
     else let (r, ep) = epoll_add o2 (k_epoll s) EPOLLIN (fst udp); s = s \<lparr> k_epoll := ep \<rparr> in
     if r < 0 then Some (-1, s, snd epd)
     else let (r, ep) = epoll_add o3 (k_epoll s) EPOLLIN (fst efd); s = s \<lparr> k_epoll := ep \<rparr> in
     if r < 0 then Some (-1, s, snd epd) else Some (0, s, snd epd))"
    unfolding server_init_def Let_def clients_init_zero
    by (simp add: split_beta cs ok t u flip: s_def tcp_def udp_def efd_def epd_def)
  show ?thesis
    unfolding e init_succeeds_def fds using s0
    by (simp add: Let_def split_beta epoll_add_def ok) blast
qed

section \<open>A started server with one connection\<close>

definition start_server :: server where
  "start_server = zero_server \<lparr> sv_listen_fd := 3, sv_broadcast_fd := 4, sv_event_fd := 5, sv_epoll_fd := 6,
     sv_clients := map (\<lambda>i. free_slot 0) [0..<MAX_CLIENTS],
     sv_tasks := \<lparr> tq_head = None, tq_tail = None, tq_size = 0, tq_max_size = TASK_QUEUE_MAX, tq_shutdown = False \<rparr>,
     sv_response := \<lparr> rq_head = None, rq_tail = None, rq_size = 0, rq_max_size = TASK_QUEUE_MAX \<rparr>,
     sv_tls_ctx := Some 0, k_epoll := [3 \<mapsto> EPOLLIN, 4 \<mapsto> EPOLLIN, 5 \<mapsto> EPOLLIN] \<rparr>"

definition sample_conn :: client where
  "sample_conn = (client_open (free_slot 0) 7 (0, 0) 0 0) \<lparr> c_ssl := Some 0, c_tls_handshake_done := True \<rparr>"

definition sample_server :: server where
  "sample_server = (put_client start_server 0 sample_conn)
     \<lparr> k_epoll := [3 \<mapsto> EPOLLIN, 4 \<mapsto> EPOLLIN, 5 \<mapsto> EPOLLIN, 7 \<mapsto> EPOLLIN] \<rparr>"

lemma start_server_state: "start_state (\<lambda>i. 0) start_server"
  by (simp add: start_server_def start_state_def zero_server_def)

lemma sample_server_inv: "sv_inv sample_server" "tail_ok sample_server"
proof -
  have c: "sv_clients start_server ! 0 = free_slot 0" "length (sv_clients start_server) = MAX_CLIENTS"
    by (simp_all add: start_server_def MAX_CLIENTS_def)
  have "slot_ok sample_conn"
    using rate_inv_init [of 0] by (simp add: sample_conn_def slot_ok_def client_open_def free_slot_def client_reset_def
        zero_client_def client_inv_def HEADER_SIZE_def)
  then have "sv_inv (put_client start_server 0 sample_conn)"
    by (intro sv_inv_put_client start_state_inv(1) [OF start_server_state])
      (simp_all add: c sample_conn_def client_open_def free_slot_def client_reset_def MAX_CLIENTS_def)
  then show "sv_inv sample_server" by (simp add: sample_server_def)
  show "tail_ok sample_server" by (simp add: sample_server_def put_client_def start_server_def tail_ok_def)
qed

lemma sample_server_conn:
  "sv_clients sample_server ! 0 = sample_conn" "fd_to_slot (sv_clients sample_server) 7 (int MAX_CLIENTS) = Some 0"
  "pending sample_conn = []" "c_tls_handshake_done sample_conn" "c_alive sample_conn" "c_fd sample_conn = 7"
  "m_data sample_server = Map.empty" "m_tasks sample_server = Map.empty" "m_responses sample_server = Map.empty"
  by (simp_all add: sample_server_def put_client_def start_server_def zero_server_def fd_to_slot_def
      scan.simps [of _ _ 0] MAX_CLIENTS_def sample_conn_def client_open_def pending_def)

lemma sample_rate_allow: "fst (request_allow 0 0 (c_rate sample_conn))"
  using dbl_of_nat [of 100]
  by (simp add: sample_conn_def client_open_def request_allow_def rate_limit_init_def rate_consts Let_def)

end
