(* ===== verification/Request.thy ===== *)
theory Request
  imports Server_Start
begin

text \<open>
  What the gateway makes of the byte stream of one connection: \<open>next_request\<close> reads the
  protocol off the stream, and \<open>handle_request_client\<close> (\<open>gateway/src/server.c\<close>) is shown to
  follow it however the stream is cut into reads.
\<close>

section \<open>The protocol on a stream\<close>

text \<open>The first request of a stream: not there yet, to be refused with an error code, or valid.\<close>

datatype request = Wait | Refused u32 u8 | Request u16 u32 bytes

definition next_request :: "bytes \<Rightarrow> request" where
  "next_request acc =
     (case (frame_scan acc, decode_header acc) of
        (Bad_header rid e, _) \<Rightarrow> Refused rid (word_of_int e)
      | (Complete n, Some hdr) \<Rightarrow>
          if decode_32_bit acc (16 + n) = Some (crc_of (take n (drop 16 acc)))
          then Request (h_type hdr) (h_request_id hdr) (take n (drop 16 acc))
          else Refused (h_request_id hdr) (word_of_nat (err_num ERR_CRC_MISMATCH))
      | _ \<Rightarrow> Wait)"

text \<open>How much of the stream the gateway is done with after it.\<close>

definition request_size :: "bytes \<Rightarrow> nat" where
  "request_size acc =
     (case frame_scan acc of Incomplete \<Rightarrow> 0 | Bad_header _ _ \<Rightarrow> 16 | Complete n \<Rightarrow> 20 + n)"

definition request_types :: "u16 set" where
  "request_types = {MSG_ECHO, MSG_STATUS, MSG_GET_SENSOR, MSG_SET_ACTUATOR}"

lemma frame_scan_frame:
  assumes "type \<in> request_types" and "length pl \<le> MAX_PAYLOAD" and "length pl' = length pl"
  shows "frame_scan (frame_header type (word_of_nat (length pl)) rid @ pl' @ be32 crc @ rest) = Complete (length pl)"
proof -
  have u: "unat (word_of_nat (length pl) :: u32) = length pl"
    using assms(2) by (simp add: unat_of_nat protocol_consts)
  have "\<not> (word_of_nat MAX_PAYLOAD :: u32) < word_of_nat (length pl)"
    using assms(2) u by (simp add: word_less_nat_alt unat_of_nat protocol_consts)
  then have "check_header \<lparr> h_magic = PROTOCOL_MAGIC, h_version = PROTOCOL_VERSION, h_type = type,
      h_length = word_of_nat (length pl), h_request_id = rid \<rparr> = 0"
    using assms(1) by (auto simp: check_header_def request_types_def)
  with u assms(3) show ?thesis
    using decode_header_frame [of type "word_of_nat (length pl)" rid "pl' @ be32 crc @ rest"]
    by (simp add: frame_scan_def)
qed

lemma next_request_frame:
  assumes "type \<in> request_types" and "length pl \<le> MAX_PAYLOAD" and "length pl' = length pl"
  shows "next_request (frame_header type (word_of_nat (length pl)) rid @ pl' @ be32 crc @ rest) =
    (if crc = crc_of pl' then Request type rid pl'
     else Refused rid (word_of_nat (err_num ERR_CRC_MISMATCH)))"
    and "request_size (frame_header type (word_of_nat (length pl)) rid @ pl' @ be32 crc @ rest) = 20 + length pl"
proof -
  let ?h = "frame_header type (word_of_nat (length pl)) rid"
  let ?acc = "?h @ pl' @ be32 crc @ rest"
  have "decode_32_bit ?acc (16 + length pl) = Some crc"
    using decode_32_be32 [of "?h @ pl'" "16 + length pl" crc rest] assms(3) by simp
  moreover have "take (length pl) (drop 16 ?acc) = pl'" using assms(3) by simp
  ultimately show "next_request ?acc = (if crc = crc_of pl' then Request type rid pl'
     else Refused rid (word_of_nat (err_num ERR_CRC_MISMATCH)))"
    using frame_scan_frame [OF assms, of rid crc rest]
      decode_header_frame [of type "word_of_nat (length pl)" rid "pl' @ be32 crc @ rest"]
    unfolding next_request_def by auto
  show "request_size ?acc = 20 + length pl" using frame_scan_frame [OF assms, of rid crc rest] by (simp add: request_size_def)
qed

lemma next_request_wire:
  assumes "type \<in> request_types" and "length pl \<le> MAX_PAYLOAD"
  shows "next_request (wire_frame type rid pl @ rest) = Request type rid pl"
    and "request_size (wire_frame type rid pl @ rest) = 20 + length pl"
  using next_request_frame [OF assms refl, of rid "crc_of pl" rest] by (simp_all add: wire_frame_def)

section \<open>What the gateway does with a request\<close>

definition task_of :: "read_env \<Rightarrow> server \<Rightarrow> nat \<Rightarrow> u16 \<Rightarrow> u32 \<Rightarrow> bytes \<Rightarrow> task \<Rightarrow> bool" where
  "task_of env sv i type rid pl t =
     (t_slot t = int i \<and> t_generation t = c_generation (sv_clients sv ! i) \<and> t_type t = type \<and>
      t_request_id t = rid \<and> t_length t = length pl \<and> take (t_length t) (t_payload t) = pl \<and>
      length (t_payload t) = MAX_PAYLOAD \<and> t_timeout_ms t = e_now_task env + REQUEST_TIMEOUT_MS)"

lemma task_of_next [simp]: "task_of env sv i type rid pl (t \<lparr> t_next_task := p \<rparr>) = task_of env sv i type rid pl t"
  by (simp add: task_of_def)

text \<open>The task is appended at the tail; without memory or room it is dropped silently.\<close>

definition task_queued :: "read_env \<Rightarrow> server \<Rightarrow> nat \<Rightarrow> u16 \<Rightarrow> u32 \<Rightarrow> bytes \<Rightarrow> server \<Rightarrow> bool" where
  "task_queued env sv i type rid pl sv' =
     (if e_task env = None \<or> tq_shutdown (sv_tasks sv) \<or> tq_max_size (sv_tasks sv) \<le> tq_size (sv_tasks sv)
      then sv_tasks sv' = sv_tasks sv \<and> m_tasks sv' = m_tasks sv
      else tq_size (sv_tasks sv') = tq_size (sv_tasks sv) + 1 \<and>
        (\<exists>a t. map_option fst (e_task env) = Some a \<and> m_tasks sv' a = Some t \<and> task_of env sv i type rid pl t \<and>
          (case tq_tail (sv_tasks sv) of
             None \<Rightarrow> tq_head (sv_tasks sv') = Some a \<and> tq_tail (sv_tasks sv') = Some a
           | Some z \<Rightarrow> tq_head (sv_tasks sv') = tq_head (sv_tasks sv) \<and>
               map_option t_next_task (m_tasks sv' z) = Some (Some a))))"

definition error_queued :: "server \<Rightarrow> nat \<Rightarrow> u32 \<Rightarrow> u8 \<Rightarrow> server \<Rightarrow> bool" where
  "error_queued sv i rid e sv' =
     (\<forall>ms. tx_contents (m_data sv) (sv_clients sv ! i) ms \<longrightarrow>
       tx_contents (m_data sv') (sv_clients sv' ! i) (ms @ [wire_frame MSG_ERROR rid [e]]))"

text \<open>The buffer after a whole frame agrees with the stream.\<close>

lemma decode_32_prefix: "off + 4 \<le> length xs \<Longrightarrow> decode_32_bit (xs @ ys) off = decode_32_bit xs off"
  by (simp add: decode_32_bit_def nth_append)

lemma frame_read:
  assumes "read_post avail c acc (Ret_frame, w', c')"
  shows "\<exists>hdr. frame_scan acc = Complete (unat (h_length hdr)) \<and> decode_header acc = Some hdr \<and>
    unat (h_length hdr) \<le> MAX_PAYLOAD \<and> decode_header (c_data_receive c') = Some hdr \<and>
    decode_32_bit (c_data_receive c') (16 + unat (h_length hdr)) = decode_32_bit acc (16 + unat (h_length hdr)) \<and>
    peek 16 (unat (h_length hdr)) (c_data_receive c') = Some (take (unat (h_length hdr)) (drop 16 acc)) \<and>
    avail w' = drop (20 + unat (h_length hdr)) acc \<and> length (c_data_receive c') = RX_BUF_CAP"
proof -
  from assms obtain n where n: "frame_scan acc = Complete n" "c_rx_len c' = 20 + n" "pending c' @ avail w' = acc"
    by (auto simp: read_post_def split: scan_result.splits)
  then obtain hdr where hdr: "decode_header acc = Some hdr" "check_header hdr = 0" "n = unat (h_length hdr)"
    by (auto simp: frame_scan_def split: option.splits if_splits)
  have b: "length (c_data_receive c') = RX_BUF_CAP" "n \<le> 4096"
    using same_conn_fields(6) [of c c' Ret_frame] assms check_header_length [OF hdr(2)] hdr(3)
    by (simp_all add: read_post_def)
  then have le: "c_rx_len c' \<le> length (c_data_receive c')" using n(2) by (simp add: RX_BUF_CAP_def)
  note sp = buffer_split [OF le]
  let ?p = "pending c'" and ?r = "drop (c_rx_len c') (c_data_receive c')"
  have buf: "c_data_receive c' = ?p @ ?r" and len: "length ?p = 20 + n" using sp n(2) by simp_all
  have "decode_header (c_data_receive c') = Some hdr" using decode_header_pending [of c' "avail w'"] n le hdr(1) by simp
  moreover have "decode_32_bit (c_data_receive c') (16 + n) = decode_32_bit acc (16 + n)"
    using decode_32_prefix [of "16 + n" ?p ?r] decode_32_prefix [of "16 + n" ?p "avail w'"] len
    unfolding n(3) buf [symmetric] by simp
  moreover have "take n (drop 16 (c_data_receive c')) = take n (drop 16 acc)"
    using len n(3) by (subst buf) (auto simp flip: n(3))
  moreover have "avail w' = drop (20 + n) acc" using len n(3) by (auto simp flip: n(3))
  ultimately show ?thesis
    using n(1) hdr(1,3) b by (auto simp: peek_def RX_BUF_CAP_def MAX_PAYLOAD_def)
qed

lemma fd_to_slot_put:
  assumes "i < length cs" and "c_fd c' = c_fd (cs ! i)" and "c_alive c' = c_alive (cs ! i)" and "n \<le> int (length cs)"
  shows "fd_to_slot (cs [i := c']) fd n = fd_to_slot cs fd n"
proof -
  have "scan P (cs [i := c']) lo m = scan P cs lo m" if "P c' = P (cs ! i)" for P :: "client \<Rightarrow> bool" and lo m
    using that assms(1)
  proof (induction P cs lo m rule: scan.induct)
    case (1 P xs lo n)
    then show ?case by (auto simp: scan.simps [of P _ lo n] nth_list_update)
  qed
  with assms show ?thesis unfolding fd_to_slot_def by simp
qed

lemma push_appends:
  assumes "h a = Some t" and "\<not> tq_shutdown q" and "tq_size q < tq_max_size q"
    and "\<forall>z. tq_tail q = Some z \<longrightarrow> h z \<noteq> None \<and> z \<noteq> a"
  shows "\<exists>h' q'. push h q (Some a) = Some (0, h', q') \<and> tq_size q' = tq_size q + 1 \<and>
    h' a = Some (t \<lparr> t_next_task := None \<rparr>) \<and>
    (case tq_tail q of
       None \<Rightarrow> tq_head q' = Some a \<and> tq_tail q' = Some a
     | Some z \<Rightarrow> tq_head q' = tq_head q \<and> map_option t_next_task (h' z) = Some (Some a))"
  using assms by (cases "tq_tail q") (auto simp: push_def)

lemma push_refuses:
  assumes "tq_shutdown q \<or> tq_max_size q \<le> tq_size q"
  shows "\<exists>r < 0. push h q (Some a) = Some (r, h, q)"
  using assms by (auto simp: push_def EAGAIN_num_def)

lemma accept_frame_queues:
  assumes L: "length (sv_clients sv) = MAX_CLIENTS" and i: "i < MAX_CLIENTS"
    and buf: "length (c_data_receive c) = RX_BUF_CAP" "decode_header (c_data_receive c) = Some hdr"
      "unat (h_length hdr) \<le> MAX_PAYLOAD"
    and slot: "fd_to_slot (sv_clients (put_client sv i c)) (c_fd c) (int MAX_CLIENTS) = Some (int i)"
    and gen: "c_generation c = c_generation (sv_clients sv ! i)"
    and env: "read_env_ok env sv" and tail: "tail_ok sv"
  shows "\<exists>sv'. accept_frame env sv i c = Some sv' \<and>
    task_queued env sv i (h_type hdr) (h_request_id hdr) (take (unat (h_length hdr)) (drop 16 (c_data_receive c))) sv' \<and>
    sv_clients sv' ! i = (frame_done c) \<lparr> c_last_active_ms := e_now env \<rparr>"
proof -
  let ?hdr = "\<lparr> h_magic = 0, h_version = 0, h_type = h_type hdr, h_length = h_length hdr, h_request_id = h_request_id hdr \<rparr>"
  let ?pl = "take (unat (h_length hdr)) (drop 16 (c_data_receive c))"
  have lp: "length ?pl = unat (h_length hdr)" using buf by (simp add: RX_BUF_CAP_def MAX_PAYLOAD_def)
  have dec: "decode_16_bit (c_data_receive c) 6 = Some (h_type hdr)"
    "decode_32_bit (c_data_receive c) 8 = Some (h_length hdr)"
    "decode_32_bit (c_data_receive c) 12 = Some (h_request_id hdr)"
    using buf(2) by (auto simp: decode_header_def bind_eq_Some_conv)
  note acc = accept_frame_def [of env sv i c] dec slot L i
  show ?thesis
  proof (cases "e_task env")
    case None
    then show ?thesis using acc by (simp add: task_queued_def build_task_def put_client_def)
  next
    case (Some x)
    then obtain a blk where x: "e_task env = Some (a, blk)" by (cases x) simp
    with env have a: "m_tasks sv a = None" "length (t_payload blk) = MAX_PAYLOAD" by (simp_all add: read_env_ok_def)
    obtain t where t: "build_task (m_tasks sv) c ?hdr (int i) (e_now_task env) (e_task env) = Some (Some a, (m_tasks sv)(a \<mapsto> t))"
      "task_of env sv i (h_type hdr) (h_request_id hdr) ?pl t"
      using build_task_payload [of "int i" ?hdr c blk "m_tasks sv" "e_now_task env" a] buf a(2) x gen lp
      unfolding task_of_def by (auto simp: HEADER_SIZE_def)
    let ?h = "(m_tasks sv)(a \<mapsto> t)"
    show ?thesis
    proof (cases "tq_shutdown (sv_tasks sv) \<or> tq_max_size (sv_tasks sv) \<le> tq_size (sv_tasks sv)")
      case True
      then obtain r where "r < 0" "push ?h (sv_tasks sv) (Some a) = Some (r, ?h, sv_tasks sv)"
        using push_refuses [of "sv_tasks sv" ?h a] by auto
      then show ?thesis using acc t(1) True a(1) by (auto simp: task_queued_def put_client_def)
    next
      case False
      have tl: "\<forall>z. tq_tail (sv_tasks sv) = Some z \<longrightarrow> ?h z \<noteq> None \<and> z \<noteq> a" using tail a(1) by (auto simp: tail_ok_def)
      have room: "?h a = Some t" "\<not> tq_shutdown (sv_tasks sv)" "tq_size (sv_tasks sv) < tq_max_size (sv_tasks sv)"
        using False by auto
      from push_appends [OF room tl] obtain h' q' where p: "push ?h (sv_tasks sv) (Some a) = Some (0, h', q')"
        "tq_size q' = tq_size (sv_tasks sv) + 1" "h' a = Some (t \<lparr> t_next_task := None \<rparr>)"
        "case tq_tail (sv_tasks sv) of None \<Rightarrow> tq_head q' = Some a \<and> tq_tail q' = Some a
         | Some z \<Rightarrow> tq_head q' = tq_head (sv_tasks sv) \<and> map_option t_next_task (h' z) = Some (Some a)"
        by blast
      have "task_of env sv i (h_type hdr) (h_request_id hdr) ?pl (t \<lparr> t_next_task := None \<rparr>)"
        using t(2) by simp
      with p False x acc t(1) show ?thesis
        by (cases "tq_tail (sv_tasks sv)") (simp_all add: task_queued_def put_client_def)
    qed
  qed
qed

lemma queue_error_queues:
  assumes inv: "sv_inv (put_client sv i c)" and i: "i < MAX_CLIENTS" and L: "length (sv_clients sv) = MAX_CLIENTS"
    and node: "node = Some a" "m_data sv a = None"
    and same: "c_head c = c_head (sv_clients sv ! i)" "c_tail c = c_tail (sv_clients sv ! i)"
  shows "\<exists>sv'. queue_error sv i c (wire_frame MSG_ERROR rid [e]) n node = Some sv' \<and> error_queued sv i rid e sv' \<and>
    pending (sv_clients sv' ! i) = pending c"
proof -
  obtain as where q: "tx_queue (m_data sv) c as"
    using inv i L by (auto simp: sv_inv_def tx_own_def put_client_def)
  from enqueue_message_appends [OF q node(2), of "wire_frame MSG_ERROR rid [e]" n] obtain r h c' where
    e: "enqueue_message (m_data sv) c (Some (wire_frame MSG_ERROR rid [e])) n (Some a) = Some (r, h, c')"
    and c': "c' = c \<lparr> c_head := c_head c', c_tail := Some a, c_bytes_need_to_send := c_bytes_need_to_send c + word_of_nat n \<rparr>"
    by auto
  have "pending c' = pending c" by (subst c') (simp add: pending_def)
  moreover have "tx_contents h c' (ms @ [wire_frame MSG_ERROR rid [e]])"
    if "tx_contents (m_data sv) (sv_clients sv ! i) ms" for ms
    using that enqueue_contents(2) [OF q node(2) e] tx_contents_cong [OF same] by blast
  ultimately show ?thesis using e node(1) i L by (simp add: queue_error_def error_queued_def put_client_def)
qed

text \<open>
  The outcome the protocol asks for. \<open>up\<close> means that the connection stays open; a waiting
  connection may also have ended, and a request is refused silently only without memory.
\<close>

definition request_outcome :: "read_env \<Rightarrow> server \<Rightarrow> nat \<Rightarrow> request \<Rightarrow> bool \<Rightarrow> server \<Rightarrow> bool" where
  "request_outcome env sv i rq up sv' =
     (case rq of
        Wait \<Rightarrow> sv_tasks sv' = sv_tasks sv \<and> m_tasks sv' = m_tasks sv
      | Refused rid e \<Rightarrow> sv_tasks sv' = sv_tasks sv \<and> m_tasks sv' = m_tasks sv \<and>
          (e_packet env \<noteq> None \<longrightarrow> up \<and> (e_node env \<noteq> None \<longrightarrow> error_queued sv i rid e sv'))
      | Request type rid pl \<Rightarrow> up \<and> task_queued env sv i type rid pl sv')"

lemma queue_error_tasks:
  "queue_error sv i c p n node = Some sv' \<Longrightarrow> sv_tasks sv' = sv_tasks sv \<and> m_tasks sv' = m_tasks sv"
  by (auto simp: queue_error_def bind_eq_Some_conv put_client_def)

text \<open>Queueing an error packet, whatever the two allocations answer.\<close>

lemma refuse_outcome:
  assumes inv: "sv_inv (put_client sv i c)" and i: "i < MAX_CLIENTS" and L: "length (sv_clients sv) = MAX_CLIENTS"
    and env: "read_env_ok env sv" and p: "e_packet env \<noteq> None"
    and same: "c_head c = c_head (sv_clients sv ! i)" "c_tail c = c_tail (sv_clients sv ! i)"
  shows "\<exists>sv'. build_error_packet (e_packet env) rid e = Some (Some (wire_frame MSG_ERROR rid [e], 21)) \<and>
    queue_error sv i c (wire_frame MSG_ERROR rid [e]) 21 (e_node env) = Some sv' \<and>
    request_outcome env sv i (Refused rid e) True sv' \<and> pending (sv_clients sv' ! i) = pending c"
proof -
  obtain b where b: "e_packet env = Some b" "length b = 21" using p env by (auto simp: read_env_ok_def)
  then have e: "build_error_packet (e_packet env) rid e = Some (Some (wire_frame MSG_ERROR rid [e], 21))"
    using build_error_packet_frame [of b rid e] by simp
  show ?thesis
  proof (cases "e_node env")
    case None
    then show ?thesis using e L i by (simp add: queue_error_def enqueue_message_def request_outcome_def put_client_def)
  next
    case (Some a)
    then have "m_data sv a = None" using env by (simp add: read_env_ok_def)
    from queue_error_queues [OF inv i L Some this same, of rid e 21] obtain sv' where
      q: "queue_error sv i c (wire_frame MSG_ERROR rid [e]) 21 (e_node env) = Some sv'"
      "error_queued sv i rid e sv'" "pending (sv_clients sv' ! i) = pending c" by blast
    with e queue_error_tasks [OF q(1)] show ?thesis by (simp add: request_outcome_def)
  qed
qed

lemma read_message_request:
  assumes rd: "byte_reader rd avail work" "work w < k" and inv: "sv_inv sv" and i: "i < MAX_CLIENTS"
    and c: "c_alive (sv_clients sv ! i)" and env: "read_env_ok env sv" and tail: "tail_ok sv"
    and slot: "fd_to_slot (sv_clients sv) (c_fd (sv_clients sv ! i)) (int MAX_CLIENTS) = Some (int i)"
    and acc: "acc = pending (sv_clients sv ! i) @ avail w"
  shows "\<exists>r w' sv'. client_read_message k rd env w sv i = Some (r, w', sv') \<and>
    request_outcome env sv i (next_request acc) (r \<noteq> -1 \<and> r \<noteq> 1) sv' \<and>
    (r \<noteq> -1 \<and> r \<noteq> 1 \<longrightarrow> pending (sv_clients sv' ! i) @ avail w' = drop (request_size acc) acc)"
proof -
  let ?c = "sv_clients sv ! i"
  have L: "length (sv_clients sv) = MAX_CLIENTS" using sv_inv_length [OF inv] .
  have ok: "slot_ok ?c" using sv_inv_slot [OF inv i] .
  with c have ci: "client_inv ?c" by (simp add: slot_ok_def)
  obtain x w' c' where loop: "read_loop k rd w ?c = Some (x, w', c')"
    and post: "read_post avail ?c acc (x, w', c')"
    using byte_reader.read_loop_post [OF rd(1) rd(2) ci] acc by auto
  have sc: "same_conn ?c c' x" using post by (simp add: read_post_def)
  note f = same_conn_fields [OF sc]
  have empty: "pending (frame_done c') = []" by (simp add: pending_def frame_done_def)
  have inv1: "sv_inv (put_client sv i (frame_done c'))" if "x \<noteq> Ret_closed"
    using that inv i f c by (intro sv_inv_put_client frame_done_ok [OF ok]) (simp_all add: frame_done_def)
  have fd: "c_head (frame_done c') = c_head ?c" "c_tail (frame_done c') = c_tail ?c" using f by (simp_all add: frame_done_def)
  note refuse = refuse_outcome [OF inv1 i L env _ fd]
  show ?thesis
  proof (cases x)
    case (Ret_bad_header rid e)
    then have s: "frame_scan acc = Bad_header rid e" "c_rx_len c' = 16" "pending c' @ avail w' = acc"
      using post by (auto simp: read_post_def split: scan_result.splits)
    then have rq: "next_request acc = Refused rid (word_of_int e)" "request_size acc = 16"
      by (simp_all add: next_request_def request_size_def)
    have "length (pending c') = 16" using s(2) f(6) by (simp add: pending_def RX_BUF_CAP_def)
    then have rest: "avail w' = drop 16 acc" by (auto simp flip: s(3))
    show ?thesis
    proof (cases "e_packet env = None")
      case True
      then show ?thesis using loop Ret_bad_header i L rq rest
        by (simp add: client_read_message_def request_outcome_def build_error_packet_def put_client_def)
    next
      case False
      from refuse [OF _ this, of rid "word_of_int e"] Ret_bad_header obtain sv' where
        "build_error_packet (e_packet env) rid (word_of_int e) = Some (Some (wire_frame MSG_ERROR rid [word_of_int e], 21))"
        "queue_error sv i (frame_done c') (wire_frame MSG_ERROR rid [word_of_int e]) 21 (e_node env) = Some sv'"
        "request_outcome env sv i (Refused rid (word_of_int e)) True sv'" "pending (sv_clients sv' ! i) = []"
        using empty by auto
      then show ?thesis using loop Ret_bad_header i L rq rest by (simp add: client_read_message_def)
    qed
  next
    case Ret_frame
    from frame_read [OF post [unfolded Ret_frame]] obtain hdr where
      h: "frame_scan acc = Complete (unat (h_length hdr))" "decode_header acc = Some hdr"
        "unat (h_length hdr) \<le> MAX_PAYLOAD" "decode_header (c_data_receive c') = Some hdr"
        "decode_32_bit (c_data_receive c') (16 + unat (h_length hdr)) = decode_32_bit acc (16 + unat (h_length hdr))"
        "peek 16 (unat (h_length hdr)) (c_data_receive c') = Some (take (unat (h_length hdr)) (drop 16 acc))"
        "avail w' = drop (20 + unat (h_length hdr)) acc" "length (c_data_receive c') = RX_BUF_CAP" by blast
    let ?n = "unat (h_length hdr)"
    let ?pl = "take ?n (drop 16 acc)"
    have dec: "decode_32_bit (c_data_receive c') 8 = Some (h_length hdr)" "decode_32_bit (c_data_receive c') 12 = Some (h_request_id hdr)"
      using h(4) by (auto simp: decode_header_def bind_eq_Some_conv)
    obtain crc where crc: "decode_32_bit (c_data_receive c') (16 + ?n) = Some crc"
      using h(3,8) by (simp add: decode_32_bit_def RX_BUF_CAP_def MAX_PAYLOAD_def)
    have rq: "request_size acc = 20 + ?n" "next_request acc =
        (if crc = crc_of ?pl then Request (h_type hdr) (h_request_id hdr) ?pl
         else Refused (h_request_id hdr) (word_of_nat (err_num ERR_CRC_MISMATCH)))"
      using h(1,2) trans [OF h(5) [symmetric] crc] by (simp_all add: next_request_def request_size_def)
    note crm = client_read_message_def [of k rd env w sv i] loop Ret_frame i L dec crc h(6) HEADER_SIZE_def
    show ?thesis
    proof (cases "crc = crc_of ?pl")
      case True
      have pl: "take ?n (drop 16 (c_data_receive c')) = ?pl" using h(6) by (simp add: peek_def split: if_splits)
      have "fd_to_slot (sv_clients (put_client sv i c')) (c_fd c') (int MAX_CLIENTS) = Some (int i)"
        using slot f Ret_frame i L by (simp add: put_client_def fd_to_slot_put)
      from accept_frame_queues [OF L i h(8,4,3) this f(7) env tail] obtain sv' where
        "accept_frame env sv i c' = Some sv'" "task_queued env sv i (h_type hdr) (h_request_id hdr) ?pl sv'"
        "sv_clients sv' ! i = (frame_done c') \<lparr> c_last_active_ms := e_now env \<rparr>" unfolding pl by blast
      then show ?thesis using True crm rq h(7) by (simp add: request_outcome_def pending_def frame_done_def)
    next
      case False
      show ?thesis
      proof (cases "e_packet env = None")
        case True
        then show ?thesis using False crm rq h(7) empty
          by (simp add: request_outcome_def build_error_packet_def put_client_def)
      next
        case p: False
        from refuse [OF _ this, of "h_request_id hdr" "word_of_nat (err_num ERR_CRC_MISMATCH)"] Ret_frame
        show ?thesis using False crm rq h(7) empty by auto
      qed
    qed
  qed (use loop i L post in \<open>auto simp: client_read_message_def request_outcome_def read_post_def next_request_def
        request_size_def put_client_def split: scan_result.splits\<close>)
qed

section \<open>The handler\<close>

text \<open>A descriptor with input that the gateway is ready to serve: its slot, and the limiter allows it.\<close>

definition serves :: "server \<Rightarrow> nat \<Rightarrow> int \<Rightarrow> u64 \<Rightarrow> u64 \<Rightarrow> read_env \<Rightarrow> bool" where
  "serves sv i fd now now' env =
     (sv_inv sv \<and> tail_ok sv \<and> read_env_ok env sv \<and> 0 \<le> fd \<and>
      fd_to_slot (sv_clients sv) fd (int MAX_CLIENTS) = Some (int i) \<and> c_tls_handshake_done (sv_clients sv ! i) \<and>
      fst (request_allow now now' (c_rate (sv_clients sv ! i))))"

lemma drop_client_tasks:
  "drop_client sv i = Some sv' \<Longrightarrow> sv_tasks sv' = sv_tasks sv \<and> m_tasks sv' = m_tasks sv"
  by (auto simp: drop_client_def bind_eq_Some_conv split: prod.splits)

lemma drop_dead_closes:
  assumes "sv_inv (put_client sv i ((sv_clients sv ! i) \<lparr> c_alive := False \<rparr>))" and "i < MAX_CLIENTS"
    and "drop_client sv i = Some sv'"
  shows "c_fd (sv_clients sv' ! i) = -1"
proof -
  have "i < length (sv_clients sv)" using sv_inv_length [OF assms(1)] assms(2) by (simp add: put_client_def)
  from drop_client_dead [OF this] drop_client_inv [OF assms(1,2)] assms(3) show ?thesis by auto
qed

lemma request_outcome_cong:
  assumes "sv_tasks sv1 = sv_tasks sv" and "m_tasks sv1 = m_tasks sv" and "m_data sv1 = m_data sv"
    and "c_generation (sv_clients sv1 ! i) = c_generation (sv_clients sv ! i)"
    and "c_head (sv_clients sv1 ! i) = c_head (sv_clients sv ! i)"
    and "c_tail (sv_clients sv1 ! i) = c_tail (sv_clients sv ! i)"
  shows "request_outcome env sv1 i rq up sv' = request_outcome env sv i rq up sv'"
  using assms(1-4) tx_contents_cong [OF assms(5,6)]
  by (cases rq) (simp_all add: request_outcome_def task_queued_def task_of_def error_queued_def cong: option.case_cong)

lemma request_outcome_closed:
  assumes "request_outcome env sv i rq False sv1" and "sv_tasks sv2 = sv_tasks sv1" and "m_tasks sv2 = m_tasks sv1"
  shows "request_outcome env sv i rq False sv2"
  using assms by (cases rq) (simp_all add: request_outcome_def)

lemma handle_request_stream:
  assumes rd: "byte_reader rd avail work" "work w < k" and sv: "serves sv i fd now now' env"
    and acc: "acc = pending (sv_clients sv ! i) @ avail w"
  shows "\<exists>r w' sv'. handle_request_client k rd hs now now' env w sv fd = Some (r, w', sv') \<and> sv_inv sv' \<and>
    request_outcome env sv i (next_request acc) (r = 0) sv' \<and>
    (if r = 0 then pending (sv_clients sv' ! i) @ avail w' = drop (request_size acc) acc
     else r = -1 \<and> c_fd (sv_clients sv' ! i) = -1)"
proof -
  note s = sv [unfolded serves_def]
  let ?c = "sv_clients sv ! i"
  have L: "length (sv_clients sv) = MAX_CLIENTS" using sv_inv_length s by blast
  have i: "i < MAX_CLIENTS" "c_alive ?c" "c_fd ?c = fd" using fd_lookup [of sv fd] s by auto
  let ?ra = "request_allow now now' (c_rate ?c)"
  let ?sv = "put_client sv i (?c \<lparr> c_rate := snd ?ra \<rparr>)"
  have inv1: "sv_inv ?sv" using rate_put_inv s i by blast
  have c1: "sv_clients ?sv ! i = ?c \<lparr> c_rate := snd ?ra \<rparr>" using i L by (simp add: put_client_def)
  have f: "fd_to_slot (sv_clients ?sv) (c_fd (sv_clients ?sv ! i)) (int MAX_CLIENTS) = Some (int i)"
    unfolding c1 using s i L by (simp add: put_client_def fd_to_slot_put)
  have env1: "read_env_ok env ?sv" "tail_ok ?sv" using s by (simp_all add: read_env_ok_def tail_ok_def put_client_def)
  have acc1: "acc = pending (sv_clients ?sv ! i) @ avail w" unfolding c1 acc by (simp add: pending_def)
  have al: "c_alive (sv_clients ?sv ! i)" using i by (simp add: c1)
  obtain r w' sv' where r: "client_read_message k rd env w ?sv i = Some (r, w', sv')"
    "request_outcome env ?sv i (next_request acc) (r \<noteq> -1 \<and> r \<noteq> 1) sv'"
    "r \<noteq> -1 \<and> r \<noteq> 1 \<longrightarrow> pending (sv_clients sv' ! i) @ avail w' = drop (request_size acc) acc"
    using read_message_request [OF rd inv1 i(1) al env1 f acc1] by blast
  have o: "request_outcome env sv i (next_request acc) (r \<noteq> -1 \<and> r \<noteq> 1) sv'"
    using r(2) c1 by (subst request_outcome_cong [of sv ?sv]) (simp_all add: put_client_def)
  obtain r0 w0 sv0 where h0: "handle_request_client k rd hs now now' env w sv fd = Some (r0, w0, sv0)" "sv_inv sv0"
    using handle_request_inv [OF rd] s by blast
  have h: "handle_request_client k rd hs now now' env w sv fd =
      (if r = -1 \<or> r = 1 then do { sv \<leftarrow> drop_client sv' i; Some (-1, w', sv) } else Some (0, w', sv'))"
    using s i r(1) by (simp add: handle_request_client_def Let_def split_beta)
  show ?thesis
  proof (cases "r = -1 \<or> r = 1")
    case True
    then obtain sv2 where d: "drop_client sv' i = Some sv2" "sv0 = sv2" "r0 = -1"
      using h0(1) h by (auto simp: bind_eq_Some_conv)
    have "sv_inv (put_client sv' i ((sv_clients sv' ! i) \<lparr> c_alive := False \<rparr>))"
      using read_message_inv [OF rd inv1 i(1) al env1(1)] r(1) True by auto
    from drop_dead_closes [OF this i(1) d(1)] have "c_fd (sv_clients sv2 ! i) = -1" .
    moreover have "request_outcome env sv i (next_request acc) False sv'" using o True by auto
    ultimately show ?thesis
      using h0 d drop_client_tasks [OF d(1)] request_outcome_closed [of env sv i "next_request acc" sv' sv2] by simp
  next
    case False
    then show ?thesis using h0 h o r(3) by simp
  qed
qed

section \<open>Properties\<close>

text \<open>
  C29. The request handler follows the protocol, however the stream is cut into reads. For a
  descriptor with input whose handshake is done and which the limiter allows, with enough fuel
  for the data that can arrive, the handler returns with the invariant intact and without
  undefined behaviour. If the bytes received so far hold no whole frame, they are kept for the
  next call and the task queue is untouched; a bad header, or a frame whose checksum does not
  match, leaves the task queue untouched and, memory permitting, queues exactly one error
  packet with the right code and request id; a valid frame becomes exactly one task with the
  frame's type, request id and payload, appended to the task queue unless it is full. After a
  call that keeps the connection open, the buffered and the unread bytes together are the
  stream after the request; any other call has closed the connection.
\<close>

theorem handle_request_correct:
  assumes "byte_reader rd avail work" and "work w < k" and "serves sv i fd now now' env"
    and "acc = pending (sv_clients sv ! i) @ avail w"
  shows "\<exists>r w' sv'. handle_request_client k rd hs now now' env w sv fd = Some (r, w', sv') \<and> sv_inv sv' \<and>
    request_outcome env sv i (next_request acc) (r = 0) sv' \<and>
    (if r = 0 then pending (sv_clients sv' ! i) @ avail w' = drop (request_size acc) acc
     else r = -1 \<and> c_fd (sv_clients sv' ! i) = -1)"
  using assms by (rule handle_request_stream)

text \<open>A read environment in which every allocation succeeds.\<close>

definition sample_env :: read_env where
  "sample_env = \<lparr> e_packet = Some (replicate 21 0), e_node = Some 0,
     e_task = Some (0, sample_task),
     e_now_task = 0, e_now = 0 \<rparr>"

lemma sample_serves: "serves sample_server 0 7 0 0 sample_env"
  using sample_server_inv sample_rate_allow sample_server_conn
  by (simp add: serves_def sample_env_def read_env_ok_def sample_task_def)

theorem handle_request_correct_witness:
  "\<exists>r w' sv'. handle_request_client 100 sock_recv Hs_done 0 0 sample_env [Chunk [1, 2], Interrupt, Chunk [3]] sample_server 7
      = Some (r, w', sv') \<and>
    (r = 0 \<longrightarrow> pending (sv_clients sv' ! 0) @ sock_avail w' = [1, 2, 3])"
proof -
  have "byte_reader sock_recv sock_avail sock_work" by (rule sock.byte_reader_axioms)
  from handle_request_correct [OF this _ sample_serves refl, of "[Chunk [1, 2], Interrupt, Chunk [3]]" 100 Hs_done]
  show ?thesis
    using sample_server_conn by (auto simp: request_size_def frame_scan_def decode_header_short split: if_splits)
qed

text \<open>
  C30. A request makes the round trip. Take any payload the client's \<open>packet_encode\<close> accepts
  with a request type the gateway knows. When the frame it wrote has arrived at a connection
  that is between frames, in whatever portions and whatever follows it, the gateway takes
  exactly the frame off the stream and appends a task that carries the same type, request id
  and payload, addressed to this slot and generation.
\<close>

theorem request_roundtrip:
  assumes "byte_reader rd avail work" and "work w < k" and "serves sv i fd now now' env"
    and "packet_encode buffer cap type rid payload len = Some (0, frame)"
    and "unat cap \<le> length buffer" and "unat len \<le> length payload" and "type \<in> request_types"
    and "pending (sv_clients sv ! i) = []" and "avail w = take (20 + unat len) frame @ rest"
    and "e_task env = Some (a, blk)" and "\<not> tq_shutdown (sv_tasks sv)"
    and "tq_size (sv_tasks sv) < tq_max_size (sv_tasks sv)"
  shows "\<exists>w' sv' t. handle_request_client k rd hs now now' env w sv fd = Some (0, w', sv') \<and>
    pending (sv_clients sv' ! i) @ avail w' = rest \<and> tq_size (sv_tasks sv') = tq_size (sv_tasks sv) + 1 \<and>
    m_tasks sv' a = Some t \<and> task_of env sv i type rid (take (unat len) payload) t"
proof -
  let ?pl = "take (unat len) payload"
  have "unat len \<le> MAX_PAYLOAD" "frame = wire_frame type rid ?pl @ drop (20 + unat len) buffer"
    using packet_encode_total [OF assms(5,6), of type rid] assms(4) by (auto split: if_splits)
  then have fr: "take (20 + unat len) frame = wire_frame type rid ?pl" "length ?pl \<le> MAX_PAYLOAD" "length ?pl = unat len"
    using assms(6) by simp_all
  have acc: "pending (sv_clients sv ! i) @ avail w = wire_frame type rid ?pl @ rest" using assms(8,9) fr(1) by simp
  note nr = next_request_wire [OF assms(7) fr(2), of rid rest]
  from handle_request_stream [OF assms(1-3) acc [symmetric], of hs] obtain r w' sv' where
    h: "handle_request_client k rd hs now now' env w sv fd = Some (r, w', sv')"
    "request_outcome env sv i (Request type rid ?pl) (r = 0) sv'"
    "if r = 0 then pending (sv_clients sv' ! i) @ avail w' = drop (request_size (wire_frame type rid ?pl @ rest)) (wire_frame type rid ?pl @ rest)
     else r = -1 \<and> c_fd (sv_clients sv' ! i) = -1"
    unfolding nr(1) by blast
  have "r = 0" "task_queued env sv i type rid ?pl sv'" using h(2) by (simp_all add: request_outcome_def)
  then show ?thesis using h(1,3) assms(10-12) nr(2) fr(3) by (auto simp: task_queued_def)
qed

theorem request_roundtrip_witness:
  "\<exists>w' sv' t. handle_request_client 100 sock_recv Hs_done 0 0 sample_env
      [Chunk (take 7 (wire_frame MSG_ECHO 9 [1, 2])), Interrupt, Chunk (drop 7 (wire_frame MSG_ECHO 9 [1, 2]))]
      sample_server 7 = Some (0, w', sv') \<and>
    m_tasks sv' 0 = Some t \<and> t_type t = MSG_ECHO \<and> t_request_id t = 9 \<and> take (t_length t) (t_payload t) = [1, 2]"
proof -
  let ?f = "wire_frame MSG_ECHO 9 [1, 2]"
  let ?w = "[Chunk (take 7 ?f), Interrupt, Chunk (drop 7 ?f)]"
  have rd: "byte_reader sock_recv sock_avail sock_work" by (rule sock.byte_reader_axioms)
  have enc: "packet_encode (replicate 22 0) 22 MSG_ECHO 9 [1, 2] 2 = Some (0, ?f)"
    using packet_encode_total [of 22 "replicate 22 0" 2 "[1, 2]" MSG_ECHO 9] by (simp add: protocol_consts)
  have p: "pending (sv_clients sample_server ! 0) = []" "MSG_ECHO \<in> request_types" "sock_work ?w < 100"
    "sock_avail ?w = take (20 + unat (2 :: u32)) ?f @ []"
    using sample_server_conn by (simp_all add: request_types_def)
  have q: "e_task sample_env = Some (0, sample_task)" "\<not> tq_shutdown (sv_tasks sample_server)"
    "tq_size (sv_tasks sample_server) < tq_max_size (sv_tasks sample_server)"
    by (simp_all add: sample_env_def sample_server_def put_client_def start_server_def TASK_QUEUE_MAX_def)
  from request_roundtrip [OF rd p(3) sample_serves enc _ _ p(2,1,4) q, of Hs_done] show ?thesis
    by (auto simp: task_of_def)
qed

text \<open>
  C31. A damaged request is never executed. If, on its way, up to four consecutive bytes of the
  payload of a well-formed request were changed, the gateway adds nothing to the task queue and
  answers with the error packet for a checksum mismatch.
\<close>

theorem damaged_request_refused:
  assumes "byte_reader rd avail work" and "work w < k" and "serves sv i fd now now' env"
    and "type \<in> request_types" and "length (pre @ bs @ post) \<le> MAX_PAYLOAD"
    and "length cs = length bs" and "length bs \<le> 4" and "cs \<noteq> bs"
    and "pending (sv_clients sv ! i) = []"
    and "avail w = frame_header type (word_of_nat (length (pre @ bs @ post))) rid @ (pre @ cs @ post) @
           be32 (crc_of (pre @ bs @ post)) @ rest"
    and "e_packet env \<noteq> None" and "e_node env \<noteq> None"
  shows "\<exists>w' sv'. handle_request_client k rd hs now now' env w sv fd = Some (0, w', sv') \<and>
    sv_tasks sv' = sv_tasks sv \<and> m_tasks sv' = m_tasks sv \<and>
    error_queued sv i rid (word_of_nat (err_num ERR_CRC_MISMATCH)) sv' \<and>
    pending (sv_clients sv' ! i) @ avail w' = rest"
proof -
  let ?good = "pre @ bs @ post" and ?bad = "pre @ cs @ post"
  let ?e = "word_of_nat (err_num ERR_CRC_MISMATCH) :: u8"
  let ?acc = "frame_header type (word_of_nat (length ?good)) rid @ ?bad @ be32 (crc_of ?good) @ rest"
  have l: "length ?bad = length ?good" using assms(6) by simp
  have "crc_of ?good \<noteq> crc_of ?bad" using crc_burst [of bs cs pre post] assms(6-8) by metis
  with next_request_frame [OF assms(4,5) l, of rid "crc_of ?good" rest]
  have nr: "next_request ?acc = Refused rid ?e" "request_size ?acc = 20 + length ?good" by simp_all
  have acc: "?acc = pending (sv_clients sv ! i) @ avail w" using assms(9,10) by simp
  from handle_request_stream [OF assms(1-3) acc, of hs] obtain r w' sv' where
    h: "handle_request_client k rd hs now now' env w sv fd = Some (r, w', sv')"
    "request_outcome env sv i (Refused rid ?e) (r = 0) sv'"
    "if r = 0 then pending (sv_clients sv' ! i) @ avail w' = drop (request_size ?acc) ?acc
     else r = -1 \<and> c_fd (sv_clients sv' ! i) = -1"
    unfolding nr(1) by blast
  then have "r = 0" using assms(11) by (simp add: request_outcome_def)
  with h assms(11,12) nr(2) l show ?thesis by (simp add: request_outcome_def)
qed

theorem damaged_request_refused_witness:
  "\<exists>w' sv'. handle_request_client 100 sock_recv Hs_done 0 0 sample_env
      [Chunk (frame_header MSG_ECHO 2 9 @ [1, 3] @ be32 (crc_of [1, 2]))] sample_server 7 = Some (0, w', sv') \<and>
    m_tasks sv' = Map.empty"
proof -
  have rd: "byte_reader sock_recv sock_avail sock_work" by (rule sock.byte_reader_axioms)
  let ?w = "[Chunk (frame_header MSG_ECHO 2 9 @ [1, 3] @ be32 (crc_of [1, 2]))]"
  have p: "MSG_ECHO \<in> request_types" "length ([] @ [1, 2] @ [] :: bytes) \<le> MAX_PAYLOAD" "sock_work ?w < 100"
    "pending (sv_clients sample_server ! 0) = []"
    using sample_server_conn by (simp_all add: request_types_def MAX_PAYLOAD_def be32_def)
  show ?thesis
    using damaged_request_refused [OF rd p(3) sample_serves p(1,2), of "[1, 3]" 9 "[]" Hs_done] p(4) sample_server_conn
    by (auto simp: sample_env_def)
qed

end
