(* ===== verification/Cjson_Number.thy ===== *)
theory Cjson_Number
  imports Prelude Double
begin

text \<open>
  The numbers of JSON texts: the C library's \<open>strtod\<close> and \<open>sprintf\<close> conversions that
  \<open>parse_number\<close> and \<open>print_number\<close> (\<open>gateway/src/cJSON.c\<close>) call, on the texts that reach
  them. A \<open>double\<close> is a real number or an infinity; NaN cannot come from a JSON text, and the
  two zeros are identified.
\<close>

section \<open>Doubles\<close>

datatype double = Fin real | Inf bool

text \<open>Round to nearest even, with gradual underflow and overflow to infinity (\<open>Inf True\<close> is negative).\<close>

definition to_double :: "real \<Rightarrow> double" where
  "to_double x =
     (if x = 0 then Fin 0
      else let q = max (ulp x) (2 powr - 1074); r = of_int (rne (x / q)) * q in
        if \<bar>r\<bar> < 2 ^ 1024 then Fin r else Inf (x < 0))"

definition INT_MAX :: int where "INT_MAX = 2147483647"
definition INT_MIN :: int where "INT_MIN = - 2147483648"

text \<open>Conversion to \<open>int\<close> with the saturation of \<open>parse_number\<close> and \<open>cJSON_CreateNumber\<close>.\<close>

fun valueint_of :: "double \<Rightarrow> int" where
  "valueint_of (Inf neg) = (if neg then INT_MIN else INT_MAX)"
| "valueint_of (Fin x) =
     (if x \<ge> of_int INT_MAX then INT_MAX else if x \<le> of_int INT_MIN then INT_MIN
      else if 0 \<le> x then \<lfloor>x\<rfloor> else \<lceil>x\<rceil>)"

section \<open>Reading a decimal number\<close>

definition is_digit :: "u8 \<Rightarrow> bool" where "is_digit b = (0x30 \<le> b \<and> b \<le> 0x39)"

definition digits_nat :: "bytes \<Rightarrow> nat" where
  "digits_nat ds = foldl (\<lambda>n b. 10 * n + unat (b - 0x30)) 0 ds"

text \<open>An optional sign: whether it is a minus, how long it is, and the rest.\<close>

fun strtod_sign :: "bytes \<Rightarrow> bool \<times> nat \<times> bytes" where
  "strtod_sign (b # bs) = (if b = 0x2D then (True, 1, bs) else if b = 0x2B then (False, 1, bs) else (False, 0, b # bs))"
| "strtod_sign [] = (False, 0, [])"

text \<open>The fraction after a decimal point: its digits and its length with the point.\<close>

fun strtod_frac :: "bytes \<Rightarrow> bytes \<times> nat" where
  "strtod_frac (b # bs) = (if b = 0x2E then let f = takeWhile is_digit bs in (f, 1 + length f) else ([], 0))"
| "strtod_frac [] = ([], 0)"

text \<open>The exponent part, if there is a whole one: its value and its length.\<close>

fun strtod_exp :: "bytes \<Rightarrow> int \<times> nat" where
  "strtod_exp (b # bs) =
     (if b = 0x65 \<or> b = 0x45 then
        let (neg, s, r) = strtod_sign bs; d = takeWhile is_digit r in
        if d = [] then (0, 0) else ((if neg then - int (digits_nat d) else int (digits_nat d)), 1 + s + length d)
      else (0, 0))"
| "strtod_exp [] = (0, 0)"

text \<open>
  \<open>strtod\<close> on a text of digits, signs, points and exponent letters: the value and how many
  bytes it is written with (none if there is no number).
\<close>

definition strtod :: "bytes \<Rightarrow> double \<times> nat" where
  "strtod bs =
     (let (neg, s, r) = strtod_sign bs; ip = takeWhile is_digit r;
          (fp, n) = strtod_frac (drop (length ip) r);
          (e, m) = strtod_exp (drop (length ip + n) r);
          v = real (digits_nat (ip @ fp)) * 10 powr (of_int e - real (length fp)) in
      if ip = [] \<and> fp = [] then (Fin 0, 0)
      else (to_double (if neg then - v else v), s + length ip + n + m))"

section \<open>Writing a decimal number\<close>

text \<open>
  \<open>%1.Pg\<close>: \<open>P\<close> significant digits, exactly rounded, in fixed or scientific notation with
  trailing zeros removed.
\<close>

definition g_digits :: "nat \<Rightarrow> real \<Rightarrow> nat \<times> int" where
  "g_digits P x =
     (let e = \<lfloor>log 10 x\<rfloor>; m = nat (rne (x / 10 powr (of_int e - real P + 1))) in
      if m = 10 ^ P then (10 ^ (P - 1), e + 1) else (m, e))"

definition with_frac :: "bytes \<Rightarrow> bytes \<Rightarrow> bytes" where
  "with_frac ip fp =
     (let f = rev (dropWhile (\<lambda>b. b = 0x30) (rev fp)) in if f = [] then ip else ip @ [0x2E] @ f)"

definition exp_text :: "int \<Rightarrow> bytes" where
  "exp_text e =
     (let d = nat_digits (nat \<bar>e\<bar>) in
      [0x65, if e < 0 then 0x2D else 0x2B] @ (if length d < 2 then 0x30 # d else d))"

definition g_text :: "nat \<Rightarrow> real \<Rightarrow> bytes" where
  "g_text P x =
     (if x = 0 then [0x30]
      else let (m, e) = g_digits P \<bar>x\<bar>; ds = nat_digits m in
        (if x < 0 then [0x2D] else []) @
        (if e < -4 \<or> int P \<le> e then with_frac (take 1 ds) (drop 1 ds) @ exp_text e
         else if 0 \<le> e then with_frac (take (nat e + 1) ds) (drop (nat e + 1) ds)
         else with_frac [0x30] (replicate (nat (- e) - 1) 0x30 @ ds)))"

text \<open>\<open>compare_double\<close>, with the two roundings of its right-hand side\<close>

definition compare_double :: "real \<Rightarrow> real \<Rightarrow> bool" where
  "compare_double a b = (\<bar>dbl (a - b)\<bar> \<le> dbl (max \<bar>a\<bar> \<bar>b\<bar> * (2 powr - 52)))"

text \<open>The text \<open>print_number\<close> puts into \<open>number_buffer\<close>.\<close>

definition number_text :: "double \<Rightarrow> int \<Rightarrow> bytes" where
  "number_text d i =
     (case d of
        Inf _ \<Rightarrow> ascii ''null''
      | Fin x \<Rightarrow>
          if x = of_int i then dec_text i
          else let t = g_text 15 x in
            if (case fst (strtod t) of Fin y \<Rightarrow> compare_double y x | Inf _ \<Rightarrow> False) then t else g_text 17 x)"

section \<open>Digits read back\<close>

lemma nat_digits_digits: "\<forall>b \<in> set (nat_digits n). is_digit b"
proof (induction n rule: nat_digits.induct)
  case (1 n)
  have d: "is_digit (word_of_nat (0x30 + m))" if "m < 10" for m
    using that by (simp add: is_digit_def word_le_nat_alt unat_word_ariths unat_of_nat)
  show ?case using 1 d [of n] d [of "n mod 10"] by (subst nat_digits.simps) auto
qed

lemma nat_digits_nonempty [simp]: "nat_digits n \<noteq> []"
  by (subst nat_digits.simps) simp

lemma digits_nat_snoc: "digits_nat (ds @ [b]) = 10 * digits_nat ds + unat (b - 0x30)"
  by (simp add: digits_nat_def)

lemma digit_value: "m < 10 \<Longrightarrow> unat (word_of_nat (0x30 + m) - 0x30 :: u8) = m"
  by (simp add: unat_of_nat)

lemma digits_nat_digits: "digits_nat (nat_digits n) = n"
proof (induction n rule: nat_digits.induct)
  case (1 n)
  show ?case
  proof (cases "n < 10")
    case True
    then show ?thesis using digit_value [of n] by (subst nat_digits.simps) (simp add: digits_nat_def)
  next
    case False
    then show ?thesis
      using 1 digit_value [of "n mod 10"] by (subst nat_digits.simps) (simp add: digits_nat_snoc)
  qed
qed

lemma to_double_of_nat:
  assumes "n < 2 ^ 53"
  shows "to_double (real n) = Fin (real n)" and "to_double (- real n) = Fin (- real n)"
proof -
  have "to_double (real n) = Fin (real n) \<and> to_double (- real n) = Fin (- real n)"
  proof (cases "n = 0")
    case True
    then show ?thesis by (simp add: to_double_def)
  next
    case False
    then have n: "1 \<le> real n" by simp
    define k where "k = rne (real n / ulp (real n))"
    have "of_int k * ulp (real n) = real n" using dbl_of_nat [OF assms] False by (simp add: dbl_def k_def)
    then have q: "real n / ulp (real n) = of_int k" by (simp add: field_simps)
    have "- real n / ulp (real n) = of_int (- k)" using q by simp
    then have r: "rne (- real n / ulp (real n)) = - k" by (metis rne_of_int)
    have "0 \<le> \<lfloor>log 2 (real n)\<rfloor>" using n by (simp add: zero_le_log_cancel_iff)
    then have "(2 :: real) powr (- 1074) \<le> ulp (real n)" unfolding ulp_def by (simp add: powr_mono)
    then have m: "max (ulp (real n)) (2 powr - 1074) = ulp (real n)" "max (ulp (- real n)) (2 powr - 1074) = ulp (real n)"
      by (simp_all add: ulp_def)
    have "real n < 2 ^ 53" using assms by (metis of_nat_less_iff of_nat_numeral of_nat_power)
    also have "(2 :: real) ^ 53 < 2 ^ 1024" by (intro power_strict_increasing) simp_all
    finally have "real n < 2 ^ 1024" .
    then show ?thesis
      using False m r q \<open>of_int k * ulp (real n) = real n\<close> by (simp add: to_double_def Let_def)
  qed
  then show "to_double (real n) = Fin (real n)" and "to_double (- real n) = Fin (- real n)" by simp_all
qed

lemma takeWhile_digits: "\<forall>b \<in> set ds. is_digit b \<Longrightarrow> takeWhile is_digit ds = ds"
  by (simp add: takeWhile_eq_all_conv)

text \<open>What \<open>%d\<close> writes, \<open>strtod\<close> reads back, to its end.\<close>

lemma strtod_digits:
  "strtod (nat_digits n) = (to_double (real n), length (nat_digits n))"
  "strtod (0x2D # nat_digits n) = (to_double (- real n), Suc (length (nat_digits n)))"
proof -
  note d = takeWhile_digits [OF nat_digits_digits [of n]]
  obtain b ds where b: "nat_digits n = b # ds" "is_digit b" using nat_digits_digits [of n] by (cases "nat_digits n") auto
  then have "b \<noteq> 0x2D \<and> b \<noteq> 0x2B" by (auto simp: is_digit_def)
  then have "strtod_sign (nat_digits n) = (False, 0, nat_digits n)" using b by simp
  then show "strtod (nat_digits n) = (to_double (real n), length (nat_digits n))"
    "strtod (0x2D # nat_digits n) = (to_double (- real n), Suc (length (nat_digits n)))"
    using digits_nat_digits [of n] by (simp_all add: strtod_def d Let_def)
qed

lemma strtod_dec_text:
  assumes "\<bar>i\<bar> < 2 ^ 53"
  shows "strtod (dec_text i) = (Fin (of_int i), length (dec_text i))"
  using assms strtod_digits [of "nat \<bar>i\<bar>"] to_double_of_nat [of "nat \<bar>i\<bar>"] by (auto simp: dec_text_def nat_less_iff)

lemma valueint_of_int: "INT_MIN \<le> i \<Longrightarrow> i \<le> INT_MAX \<Longrightarrow> valueint_of (Fin (of_int i)) = i"
  by (auto simp: INT_MIN_def INT_MAX_def)

section \<open>How long a printed number is\<close>

text \<open>The values a \<open>double\<close> can hold.\<close>

definition is_double :: "double \<Rightarrow> bool" where
  "is_double d = (case d of Inf _ \<Rightarrow> True | Fin x \<Rightarrow> x = 0 \<or> 2 powr - 1074 \<le> \<bar>x\<bar> \<and> \<bar>x\<bar> < 2 ^ 1024)"

lemma nat_digits_length: "n < 10 ^ Suc k \<Longrightarrow> length (nat_digits n) \<le> Suc k"
proof (induction k arbitrary: n)
  case 0
  then show ?case by (subst nat_digits.simps) simp
next
  case (Suc k)
  then have "n div 10 < 10 ^ Suc k" by (simp add: less_mult_imp_div_less mult.commute)
  from Suc.IH [OF this] show ?case by (subst nat_digits.simps) simp
qed

lemma dec_text_length: "INT_MIN \<le> i \<Longrightarrow> i \<le> INT_MAX \<Longrightarrow> length (dec_text i) \<le> 11"
  using nat_digits_length [of "nat (- i)" 9] nat_digits_length [of "nat i" 9]
  by (auto simp: dec_text_def INT_MIN_def INT_MAX_def nat_less_iff)

lemma g_digits_bound:
  assumes "0 < x" and "0 < P"
  shows "fst (g_digits P x) < 10 ^ P"
proof -
  let ?e = "\<lfloor>log 10 x\<rfloor>"
  let ?y = "x / 10 powr (of_int ?e - real P + 1)"
  have "x < 10 powr (of_int ?e + 1)" using floor_log_eq_powr_iff [of x 10 ?e] assms(1) by simp
  also have "\<dots> = 10 powr (of_int ?e - real P + 1) * 10 ^ P" by (simp add: powr_realpow [symmetric] powr_add [symmetric])
  finally have "?y \<le> of_int (10 ^ P)" by (simp add: field_simps)
  then have "rne ?y \<le> 10 ^ P" using rne_mono [of ?y "of_int (10 ^ P)"] by (simp del: of_int_power)
  then have "nat (rne ?y) \<le> 10 ^ P" by (simp add: nat_le_iff)
  moreover have "(10 :: nat) ^ (P - 1) < 10 ^ P" using assms(2) by (intro power_strict_increasing) auto
  ultimately show ?thesis by (auto simp: g_digits_def Let_def)
qed

lemma g_digits_exp:
  assumes "2 powr - 1074 \<le> x" and "x < 2 ^ 1024"
  shows "- 325 \<le> snd (g_digits P x) \<and> snd (g_digits P x) \<le> 309"
proof -
  have x: "0 < x" using assms(1) powr_gt_zero [of 2 "- 1074"] by linarith
  have "(2 :: real) ^ 1074 \<le> 10 ^ 324" by simp
  then have "inverse ((10 :: real) ^ 324) \<le> inverse (2 ^ 1074)" by (rule le_imp_inverse_le) (rule zero_less_power, rule zero_less_numeral)
  then have "(10 :: real) powr (- 324) \<le> 2 powr (- 1074)" by (simp only: powr_minus powr_numeral zero_less_numeral)
  then have "10 powr (- 324) \<le> x" using assms(1) by linarith
  then have "- 324 \<le> log 10 x" using x by (simp add: le_log_iff)
  then have l: "- 324 \<le> \<lfloor>log 10 x\<rfloor>" by linarith
  have "x < 10 ^ 309" using assms(2) by (rule less_le_trans) simp
  then have "x < 10 powr 309" by (simp only: powr_numeral zero_less_numeral)
  then have "log 10 x < 309" using x by (simp only: log_less_iff one_less_numeral_iff semiring_norm)
  then have "\<lfloor>log 10 x\<rfloor> \<le> 308" by linarith
  moreover have "snd (g_digits P x) = \<lfloor>log 10 x\<rfloor> \<or> snd (g_digits P x) = \<lfloor>log 10 x\<rfloor> + 1" by (simp add: g_digits_def Let_def)
  ultimately show ?thesis using l by linarith
qed

lemma with_frac_length: "length (with_frac ip fp) \<le> length ip + 1 + length fp"
  using length_dropWhile_le [of "\<lambda>b. b = 0x30" "rev fp"] by (simp add: with_frac_def Let_def)

lemma exp_text_length: "\<bar>e\<bar> < 1000 \<Longrightarrow> length (exp_text e) \<le> 5"
  using nat_digits_length [of "nat \<bar>e\<bar>" 2] by (auto simp: exp_text_def Let_def nat_less_iff)

lemma g_text_length:
  assumes "is_double (Fin x)" and "0 < P"
  shows "length (g_text P x) \<le> P + 7"
proof (cases "x = 0")
  case False
  obtain m e where g: "g_digits P \<bar>x\<bar> = (m, e)" by (cases "g_digits P \<bar>x\<bar>")
  let ?ds = "nat_digits m"
  obtain k where k: "P = Suc k" using assms(2) by (cases P) auto
  have d: "length ?ds \<le> P" using g_digits_bound [of "\<bar>x\<bar>" P] False g nat_digits_length [of m k] k by simp
  have "\<bar>e\<bar> < 1000" using g_digits_exp [of "\<bar>x\<bar>" P] assms(1) False g by (auto simp: is_double_def)
  then have e: "length (exp_text e) \<le> 5" by (rule exp_text_length)
  have w: "length (with_frac (take n ?ds) (drop n ?ds)) \<le> P + 1" for n
    using with_frac_length [of "take n ?ds" "drop n ?ds"] d by simp
  have "length (with_frac [0x30] (replicate (nat (- e) - 1) 0x30 @ ?ds)) \<le> P + 6" if "\<not> e < -4"
    using with_frac_length [of "[0x30]" "replicate (nat (- e) - 1) 0x30 @ ?ds"] d that by simp
  then show ?thesis
    using False g e w [of 1] w [of "nat e + 1"] by (auto simp: g_text_def Let_def)
qed (simp add: g_text_def)

lemma number_text_length:
  assumes "is_double d" and "INT_MIN \<le> i" and "i \<le> INT_MAX"
  shows "length (number_text d i) \<le> 24"
  using g_text_length [of _ 15] g_text_length [of _ 17] dec_text_length [OF assms(2,3)] assms(1)
  by (cases d) (fastforce simp: number_text_def Let_def ascii_def)+

lemma is_double_to_double: "is_double (to_double x)"
proof (cases "x = 0")
  case False
  define q where "q = max (ulp x) (2 powr - 1074)"
  define k where "k = rne (x / q)"
  have q1: "2 powr - 1074 \<le> q" by (simp add: q_def)
  have "0 < q" by (rule less_le_trans [OF _ q1]) simp
  then have q: "2 powr - 1074 \<le> q" "\<bar>q\<bar> = q" using q1 by simp_all
  have "2 powr - 1074 \<le> \<bar>of_int k * q\<bar>" if "k \<noteq> 0"
  proof -
    have "1 \<le> \<bar>of_int k :: real\<bar>" using that by linarith
    then have "1 * q \<le> \<bar>of_int k\<bar> * q" using q by (intro mult_right_mono) linarith+
    then show ?thesis using q by (simp add: abs_mult)
  qed
  moreover have "to_double x = (if \<bar>of_int k * q\<bar> < 2 ^ 1024 then Fin (of_int k * q) else Inf (x < 0))"
    using False by (simp add: to_double_def q_def k_def Let_def)
  ultimately show ?thesis by (auto simp: is_double_def)
qed (simp add: to_double_def is_double_def)

lemma valueint_of_range: "INT_MIN \<le> valueint_of d \<and> valueint_of d \<le> INT_MAX"
proof (cases d)
  case (Fin x)
  then show ?thesis by (auto simp: INT_MIN_def INT_MAX_def le_floor_iff floor_le_iff le_ceiling_iff ceiling_le_iff)
qed (auto simp: INT_MIN_def INT_MAX_def)

end
