(* ===== verification/Cjson_Parse.thy ===== *)
theory Cjson_Parse
  imports Cjson_Number
begin

text \<open>
  The parser of \<open>gateway/src/cJSON.c\<close>. The input buffer is exactly the bytes the caller
  announced, so that any access past them is undefined (\<open>None\<close>); the answer of the allocator
  to its \<open>n\<close>-th call is \<open>al n\<close>. An item of the C tree, with its linked list of children, is a
  value of the datatype below; the bytes of a string are those written before its terminator.
  The position a failed parse leaves for \<open>cJSON_GetErrorPtr\<close> only serves a log line and is not
  tracked; freeing is left out.
\<close>

section \<open>The code\<close>

datatype cJSON = cJSON_NULL | cJSON_False | cJSON_True | cJSON_Number double int | cJSON_String bytes
  | cJSON_Array "cJSON list" | cJSON_Object "(bytes \<times> cJSON) list"

definition CJSON_NESTING_LIMIT :: nat where "CJSON_NESTING_LIMIT = 1000"

record parse_buffer =
  pb_content :: bytes
  pb_offset :: nat
  pb_depth :: nat
  pb_allocs :: nat

definition can_access_at_index :: "parse_buffer \<Rightarrow> nat \<Rightarrow> bool" where
  "can_access_at_index b i = (pb_offset b + i < length (pb_content b))"

text \<open>\<open>buffer_at_offset(buffer)[i]\<close>\<close>

definition buffer_at :: "parse_buffer \<Rightarrow> nat \<Rightarrow> u8 option" where
  "buffer_at b i = (if pb_offset b + i < length (pb_content b) then Some (pb_content b ! (pb_offset b + i)) else None)"

definition allocate :: "(nat \<Rightarrow> bool) \<Rightarrow> parse_buffer \<Rightarrow> bool \<times> parse_buffer" where
  "allocate al b = (al (pb_allocs b), b \<lparr> pb_allocs := Suc (pb_allocs b) \<rparr>)"

definition buffer_skip_whitespace :: "parse_buffer \<Rightarrow> parse_buffer" where
  "buffer_skip_whitespace b =
     (if \<not> can_access_at_index b 0 then b
      else let n = length (takeWhile (\<lambda>c. c \<le> 32) (drop (pb_offset b) (pb_content b)));
               b = b \<lparr> pb_offset := pb_offset b + n \<rparr> in
        if pb_offset b = length (pb_content b) then b \<lparr> pb_offset := pb_offset b - 1 \<rparr> else b)"

definition skip_utf8_bom :: "parse_buffer \<Rightarrow> parse_buffer option" where
  "skip_utf8_bom b =
     (if pb_offset b \<noteq> 0 then None
      else if can_access_at_index b 4 \<and> take 3 (pb_content b) = [0xEF, 0xBB, 0xBF]
      then Some (b \<lparr> pb_offset := pb_offset b + 3 \<rparr>) else Some b)"

text \<open>Numbers.\<close>

definition number_char :: "u8 \<Rightarrow> bool" where
  "number_char c = (is_digit c \<or> c = 0x2B \<or> c = 0x2D \<or> c = 0x65 \<or> c = 0x45 \<or> c = 0x2E)"

definition parse_number :: "(nat \<Rightarrow> bool) \<Rightarrow> parse_buffer \<Rightarrow> cJSON option \<times> parse_buffer" where
  "parse_number al b =
     (let number_c_string = takeWhile number_char (drop (pb_offset b) (pb_content b));
          (ok, b) = allocate al b in
      if \<not> ok then (None, b)
      else let (number, n) = strtod number_c_string in
        if n = 0 then (None, b)
        else (Some (cJSON_Number number (valueint_of number)), b \<lparr> pb_offset := pb_offset b + n \<rparr>))"

text \<open>Strings. \<open>hex_digit\<close> is one round of the loop of \<open>parse_hex4\<close>.\<close>

definition hex_digit :: "u8 \<Rightarrow> u32 option" where
  "hex_digit c =
     (if 0x30 \<le> c \<and> c \<le> 0x39 then Some (ucast c - 0x30)
      else if 0x41 \<le> c \<and> c \<le> 0x46 then Some (10 + ucast c - 0x41)
      else if 0x61 \<le> c \<and> c \<le> 0x66 then Some (10 + ucast c - 0x61)
      else None)"

text \<open>\<open>parse_hex4\<close> at position \<open>p\<close>, from digit \<open>i\<close> on; an invalid digit makes the result 0.\<close>

function parse_hex4 :: "bytes \<Rightarrow> nat \<Rightarrow> nat \<Rightarrow> u32 \<Rightarrow> u32 option" where
  "parse_hex4 c p i h =
     (if i < 4 then
        if p + i < length c then
          case hex_digit (c ! (p + i)) of
            None \<Rightarrow> Some 0
          | Some d \<Rightarrow> parse_hex4 c p (i + 1) (if i < 3 then push_bit 4 (h + d) else h + d)
        else None
      else Some h)"
  by pat_completeness auto
termination by (relation "measure (\<lambda>(c, p, i, h). 4 - i)") auto

declare parse_hex4.simps [simp del]

text \<open>The loop that writes the continuation bytes, last one first.\<close>

fun utf8_bytes :: "nat \<Rightarrow> u64 \<Rightarrow> u8 \<Rightarrow> bytes" where
  "utf8_bytes 0 codepoint mark = []"
| "utf8_bytes (Suc 0) codepoint mark = [if mark = 0 then ucast (codepoint AND 0x7F) else ucast ((codepoint OR ucast mark) AND 0xFF)]"
| "utf8_bytes (Suc n) codepoint mark = utf8_bytes n (drop_bit 6 codepoint) mark @ [ucast ((codepoint OR 0x80) AND 0xBF)]"

definition utf8_encode :: "u64 \<Rightarrow> bytes option" where
  "utf8_encode codepoint =
     (if codepoint < 0x80 then Some (utf8_bytes 1 codepoint 0)
      else if codepoint < 0x800 then Some (utf8_bytes 2 codepoint 0xC0)
      else if codepoint < 0x10000 then Some (utf8_bytes 3 codepoint 0xE0)
      else if codepoint \<le> 0x10FFFF then Some (utf8_bytes 4 codepoint 0xF0)
      else None)"

text \<open>The bytes written and the length of the sequence read; \<open>Some None\<close> is the return value 0.\<close>

definition utf16_literal_to_utf8 :: "bytes \<Rightarrow> nat \<Rightarrow> nat \<Rightarrow> (bytes \<times> nat) option option" where
  "utf16_literal_to_utf8 c p e =
     (if e - p < 6 then Some None
      else do {
        first_code \<leftarrow> parse_hex4 c (p + 2) 0 0;
        if 0xDC00 \<le> first_code \<and> first_code \<le> 0xDFFF then Some None
        else if 0xD800 \<le> first_code \<and> first_code \<le> 0xDBFF then
          (let q = p + 6 in
           if e - q < 6 then Some None
           else if q + 1 \<ge> length c then None
           else if c ! q \<noteq> 0x5C \<or> c ! (q + 1) \<noteq> 0x75 then Some None
           else do {
             second_code \<leftarrow> parse_hex4 c (q + 2) 0 0;
             if second_code < 0xDC00 \<or> second_code > 0xDFFF then Some None
             else Some (map_option (\<lambda>bs. (bs, 12)) (utf8_encode
               (ucast (0x10000 + (push_bit 10 (first_code AND 0x3FF) OR (second_code AND 0x3FF))))))
           })
        else Some (map_option (\<lambda>bs. (bs, 6)) (utf8_encode (ucast first_code)))
      })"

text \<open>
  The first loop of \<open>parse_string\<close>: the position of the closing quote and the number of
  escapes, or \<open>None\<close> for \<open>goto fail\<close>. All its accesses are behind the length checks.
\<close>

function scan_string :: "bytes \<Rightarrow> nat \<Rightarrow> nat \<Rightarrow> (nat \<times> nat) option" where
  "scan_string c e skipped_bytes =
     (if e < length c \<and> c ! e \<noteq> 0x22 then
        if c ! e = 0x5C then
          if e + 1 \<ge> length c then None else scan_string c (e + 2) (skipped_bytes + 1)
        else scan_string c (e + 1) skipped_bytes
      else if e \<ge> length c then None else Some (e, skipped_bytes))"
  by pat_completeness auto
termination by (relation "measure (\<lambda>(c, e, s). length c - e)") auto

declare scan_string.simps [simp del]

text \<open>The escapes of one character.\<close>

definition simple_escape :: "u8 \<Rightarrow> u8 option" where
  "simple_escape c =
     (if c = 0x62 then Some 0x08 else if c = 0x66 then Some 0x0C else if c = 0x6E then Some 0x0A
      else if c = 0x72 then Some 0x0D else if c = 0x74 then Some 0x09
      else if c = 0x22 \<or> c = 0x5C \<or> c = 0x2F then Some c else None)"

text \<open>
  The second loop: \<open>p\<close> is \<open>input_pointer\<close>, \<open>e\<close> is \<open>input_end\<close>, and \<open>out\<close> what has been written
  to the block of \<open>cap\<close> bytes. \<open>Some None\<close> is \<open>goto fail\<close>.
\<close>

function unescape :: "bytes \<Rightarrow> nat \<Rightarrow> nat \<Rightarrow> nat \<Rightarrow> bytes \<Rightarrow> bytes option option" where
  "unescape c p e cap out =
     (if p < e then
        if p \<ge> length c then None
        else if c ! p \<noteq> 0x5C then
          (if length out < cap then unescape c (p + 1) e cap (out @ [c ! p]) else None)
        else if e - p < 1 then Some None
        else if p + 1 \<ge> length c then None
        else if c ! (p + 1) = 0x75 then
          case utf16_literal_to_utf8 c p e of
            None \<Rightarrow> None
          | Some None \<Rightarrow> Some None
          | Some (Some (bs, n)) \<Rightarrow>
              if n = 0 then Some None
              else if length out + length bs \<le> cap then unescape c (p + n) e cap (out @ bs) else None
        else
          (case simple_escape (c ! (p + 1)) of
             None \<Rightarrow> Some None
           | Some x \<Rightarrow> if length out < cap then unescape c (p + 2) e cap (out @ [x]) else None)
      else Some (Some out))"
  by pat_completeness auto
termination by (relation "measure (\<lambda>(c, p, e, cap, out). e - p)") auto

declare unescape.simps [simp del]

text \<open>The item's string, or \<open>Some (None, \<dots>)\<close> for a return of false.\<close>

definition parse_string :: "(nat \<Rightarrow> bool) \<Rightarrow> parse_buffer \<Rightarrow> (bytes option \<times> parse_buffer) option" where
  "parse_string al b = do {
     x \<leftarrow> buffer_at b 0;
     if x \<noteq> 0x22 then Some (None, b)
     else case scan_string (pb_content b) (pb_offset b + 1) 0 of
       None \<Rightarrow> Some (None, b)
     | Some (input_end, skipped_bytes) \<Rightarrow>
         let allocation_length = input_end - pb_offset b - skipped_bytes;
             (ok, b) = allocate al b in
         if \<not> ok then Some (None, b)
         else do {
           r \<leftarrow> unescape (pb_content b) (pb_offset b + 1) input_end (allocation_length + 1) [];
           case r of
             None \<Rightarrow> Some (None, b)
           | Some output \<Rightarrow>
               if length output < allocation_length + 1
               then Some (Some output, b \<lparr> pb_offset := input_end + 1 \<rparr>) else None
         }
   }"

text \<open>\<open>can_read(b, n) && strncmp(buffer_at_offset(b), lit, n) == 0\<close>\<close>

definition reads_literal :: "parse_buffer \<Rightarrow> bytes \<Rightarrow> bool" where
  "reads_literal b lit =
     (pb_offset b + length lit \<le> length (pb_content b) \<and> take (length lit) (drop (pb_offset b) (pb_content b)) = lit)"

definition advance :: "nat \<Rightarrow> parse_buffer \<Rightarrow> parse_buffer" where
  "advance n b = b \<lparr> pb_offset := pb_offset b + n \<rparr>"

definition next_is :: "parse_buffer \<Rightarrow> u8 \<Rightarrow> bool" where
  "next_is b x = (can_access_at_index b 0 \<and> buffer_at b 0 = Some x)"

text \<open>
  The loops over the elements of an array and the members of an object, with the parser of
  values as an argument; \<open>n\<close> bounds the number of rounds.
\<close>

fun array_loop ::
  "nat \<Rightarrow> (parse_buffer \<Rightarrow> (cJSON option \<times> parse_buffer) option) \<Rightarrow> (nat \<Rightarrow> bool) \<Rightarrow> parse_buffer \<Rightarrow> cJSON list \<Rightarrow>
   (cJSON list option \<times> parse_buffer) option" where
  "array_loop 0 pv al b items = None"
| "array_loop (Suc n) pv al b items =
     (let (ok, b) = allocate al b in
      if \<not> ok then Some (None, b)
      else do {
        (v, b) \<leftarrow> pv (buffer_skip_whitespace (advance 1 b));
        case v of
          None \<Rightarrow> Some (None, b)
        | Some x \<Rightarrow>
            let b = buffer_skip_whitespace b in
            if next_is b 0x2C then array_loop n pv al b (items @ [x]) else Some (Some (items @ [x]), b)
      })"

fun object_loop ::
  "nat \<Rightarrow> (parse_buffer \<Rightarrow> (cJSON option \<times> parse_buffer) option) \<Rightarrow> (nat \<Rightarrow> bool) \<Rightarrow> parse_buffer \<Rightarrow>
   (bytes \<times> cJSON) list \<Rightarrow> ((bytes \<times> cJSON) list option \<times> parse_buffer) option" where
  "object_loop 0 pv al b items = None"
| "object_loop (Suc n) pv al b items =
     (let (ok, b) = allocate al b in
      if \<not> ok then Some (None, b)
      else if \<not> can_access_at_index b 1 then Some (None, b)
      else do {
        (name, b) \<leftarrow> parse_string al (buffer_skip_whitespace (advance 1 b));
        case name of
          None \<Rightarrow> Some (None, b)
        | Some string \<Rightarrow>
            let b = buffer_skip_whitespace b in
            if \<not> next_is b 0x3A then Some (None, b)
            else do {
              (v, b) \<leftarrow> pv (buffer_skip_whitespace (advance 1 b));
              case v of
                None \<Rightarrow> Some (None, b)
              | Some x \<Rightarrow>
                  let b = buffer_skip_whitespace b in
                  if next_is b 0x2C then object_loop n pv al b (items @ [(string, x)])
                  else Some (Some (items @ [(string, x)]), b)
            }
      })"

text \<open>What \<open>parse_array\<close> and \<open>parse_object\<close> share: the brackets, the depth, the empty list.\<close>

definition parse_brackets ::
  "u8 \<Rightarrow> u8 \<Rightarrow> (parse_buffer \<Rightarrow> ('a list option \<times> parse_buffer) option) \<Rightarrow> ('a list \<Rightarrow> cJSON) \<Rightarrow> parse_buffer \<Rightarrow>
   (cJSON option \<times> parse_buffer) option" where
  "parse_brackets opening closing loop mk b =
     (if pb_depth b \<ge> CJSON_NESTING_LIMIT then Some (None, b)
      else do {
        let b = b \<lparr> pb_depth := pb_depth b + 1 \<rparr>;
        x \<leftarrow> buffer_at b 0;
        if x \<noteq> opening then Some (None, b)
        else do {
          let b = buffer_skip_whitespace (advance 1 b);
          if next_is b closing then Some (Some (mk []), (advance 1 b) \<lparr> pb_depth := pb_depth b - 1 \<rparr>)
          else if \<not> can_access_at_index b 0 then Some (None, b \<lparr> pb_offset := pb_offset b - 1 \<rparr>)
          else do {
            (r, b) \<leftarrow> loop (b \<lparr> pb_offset := pb_offset b - 1 \<rparr>);
            case r of
              None \<Rightarrow> Some (None, b)
            | Some items \<Rightarrow>
                if \<not> next_is b closing then Some (None, b)
                else Some (Some (mk items), (advance 1 b) \<lparr> pb_depth := pb_depth b - 1 \<rparr>)
          }
        }
      })"

definition parse_array ::
  "nat \<Rightarrow> (parse_buffer \<Rightarrow> (cJSON option \<times> parse_buffer) option) \<Rightarrow> (nat \<Rightarrow> bool) \<Rightarrow> parse_buffer \<Rightarrow>
   (cJSON option \<times> parse_buffer) option" where
  "parse_array n pv al b = parse_brackets 0x5B 0x5D (\<lambda>b. array_loop n pv al b []) cJSON_Array b"

definition parse_object ::
  "nat \<Rightarrow> (parse_buffer \<Rightarrow> (cJSON option \<times> parse_buffer) option) \<Rightarrow> (nat \<Rightarrow> bool) \<Rightarrow> parse_buffer \<Rightarrow>
   (cJSON option \<times> parse_buffer) option" where
  "parse_object n pv al b =
     (if pb_depth b < CJSON_NESTING_LIMIT \<and> \<not> can_access_at_index b 0 then Some (None, b)
      else parse_brackets 0x7B 0x7D (\<lambda>b. object_loop n pv al b []) cJSON_Object b)"

fun parse_value :: "nat \<Rightarrow> (nat \<Rightarrow> bool) \<Rightarrow> parse_buffer \<Rightarrow> (cJSON option \<times> parse_buffer) option" where
  "parse_value 0 al b = None"
| "parse_value (Suc k) al b =
     (if reads_literal b (ascii ''null'') then Some (Some cJSON_NULL, advance 4 b)
      else if reads_literal b (ascii ''false'') then Some (Some cJSON_False, advance 5 b)
      else if reads_literal b (ascii ''true'') then Some (Some cJSON_True, advance 4 b)
      else case buffer_at b 0 of
        None \<Rightarrow> Some (None, b)
      | Some x \<Rightarrow>
          if x = 0x22 then do { (s, b) \<leftarrow> parse_string al b; Some (map_option cJSON_String s, b) }
          else if x = 0x2D \<or> is_digit x then Some (parse_number al b)
          else if x = 0x5B then parse_array (Suc k) (parse_value k al) al b
          else if x = 0x7B then parse_object (Suc k) (parse_value k al) al b
          else Some (None, b))"

text \<open>
  \<open>cJSON_ParseWithLength\<close>: no terminator is required and the rest of the input is ignored. The
  fuel is one more than the number of bytes: every nesting level and every round of a loop
  reads at least one.
\<close>

definition cJSON_ParseWithLength :: "(nat \<Rightarrow> bool) \<Rightarrow> bytes \<Rightarrow> cJSON option option" where
  "cJSON_ParseWithLength al value =
     (if value = [] then Some None
      else let (ok, b) = allocate al \<lparr> pb_content = value, pb_offset = 0, pb_depth = 0, pb_allocs = 0 \<rparr> in
        if \<not> ok then Some None
        else case skip_utf8_bom b of
          None \<Rightarrow> Some None
        | Some b \<Rightarrow> do {
            (v, b) \<leftarrow> parse_value (length value + 1) al (buffer_skip_whitespace b);
            Some v
          })"

section \<open>No access outside a buffer, and termination\<close>

text \<open>
  \<open>aligned c E p u\<close>: from \<open>p\<close> the scan of a string literal reaches the closing quote at \<open>E\<close> in
  \<open>u\<close> units, where an escape of two bytes is one unit.
\<close>

inductive aligned :: "bytes \<Rightarrow> nat \<Rightarrow> nat \<Rightarrow> nat \<Rightarrow> bool" for c E where
  quote: "E < length c \<Longrightarrow> c ! E = 0x22 \<Longrightarrow> aligned c E E 0"
| single: "aligned c E (p + 1) u \<Longrightarrow> c ! p \<noteq> 0x22 \<Longrightarrow> c ! p \<noteq> 0x5C \<Longrightarrow> aligned c E p (u + 1)"
| escape: "aligned c E (p + 2) u \<Longrightarrow> c ! p = 0x5C \<Longrightarrow> aligned c E p (u + 1)"

inductive_cases alignedE: "aligned c E p u"

lemma aligned_bounds: "aligned c E p u \<Longrightarrow> p \<le> E \<and> E < length c \<and> c ! E = 0x22 \<and> u \<le> E - p"
  by (induction rule: aligned.induct) auto

lemma aligned_step:
  assumes "aligned c E p u" and "p < E"
  shows "0 < u \<and> c ! p \<noteq> 0x22 \<and> (if c ! p = 0x5C then aligned c E (p + 2) (u - 1) else aligned c E (p + 1) (u - 1))"
  using assms by (cases rule: alignedE) auto

lemma scan_string_aligned:
  "scan_string c p s = Some (E, S) \<Longrightarrow> \<exists>u. aligned c E p u \<and> s \<le> S \<and> E = p + u + (S - s)"
proof (induction c p s rule: scan_string.induct)
  case (1 c p s)
  show ?case
  proof (cases "p < length c \<and> c ! p \<noteq> 0x22")
    case False
    then show ?thesis
      using "1.prems" by (auto simp: scan_string.simps [of c p s] intro: aligned.quote split: if_splits)
  next
    case True
    show ?thesis
    proof (cases "c ! p = 0x5C")
      case esc: True
      with True "1.prems" have r: "\<not> p + 1 \<ge> length c" "scan_string c (p + 2) (s + 1) = Some (E, S)"
        by (auto simp: scan_string.simps [of c p s] split: if_splits)
      from "1.IH"(1) [OF True esc r] obtain u where
        u: "aligned c E (p + 2) u" "s + 1 \<le> S" "E = p + 2 + u + (S - (s + 1))" by blast
      from aligned.escape [OF u(1) esc] u(2,3) show ?thesis by (intro exI [of _ "u + 1"]) simp
    next
      case sgl: False
      with True "1.prems" have r: "scan_string c (p + 1) s = Some (E, S)"
        by (auto simp: scan_string.simps [of c p s] split: if_splits)
      from "1.IH"(2) [OF True sgl r] obtain u where
        u: "aligned c E (p + 1) u" "s \<le> S" "E = p + 1 + u + (S - s)" by blast
      from aligned.single [OF u(1)] sgl True u(2,3) show ?thesis by (intro exI [of _ "u + 1"]) simp
    qed
  qed
qed

lemma parse_hex4_defined: "p + 4 \<le> length c \<Longrightarrow> \<exists>r. parse_hex4 c p i h = Some r"
proof (induction c p i h rule: parse_hex4.induct)
  case (1 c p i h)
  then show ?case by (subst parse_hex4.simps) (auto split: option.split)
qed

text \<open>A result other than 0 means four hexadecimal digits, which are units of their own.\<close>

lemma parse_hex4_digits:
  "parse_hex4 c p i h = Some r \<Longrightarrow> r \<noteq> 0 \<Longrightarrow> i \<le> j \<Longrightarrow> j < 4 \<Longrightarrow> hex_digit (c ! (p + j)) \<noteq> None"
proof (induction c p i h rule: parse_hex4.induct)
  case (1 c p i h)
  from "1.prems"(1-4) obtain d where d: "i < 4" "p + i < length c" "hex_digit (c ! (p + i)) = Some d"
    "parse_hex4 c p (i + 1) (if i < 3 then push_bit 4 (h + d) else h + d) = Some r"
    by (auto simp: parse_hex4.simps [of c p i h] split: if_splits option.splits)
  show ?case
  proof (cases "j = i")
    case False
    then show ?thesis using "1.IH" [OF d(1-4) "1.prems"(2)] "1.prems"(3,4) by simp
  qed (simp add: d)
qed

lemma hex_digit_single: "hex_digit x \<noteq> None \<Longrightarrow> x \<noteq> 0x22 \<and> x \<noteq> 0x5C"
  by (auto simp: hex_digit_def split: if_splits)

lemma aligned_run:
  assumes "aligned c E p u"
  shows "p + n \<le> E \<Longrightarrow> \<forall>j < n. c ! (p + j) \<noteq> 0x5C \<Longrightarrow> n \<le> u \<and> aligned c E (p + n) (u - n)"
proof (induction n)
  case (Suc n)
  then have "n \<le> u" "aligned c E (p + n) (u - n)" "c ! (p + n) \<noteq> 0x5C" "p + n < E" by simp_all
  with aligned_step [of c E "p + n" "u - n"] show ?case by simp
qed (use assms in simp)

lemma aligned_hex:
  assumes "aligned c E p u" and "p + 4 \<le> E" and "parse_hex4 c p 0 0 = Some r" and "r \<noteq> 0"
  shows "4 \<le> u \<and> aligned c E (p + 4) (u - 4)"
  using aligned_run [OF assms(1,2)] parse_hex4_digits [OF assms(3,4)] hex_digit_single by blast

text \<open>
  Four bytes further on, whatever they are: at a unit again, or in the middle of an escape.
\<close>

lemma aligned_four:
  assumes "aligned c E p u" and "p + 4 \<le> E"
  shows "(\<exists>v. aligned c E (p + 4) v \<and> v + 2 \<le> u) \<or> (\<exists>v. aligned c E (p + 5) v \<and> v + 3 \<le> u)"
proof -
  have step: "\<exists>w v. aligned c E w v \<and> v + 1 = u' \<and> (w = q + 1 \<or> w = q + 2)" if "aligned c E q u'" "q < E" for q u'
    using aligned_step [OF that]
    by (intro exI [of _ "if c ! q = 0x5C then q + 2 else q + 1"] exI [of _ "u' - 1"]) (simp split: if_splits)
  obtain w1 u1 where 1: "aligned c E w1 u1" "u1 + 1 = u" "w1 = p + 1 \<or> w1 = p + 2" using step [OF assms(1)] assms(2) by auto
  obtain w2 u2 where 2: "aligned c E w2 u2" "u2 + 1 = u1" "w2 = w1 + 1 \<or> w2 = w1 + 2" using step [OF 1(1)] 1(3) assms(2) by auto
  show ?thesis
  proof (cases "w2 = p + 4")
    case True
    then show ?thesis using 1 2 by auto
  next
    case False
    then have "w2 < p + 4" using 1 2 by auto
    then obtain w3 u3 where 3: "aligned c E w3 u3" "u3 + 1 = u2" "w3 = w2 + 1 \<or> w3 = w2 + 2" using step [OF 2(1)] assms(2) by auto
    show ?thesis
    proof (cases "w3 < p + 4")
      case False
      with 1 2 3 \<open>w2 < p + 4\<close> have "w3 = p + 4 \<or> w3 = p + 5" by auto
      then show ?thesis using 1 2 3 by auto
    next
      case True
      then obtain w4 u4 where 4: "aligned c E w4 u4" "u4 + 1 = u3" "w4 = w3 + 1 \<or> w4 = w3 + 2" using step [OF 3(1)] assms(2) by auto
      with 1 2 3 True have "w4 = p + 4 \<or> w4 = p + 5" by auto
      then show ?thesis using 1 2 3 4 by auto
    qed
  qed
qed

lemma utf8_bytes_length: "length (utf8_bytes n x m) = n"
  by (induction n x m rule: utf8_bytes.induct) simp_all

lemma utf8_encode_length: "utf8_encode x = Some bs \<Longrightarrow> length bs \<le> 4"
  by (auto simp: utf8_encode_def utf8_bytes_length simp del: utf8_bytes.simps split: if_splits)

lemma utf8_encode_zero: "utf8_encode 0 = Some [0]"
  by (simp add: utf8_encode_def)

text \<open>After the literal at \<open>p\<close>, whose hexadecimal part starts with \<open>u\<close> units to go.\<close>

definition utf16_result_ok :: "bytes \<Rightarrow> nat \<Rightarrow> nat \<Rightarrow> nat \<Rightarrow> (bytes \<times> nat) option \<Rightarrow> bool" where
  "utf16_result_ok c E p u r =
     (case r of None \<Rightarrow> True
      | Some (bs, n) \<Rightarrow> 0 < n \<and>
         ((\<exists>v. aligned c E (p + n) v \<and> length bs + v \<le> u + 1) \<or> (\<exists>v. aligned c E (p + n + 1) v \<and> length bs + v \<le> u)))"

lemma utf16_result_okI:
  assumes "aligned c E (p + n) v" and "v + 4 \<le> u + 1" and "0 < n"
  shows "utf16_result_ok c E p u (map_option (\<lambda>bs. (bs, n)) (utf8_encode x))"
proof (cases "utf8_encode x")
  case (Some bs)
  then have "length bs + v \<le> u + 1" using utf8_encode_length [OF Some] assms(2) by simp
  with Some assms show ?thesis by (auto simp: utf16_result_ok_def)
qed (simp add: utf16_result_ok_def)

lemma utf16_step:
  assumes al: "aligned c E (p + 2) u"
  shows "\<exists>r. utf16_literal_to_utf8 c p E = Some r \<and> utf16_result_ok c E p u r"
proof (cases "E - p < 6")
  case True
  then show ?thesis by (simp add: utf16_literal_to_utf8_def utf16_result_ok_def)
next
  case False
  have e: "p + 2 + 4 = p + 6" "p + 2 + 5 = p + 6 + 1" "p + 8 + 4 = p + 12" "p + 6 + 2 = p + 8" by simp_all
  have E: "p + 2 + 4 \<le> E" "E < length c" using False aligned_bounds [OF al] by auto
  then obtain r where r: "parse_hex4 c (p + 2) 0 0 = Some r" using parse_hex4_defined [of "p + 2" c] by auto
  have none: "utf16_result_ok c E p u None" by (simp add: utf16_result_ok_def)
  consider "r = 0" | "r \<noteq> 0" "0xDC00 \<le> r \<and> r \<le> 0xDFFF" | "r \<noteq> 0" "\<not> (0xDC00 \<le> r \<and> r \<le> 0xDFFF)" "\<not> (0xD800 \<le> r \<and> r \<le> 0xDBFF)"
    | "r \<noteq> 0" "\<not> (0xDC00 \<le> r \<and> r \<le> 0xDFFF)" "0xD800 \<le> r \<and> r \<le> 0xDBFF" by blast
  then show ?thesis
  proof cases
    case 1
    then have "utf16_literal_to_utf8 c p E = Some (Some ([0], 6))"
      using False r by (simp add: utf16_literal_to_utf8_def utf8_encode_zero)
    moreover have "utf16_result_ok c E p u (Some ([0], 6))"
      using aligned_four [OF al E(1)] unfolding e utf16_result_ok_def by auto
    ultimately show ?thesis by blast
  next
    case 2
    then have "utf16_literal_to_utf8 c p E = Some None" using False r by (simp add: utf16_literal_to_utf8_def)
    with none show ?thesis by blast
  next
    case 3
    have "4 \<le> u \<and> aligned c E (p + 6) (u - 4)" using aligned_hex [OF al E(1) r 3(1)] unfolding e .
    then have "utf16_result_ok c E p u (map_option (\<lambda>bs. (bs, 6)) (utf8_encode (ucast r)))"
      by (intro utf16_result_okI) auto
    moreover have "utf16_literal_to_utf8 c p E = Some (map_option (\<lambda>bs. (bs, 6)) (utf8_encode (ucast r)))"
      unfolding utf16_literal_to_utf8_def using False r 3 by (simp only: if_False bind.bind_lunit)
    ultimately show ?thesis by blast
  next
    case 4
    have h: "4 \<le> u \<and> aligned c E (p + 6) (u - 4)" using aligned_hex [OF al E(1) r 4(1)] unfolding e .
    note def = utf16_literal_to_utf8_def [of c p E, unfolded r]
    show ?thesis
    proof (cases "E - (p + 6) < 6 \<or> c ! (p + 6) \<noteq> 0x5C \<or> c ! (p + 6 + 1) \<noteq> 0x75")
      case True
      moreover have "E - (p + 6) < 6 \<or> p + 6 + 1 < length c" using E(2) by auto
      ultimately have "utf16_literal_to_utf8 c p E = Some None"
        unfolding def using False 4 by (auto simp: Let_def simp del: One_nat_def)
      with none show ?thesis by blast
    next
      case F: False
      have q: "p + 8 + 4 \<le> E" using F by auto
      then obtain r2 where r2: "parse_hex4 c (p + 6 + 2) 0 0 = Some r2"
        using parse_hex4_defined [of "p + 8" c] E unfolding e by auto
      have h2: "4 < u \<and> aligned c E (p + 8) (u - 4 - 1)" using aligned_step [of c E "p + 6" "u - 4"] h F q unfolding e by simp
      have val: "utf16_literal_to_utf8 c p E = Some (if r2 < 0xDC00 \<or> r2 > 0xDFFF then None
        else map_option (\<lambda>bs. (bs, 12)) (utf8_encode (ucast (0x10000 + (push_bit 10 (r AND 0x3FF) OR (r2 AND 0x3FF))))))"
        unfolding def using False 4 F r2 E(2) q by (auto simp: Let_def)
      show ?thesis
      proof (cases "r2 < 0xDC00 \<or> r2 > 0xDFFF")
        case True
        then show ?thesis unfolding val using none by simp
      next
        case ok: False
        then have "r2 \<noteq> 0" by auto
        from aligned_hex [OF conjunct2 [OF h2] q r2 [unfolded e] this]
        have "4 \<le> u - 4 - 1 \<and> aligned c E (p + 12) (u - 4 - 1 - 4)" unfolding e .
        then show ?thesis unfolding val using ok by (auto intro!: utf16_result_okI)
      qed
    qed
  qed
qed

text \<open>
  The second loop writes at most \<open>T\<close> bytes, the number of units of the literal. It may run out
  of step with the units after a literal \<open>\u\<close> whose digits are invalid, but only by one byte,
  and then it is at least two bytes behind.
\<close>

definition writable :: "bytes \<Rightarrow> nat \<Rightarrow> nat \<Rightarrow> nat \<Rightarrow> bytes \<Rightarrow> bool" where
  "writable c E T p out =
     ((\<exists>u. aligned c E p u \<and> length out + u \<le> T) \<or> (\<exists>u. aligned c E (p + 1) u \<and> length out + u + 1 \<le> T) \<or>
      E < p \<and> length out \<le> T)"

lemma writable_single:
  assumes "writable c E T p out" and "p < E" and "c ! p \<noteq> 0x5C"
  shows "writable c E T (p + 1) (out @ [x])"
proof -
  from assms(1,2) consider u where "aligned c E p u" "length out + u \<le> T"
    | u where "aligned c E (p + 1) u" "length out + u + 1 \<le> T" unfolding writable_def by auto
  then show ?thesis
  proof cases
    case 1
    with aligned_step [OF 1(1) assms(2)] assms(3) have "aligned c E (p + 1) (u - 1)" "length (out @ [x]) + (u - 1) \<le> T" by auto
    then show ?thesis unfolding writable_def by blast
  next
    case 2
    then have "length (out @ [x]) + u \<le> T" by simp
    with 2(1) show ?thesis unfolding writable_def by blast
  qed
qed

lemma writable_escape:
  assumes "writable c E T p out" and "p < E" and "c ! p = 0x5C"
  shows "writable c E T (p + 2) (out @ [x])"
proof -
  have e: "p + 1 + 1 = p + 2" "p + 2 + 1 = p + 1 + 2" by simp_all
  from assms(1,2) consider u where "aligned c E p u" "length out + u \<le> T"
    | u where "aligned c E (p + 1) u" "length out + u + 1 \<le> T" unfolding writable_def by auto
  then show ?thesis
  proof cases
    case 1
    with aligned_step [OF 1(1) assms(2)] assms(3) have "aligned c E (p + 2) (u - 1)" "length (out @ [x]) + (u - 1) \<le> T" by auto
    then show ?thesis unfolding writable_def by blast
  next
    case 2
    show ?thesis
    proof (cases "p + 1 < E")
      case True
      note s = aligned_step [OF 2(1) True]
      show ?thesis
      proof (cases "c ! (p + 1) = 0x5C")
        case True
        then have "aligned c E (p + 2 + 1) (u - 1)" "length (out @ [x]) + (u - 1) + 1 \<le> T" using s 2(2) unfolding e by auto
        then show ?thesis unfolding writable_def by blast
      next
        case False
        then have "aligned c E (p + 2) (u - 1)" "length (out @ [x]) + (u - 1) \<le> T" using s 2(2) unfolding e by auto
        then show ?thesis unfolding writable_def by blast
      qed
    next
      case False
      then show ?thesis using 2(2) assms(2) by (simp add: writable_def)
    qed
  qed
qed

lemma writable_utf16:
  assumes "writable c E T p out" and "p < E" and "c ! p = 0x5C" and "c ! (p + 1) = 0x75"
  shows "\<exists>r. utf16_literal_to_utf8 c p E = Some r \<and>
    (\<forall>bs n. r = Some (bs, n) \<longrightarrow> 0 < n \<and> length out + length bs \<le> T \<and> writable c E T (p + n) (out @ bs))"
proof -
  have "\<exists>u. aligned c E (p + 2) u \<and> length out + u + 1 \<le> T"
  proof -
    have e: "p + 1 + 1 = p + 2" by simp
    from assms(1,2) consider u where "aligned c E p u" "length out + u \<le> T"
      | u where "aligned c E (p + 1) u" "length out + u + 1 \<le> T" unfolding writable_def by auto
    then show ?thesis
    proof cases
      case 1
      then show ?thesis using aligned_step [OF 1(1) assms(2)] assms(3) by (intro exI [of _ "u - 1"]) auto
    next
      case 2
      have "p + 1 < E"
        using aligned_bounds [OF 2(1)] assms(4) by (cases "p + 1 = E") auto
      then show ?thesis
        using aligned_step [OF 2(1)] assms(4) 2(2) unfolding e by (intro exI [of _ "u - 1"]) auto
    qed
  qed
  then obtain u where u: "aligned c E (p + 2) u" "length out + u + 1 \<le> T" by blast
  from utf16_step [OF u(1)] obtain r where r: "utf16_literal_to_utf8 c p E = Some r" "utf16_result_ok c E p u r" by blast
  have "0 < n \<and> length out + length bs \<le> T \<and> writable c E T (p + n) (out @ bs)" if n: "r = Some (bs, n)" for bs n
  proof -
    from r(2) n consider v where "0 < n" "aligned c E (p + n) v" "length bs + v \<le> u + 1"
      | v where "0 < n" "aligned c E (p + n + 1) v" "length bs + v \<le> u" unfolding utf16_result_ok_def by auto
    then show ?thesis
    proof cases
      case 1
      then have "length (out @ bs) + v \<le> T" using u(2) by simp
      with 1 show ?thesis unfolding writable_def by auto
    next
      case 2
      then have "length (out @ bs) + v + 1 \<le> T" using u(2) by simp
      with 2 show ?thesis unfolding writable_def by auto
    qed
  qed
  with r(1) show ?thesis by blast
qed

lemma writable_room: "writable c E T p out \<Longrightarrow> length out \<le> T"
  by (auto simp: writable_def)

lemma unescape_defined:
  "writable c E T p out \<Longrightarrow> E < length c \<Longrightarrow> T < cap \<Longrightarrow>
   \<exists>r. unescape c p E cap out = Some r \<and> (\<forall>s. r = Some s \<longrightarrow> length s \<le> T)"
proof (induction c p E cap out rule: unescape.induct)
  case (1 c p E cap out)
  note w = "1.prems"(1) and E = "1.prems"(2) and T = "1.prems"(3)
  have room: "length out < cap" using writable_room [OF w] T by simp
  show ?case
  proof (cases "p < E")
    case False
    then show ?thesis using writable_room [OF w] by (simp add: unescape.simps)
  next
    case p: True
    then have l: "\<not> p \<ge> length c" "\<not> p + 1 \<ge> length c" "\<not> E - p < 1" using E by auto
    show ?thesis
    proof (cases "c ! p = 0x5C")
      case False
      then show ?thesis
        using "1.IH"(1) [OF p l(1) False room writable_single [OF w p False] E T] p l room
        by (subst unescape.simps) simp
    next
      case b: True
      then have nb: "\<not> c ! p \<noteq> 0x5C" by simp
      show ?thesis
      proof (cases "c ! (p + 1) = 0x75")
        case u: True
        from writable_utf16 [OF w p b u] obtain r where r: "utf16_literal_to_utf8 c p E = Some r"
          "\<forall>bs n. r = Some (bs, n) \<longrightarrow> 0 < n \<and> length out + length bs \<le> T \<and> writable c E T (p + n) (out @ bs)" by blast
        show ?thesis
        proof (cases r)
          case None
          then show ?thesis using p l b u r(1) by (subst unescape.simps) simp
        next
          case (Some y)
          obtain bs n where y: "y = (bs, n)" by (cases y)
          with r(2) Some have rr: "0 < n" "length out + length bs \<le> T" "writable c E T (p + n) (out @ bs)" by auto
          then have h: "n \<noteq> 0" "length out + length bs \<le> cap" using T by auto
          from "1.IH"(2) [OF p l(1) nb l(3,2) u r(1) Some y [symmetric] h rr(3) E T] show ?thesis
            using p l b u r(1) Some y h by (subst unescape.simps) simp
        qed
      next
        case nu: False
        show ?thesis
        proof (cases "simple_escape (c ! (p + 1))")
          case None
          then show ?thesis using p l b nu by (subst unescape.simps) simp
        next
          case (Some x)
          from "1.IH"(3) [OF p l(1) nb l(3,2) nu Some room writable_escape [OF w p b] E T] show ?thesis
            using p l b nu Some room by (subst unescape.simps) simp
        qed
      qed
    qed
  qed
qed

text \<open>
  What every parsing function keeps: it is defined, and after a success it has moved forward
  within the same buffer and is back at the same depth.
\<close>

definition moved :: "nat \<Rightarrow> parse_buffer \<Rightarrow> parse_buffer \<Rightarrow> bool" where
  "moved n b b' = (pb_content b' = pb_content b \<and> pb_offset b + n \<le> pb_offset b' \<and>
     pb_offset b' \<le> length (pb_content b) \<and> pb_depth b' = pb_depth b)"

definition parses :: "(parse_buffer \<Rightarrow> ('a option \<times> parse_buffer) option) \<Rightarrow> parse_buffer \<Rightarrow> bool" where
  "parses f b = (\<exists>r b'. f b = Some (r, b') \<and> (r \<noteq> None \<longrightarrow> moved 1 b b'))"

lemma moved_trans: "moved m b b1 \<Longrightarrow> moved n b1 b2 \<Longrightarrow> moved (m + n) b b2"
  by (auto simp: moved_def)

lemma moved_weaken: "moved n b b' \<Longrightarrow> m \<le> n \<Longrightarrow> moved m b b'"
  by (auto simp: moved_def)

lemma moved_advance: "pb_offset b + n \<le> length (pb_content b) \<Longrightarrow> moved n b (advance n b)"
  by (simp add: moved_def advance_def)

lemma skip_moved: "pb_offset b \<le> length (pb_content b) \<Longrightarrow> moved 0 b (buffer_skip_whitespace b)"
proof (cases "can_access_at_index b 0")
  case True
  have "length (takeWhile (\<lambda>c. c \<le> 32) (drop (pb_offset b) (pb_content b))) \<le> length (drop (pb_offset b) (pb_content b))"
    by (rule length_takeWhile_le)
  with True show ?thesis by (auto simp: buffer_skip_whitespace_def moved_def Let_def can_access_at_index_def)
qed (simp add: buffer_skip_whitespace_def moved_def)

lemma skip_access:
  assumes "can_access_at_index b 0"
  shows "can_access_at_index (buffer_skip_whitespace b) 0"
proof -
  have "length (takeWhile (\<lambda>c. c \<le> 32) (drop (pb_offset b) (pb_content b))) \<le> length (drop (pb_offset b) (pb_content b))"
    by (rule length_takeWhile_le)
  with assms show ?thesis by (auto simp: buffer_skip_whitespace_def Let_def can_access_at_index_def)
qed

lemma buffer_at_access: "can_access_at_index b 0 \<longleftrightarrow> buffer_at b 0 \<noteq> None"
  by (simp add: can_access_at_index_def buffer_at_def)

lemma moved_allocs [simp]: "moved n (b \<lparr> pb_allocs := m \<rparr>) b' = moved n b b'"
  by (simp add: moved_def)

lemma parse_string_parses:
  assumes "can_access_at_index b 0"
  shows "parses (parse_string al) b"
proof -
  obtain x where x: "buffer_at b 0 = Some x" using assms buffer_at_access by blast
  show ?thesis
  proof (cases "x = 0x22")
    case False
    then show ?thesis using x by (simp add: parses_def parse_string_def)
  next
    case q: True
    show ?thesis
    proof (cases "scan_string (pb_content b) (pb_offset b + 1) 0")
      case None
      then show ?thesis using x q by (simp add: parses_def parse_string_def)
    next
      case (Some y)
      obtain E S where y: "y = (E, S)" by (cases y)
      from scan_string_aligned [OF Some [unfolded y]] obtain u where
        u: "aligned (pb_content b) E (pb_offset b + 1) u" "E = pb_offset b + 1 + u + S" by auto
      have E: "pb_offset b + 1 \<le> E" "E < length (pb_content b)" using aligned_bounds [OF u(1)] by auto
      have len: "E - pb_offset b - S = u + 1" using u(2) by simp
      have "writable (pb_content b) E u (pb_offset b + 1) []" using u(1) by (auto simp: writable_def)
      from unescape_defined [OF this E(2), of "u + 2"] obtain r where
        r: "unescape (pb_content b) (pb_offset b + 1) E (u + 2) [] = Some r" "\<forall>s. r = Some s \<longrightarrow> length s \<le> u" by auto
      have "moved 1 b (b \<lparr> pb_allocs := m, pb_offset := E + 1 \<rparr>)" for m using E by (simp add: moved_def)
      then show ?thesis
        using x q Some y r len by (cases r) (auto simp: parses_def parse_string_def allocate_def Let_def)
    qed
  qed
qed

lemma strtod_length: "snd (strtod s) \<le> length s"
proof -
  have sg: "fst (snd (strtod_sign t)) + length (snd (snd (strtod_sign t))) = length t" for t by (cases t) auto
  have fr: "snd (strtod_frac t) \<le> length t" for t
    by (cases t) (auto simp: Let_def length_takeWhile_le)
  have ex: "snd (strtod_exp t) \<le> length t" for t
  proof (cases t)
    case (Cons b bs)
    obtain neg m r where s: "strtod_sign bs = (neg, m, r)" by (cases "strtod_sign bs")
    have "m + length r = length bs" using sg [of bs] s by simp
    then have "m + length (takeWhile is_digit r) \<le> length bs" using length_takeWhile_le [of is_digit r] by linarith
    then show ?thesis using Cons s by (simp add: Let_def)
  qed simp
  obtain neg m r where s: "strtod_sign s = (neg, m, r)" by (cases "strtod_sign s")
  let ?ip = "takeWhile is_digit r"
  obtain fp n where f: "strtod_frac (drop (length ?ip) r) = (fp, n)" by (cases "strtod_frac (drop (length ?ip) r)")
  obtain e k where x: "strtod_exp (drop (length ?ip + n) r) = (e, k)" by (cases "strtod_exp (drop (length ?ip + n) r)")
  have "m + length r = length s" using sg [of s] s by simp
  moreover have "length ?ip \<le> length r" by (rule length_takeWhile_le)
  moreover have "n \<le> length r - length ?ip" using fr [of "drop (length ?ip) r"] f by simp
  moreover have "k \<le> length r - (length ?ip + n)" using ex [of "drop (length ?ip + n) r"] x by simp
  ultimately have "m + length ?ip + n + k \<le> length s" by linarith
  then show ?thesis using s f x by (simp add: strtod_def Let_def)
qed

lemma parse_number_parses: "pb_offset b \<le> length (pb_content b) \<Longrightarrow> parses (\<lambda>b. Some (parse_number al b)) b"
proof -
  assume o: "pb_offset b \<le> length (pb_content b)"
  let ?s = "takeWhile number_char (drop (pb_offset b) (pb_content b))"
  obtain d n where d: "strtod ?s = (d, n)" by (cases "strtod ?s")
  have "n \<le> length (pb_content b) - pb_offset b"
    using strtod_length [of ?s] d length_takeWhile_le [of number_char "drop (pb_offset b) (pb_content b)"] by simp
  then show ?thesis
    using d o by (auto simp: parses_def parse_number_def allocate_def moved_def Let_def)
qed

text \<open>The same for the loops and the brackets, given the parser of the values inside.\<close>

definition inner_parses :: "parse_buffer \<Rightarrow> (parse_buffer \<Rightarrow> ('a option \<times> parse_buffer) option) \<Rightarrow> bool" where
  "inner_parses b pv = (\<forall>b'. pb_content b' = pb_content b \<and> pb_offset b < pb_offset b' \<and>
     pb_offset b' \<le> length (pb_content b) \<longrightarrow> parses pv b')"

lemma parsesE:
  assumes "parses f b"
  obtains b' where "f b = Some (None, b')" | x b' where "f b = Some (Some x, b')" "moved 1 b b'"
  using assms unfolding parses_def by (metis option.exhaust)

lemma inner_value:
  assumes "inner_parses b pv" and "moved 1 b b1"
  shows "parses pv b1"
  using assms by (auto simp: inner_parses_def moved_def)

lemma inner_moved: "inner_parses b pv \<Longrightarrow> moved n b b1 \<Longrightarrow> inner_parses b1 pv"
  by (auto simp: inner_parses_def moved_def)

lemma moved_next:
  assumes "can_access_at_index b 0"
  shows "moved 1 b (buffer_skip_whitespace (advance 1 (b \<lparr> pb_allocs := m \<rparr>)))"
proof -
  have "moved 1 b (advance 1 (b \<lparr> pb_allocs := m \<rparr>))" using assms by (simp add: moved_def advance_def can_access_at_index_def)
  with skip_moved [of "advance 1 (b \<lparr> pb_allocs := m \<rparr>)"] show ?thesis by (auto simp: moved_def)
qed

lemma array_loop_parses:
  "inner_parses b pv \<Longrightarrow> can_access_at_index b 0 \<Longrightarrow> length (pb_content b) - pb_offset b < n \<Longrightarrow>
   parses (\<lambda>b. array_loop n pv al b items) b"
proof (induction n arbitrary: b items)
  case (Suc n)
  let ?b1 = "buffer_skip_whitespace (advance 1 (b \<lparr> pb_allocs := Suc (pb_allocs b) \<rparr>))"
  note m1 = moved_next [OF Suc.prems(2), of "Suc (pb_allocs b)"]
  show ?case
  proof (cases "al (pb_allocs b)")
    case False
    then show ?thesis by (simp add: parses_def allocate_def)
  next
    case True
    from inner_value [OF Suc.prems(1) m1] show ?thesis
    proof (cases rule: parsesE)
      case (1 b')
      with True show ?thesis by (simp add: parses_def allocate_def)
    next
      case (2 x b')
      let ?b2 = "buffer_skip_whitespace b'"
      have "pb_offset b' \<le> length (pb_content b')" using 2(2) by (simp add: moved_def)
      from moved_trans [OF moved_trans [OF m1 2(2)] skip_moved [OF this]] have m2: "moved 2 b ?b2" by (simp add: eval_nat_numeral)
      show ?thesis
      proof (cases "next_is ?b2 0x2C")
        case False
        with True 2(1) moved_weaken [OF m2, of 1] show ?thesis by (auto simp: parses_def allocate_def Let_def)
      next
        case cm: True
        then have "can_access_at_index ?b2 0" by (simp add: next_is_def)
        moreover have "length (pb_content ?b2) - pb_offset ?b2 < n"
          using m2 Suc.prems(2,3) by (auto simp: moved_def can_access_at_index_def)
        ultimately have "parses (\<lambda>b. array_loop n pv al b (items @ [x])) ?b2"
          using Suc.IH [OF inner_moved [OF Suc.prems(1) m2]] by blast
        then obtain r b3 where r: "array_loop n pv al ?b2 (items @ [x]) = Some (r, b3)" "r \<noteq> None \<longrightarrow> moved 1 ?b2 b3"
          unfolding parses_def by blast
        have "r \<noteq> None \<longrightarrow> moved 1 b b3" using r(2) moved_trans [OF m2] moved_weaken by (metis le_add2)
        with True 2(1) cm r(1) show ?thesis by (auto simp: parses_def allocate_def Let_def)
      qed
    qed
  qed
qed simp

lemma object_loop_parses:
  "inner_parses b pv \<Longrightarrow> can_access_at_index b 0 \<Longrightarrow> length (pb_content b) - pb_offset b < n \<Longrightarrow>
   parses (\<lambda>b. object_loop n pv al b items) b"
proof (induction n arbitrary: b items)
  case (Suc n)
  let ?b0 = "b \<lparr> pb_allocs := Suc (pb_allocs b) \<rparr>"
  let ?b1 = "buffer_skip_whitespace (advance 1 ?b0)"
  note m1 = moved_next [OF Suc.prems(2), of "Suc (pb_allocs b)"]
  show ?case
  proof (cases "al (pb_allocs b) \<and> can_access_at_index ?b0 1")
    case False
    then show ?thesis by (auto simp: parses_def allocate_def)
  next
    case True
    then have "can_access_at_index (advance 1 ?b0) 0" by (simp add: can_access_at_index_def advance_def)
    from parse_string_parses [OF skip_access [OF this], of al] show ?thesis
    proof (cases rule: parsesE)
      case (1 b')
      with True show ?thesis by (simp add: parses_def allocate_def)
    next
      case (2 s b')
      let ?b2 = "buffer_skip_whitespace b'"
      have "pb_offset b' \<le> length (pb_content b')" using 2(2) by (simp add: moved_def)
      from moved_trans [OF moved_trans [OF m1 2(2)] skip_moved [OF this]] have m2: "moved 2 b ?b2" by (simp add: eval_nat_numeral)
      show ?thesis
      proof (cases "next_is ?b2 0x3A")
        case False
        with True 2(1) show ?thesis by (auto simp: parses_def allocate_def Let_def)
      next
        case colon: True
        then have "can_access_at_index ?b2 0" by (simp add: next_is_def)
        from moved_next [OF this, of "pb_allocs ?b2"]
        have m3: "moved 1 ?b2 (buffer_skip_whitespace (advance 1 ?b2))" by simp
        from inner_value [OF inner_moved [OF Suc.prems(1) m2] m3] show ?thesis
        proof (cases rule: parsesE)
          case (1 b4)
          with True 2(1) colon show ?thesis by (simp add: parses_def allocate_def Let_def)
        next
          case v: (2 x b4)
          let ?b5 = "buffer_skip_whitespace b4"
          have "pb_offset b4 \<le> length (pb_content b4)" using v(2) by (simp add: moved_def)
          from moved_trans [OF moved_trans [OF moved_trans [OF m2 m3] v(2)] skip_moved [OF this]]
          have m5: "moved 2 b ?b5" by (rule moved_weaken) simp
          show ?thesis
          proof (cases "next_is ?b5 0x2C")
            case False
            with True 2(1) colon v(1) moved_weaken [OF m5, of 1] show ?thesis
              by (auto simp: parses_def allocate_def Let_def)
          next
            case cm: True
            then have "can_access_at_index ?b5 0" by (simp add: next_is_def)
            moreover have "length (pb_content ?b5) - pb_offset ?b5 < n"
              using m5 Suc.prems(2,3) by (auto simp: moved_def can_access_at_index_def)
            ultimately have "parses (\<lambda>b. object_loop n pv al b (items @ [(s, x)])) ?b5"
              using Suc.IH [OF inner_moved [OF Suc.prems(1) m5]] by blast
            then obtain r b6 where r: "object_loop n pv al ?b5 (items @ [(s, x)]) = Some (r, b6)" "r \<noteq> None \<longrightarrow> moved 1 ?b5 b6"
              unfolding parses_def by blast
            have "r \<noteq> None \<longrightarrow> moved 1 b b6" using r(2) moved_trans [OF m5] moved_weaken by (metis le_add2)
            with True 2(1) colon v(1) cm r(1) show ?thesis by (auto simp: parses_def allocate_def Let_def)
          qed
        qed
      qed
    qed
  qed
qed simp

lemma brackets_parses:
  assumes acc: "can_access_at_index b 0"
    and loop: "\<And>b'. pb_content b' = pb_content b \<Longrightarrow> pb_offset b \<le> pb_offset b' \<Longrightarrow> can_access_at_index b' 0 \<Longrightarrow> parses loop b'"
  shows "parses (parse_brackets opening closing loop mk) b"
proof -
  obtain x where x: "buffer_at b 0 = Some x" using acc buffer_at_access by blast
  let ?b0 = "b \<lparr> pb_depth := pb_depth b + 1 \<rparr>"
  let ?b1 = "buffer_skip_whitespace (advance 1 ?b0)"
  have x0: "buffer_at ?b0 0 = Some x" using x by (auto simp: buffer_at_def split: if_splits)
  have "can_access_at_index ?b0 0" using acc by (simp add: can_access_at_index_def)
  from moved_next [OF this, of "pb_allocs b"] have m1: "moved 1 ?b0 ?b1" by simp
  have fin: "moved 1 b ((advance 1 b2) \<lparr> pb_depth := pb_depth b2 - 1 \<rparr>)"
    if "moved 0 ?b0 b2" "next_is b2 closing" for b2
    using that by (auto simp: moved_def advance_def next_is_def can_access_at_index_def)
  show ?thesis
  proof (cases "pb_depth b \<ge> CJSON_NESTING_LIMIT \<or> x \<noteq> opening")
    case True
    then show ?thesis using x0 by (auto simp: parses_def parse_brackets_def Let_def)
  next
    case ok: False
    show ?thesis
    proof (cases "next_is ?b1 closing")
      case True
      with ok x0 fin [OF moved_weaken [OF m1] True] show ?thesis by (simp add: parses_def parse_brackets_def Let_def)
    next
      case nc: False
      show ?thesis
      proof (cases "can_access_at_index ?b1 0")
        case False
        with ok x0 nc show ?thesis by (simp add: parses_def parse_brackets_def Let_def)
      next
        case True
        let ?b2 = "?b1 \<lparr> pb_offset := pb_offset ?b1 - 1 \<rparr>"
        have s: "moved 0 ?b0 ?b2" "can_access_at_index ?b2 0" using m1 True by (auto simp: moved_def can_access_at_index_def)
        then have "parses loop ?b2" by (intro loop) (auto simp: moved_def)
        then show ?thesis
        proof (cases rule: parsesE)
          case (1 b')
          with ok x0 nc True show ?thesis by (simp add: parses_def parse_brackets_def Let_def)
        next
          case (2 items b')
          from moved_trans [OF s(1) 2(2)] have "moved 0 ?b0 b'" by (rule moved_weaken) simp
          with fin ok x0 nc True 2(1) show ?thesis by (simp add: parses_def parse_brackets_def Let_def)
        qed
      qed
    qed
  qed
qed

lemma reads_literal_moved: "reads_literal b lit \<Longrightarrow> moved (length lit) b (advance (length lit) b)"
  by (simp add: reads_literal_def moved_advance)

lemma parses_eq: "f b = g b \<Longrightarrow> parses g b \<Longrightarrow> parses f b"
  by (simp add: parses_def)

lemma parses_literal:
  assumes "reads_literal b (ascii cs)" and "length cs = n" and "0 < n"
  shows "parses (\<lambda>b. Some (Some v, advance n b)) b"
  using reads_literal_moved [OF assms(1)] moved_weaken [of n b _ 1] assms by (auto simp: parses_def)

lemma parse_value_parses:
  "pb_offset b \<le> length (pb_content b) \<Longrightarrow> length (pb_content b) - pb_offset b < k \<Longrightarrow> parses (parse_value k al) b"
proof (induction k arbitrary: b)
  case (Suc k)
  consider "reads_literal b (ascii ''null'')" | "\<not> reads_literal b (ascii ''null'')" "reads_literal b (ascii ''false'')"
    | "\<not> reads_literal b (ascii ''null'')" "\<not> reads_literal b (ascii ''false'')" "reads_literal b (ascii ''true'')"
    | (nl) "\<not> reads_literal b (ascii ''null'')" "\<not> reads_literal b (ascii ''false'')" "\<not> reads_literal b (ascii ''true'')"
    by blast
  then show ?case
  proof cases
    case nl
    show ?thesis
    proof (cases "buffer_at b 0")
      case None
      then show ?thesis using nl by (simp add: parses_def)
    next
      case (Some x)
      then have acc: "can_access_at_index b 0" using buffer_at_access by blast
      have inner: "inner_parses b' (parse_value k al)" "length (pb_content b') - pb_offset b' < Suc k"
        if "pb_content b' = pb_content b" "pb_offset b \<le> pb_offset b'" for b'
        using that Suc.prems(2) Suc.IH by (auto simp: inner_parses_def)
      have arr: "parses (parse_array (Suc k) (parse_value k al) al) b"
        unfolding parse_array_def using brackets_parses [OF acc] array_loop_parses inner by blast
      have "parses (parse_brackets 0x7B 0x7D (\<lambda>b. object_loop (Suc k) (parse_value k al) al b []) cJSON_Object) b"
        using brackets_parses [OF acc] object_loop_parses inner by blast
      then have obj: "parses (parse_object (Suc k) (parse_value k al) al) b"
        by (rule parses_eq [rotated]) (simp add: parse_object_def acc)
      have str: "parses (\<lambda>b. do { (s, b) \<leftarrow> parse_string al b; Some (map_option cJSON_String s, b) }) b"
        using parse_string_parses [OF acc, of al] by (auto simp: parses_def)
      have num: "parses (\<lambda>b. Some (parse_number al b)) b" using Suc.prems(1) by (rule parse_number_parses)
      have fail: "parses (\<lambda>b. Some (None :: cJSON option, b)) b" by (simp add: parses_def)
      consider "x = 0x22" | "x \<noteq> 0x22" "x = 0x2D \<or> is_digit x" | "x \<noteq> 0x22" "\<not> (x = 0x2D \<or> is_digit x)" "x = 0x5B"
        | "x \<noteq> 0x22" "\<not> (x = 0x2D \<or> is_digit x)" "x \<noteq> 0x5B" "x = 0x7B"
        | "x \<noteq> 0x22" "\<not> (x = 0x2D \<or> is_digit x)" "x \<noteq> 0x5B" "x \<noteq> 0x7B" by blast
      then show ?thesis
      proof cases
        case 1
        show ?thesis using nl Some 1 by (intro parses_eq [OF _ str]) (simp del: array_loop.simps)
      next
        case 2
        show ?thesis using nl Some 2 by (intro parses_eq [OF _ num]) (simp del: array_loop.simps)
      next
        case 3
        show ?thesis using nl Some 3 by (intro parses_eq [OF _ arr]) (simp del: array_loop.simps)
      next
        case 4
        show ?thesis using nl Some 4 by (intro parses_eq [OF _ obj]) (simp del: array_loop.simps)
      next
        case 5
        show ?thesis using nl Some 5 by (intro parses_eq [OF _ fail]) (simp del: array_loop.simps)
      qed
    qed
  qed (auto intro: parses_eq [OF _ parses_literal [of b "''null''" 4 cJSON_NULL]]
        parses_eq [OF _ parses_literal [of b "''false''" 5 cJSON_False]]
        parses_eq [OF _ parses_literal [of b "''true''" 4 cJSON_True]])
qed simp

lemma cJSON_ParseWithLength_total: "\<exists>r. cJSON_ParseWithLength al value = Some r"
proof -
  let ?b = "\<lparr> pb_content = value, pb_offset = 0, pb_depth = 0, pb_allocs = Suc 0 \<rparr>"
  obtain n where n: "n = 0 \<or> n = 3" "n \<le> length value" "skip_utf8_bom ?b = Some (advance n ?b)"
  proof (cases "skip_utf8_bom ?b = Some (advance 3 ?b)")
    case True
    show thesis
    proof (cases "3 \<le> length value")
      case False
      then have "skip_utf8_bom ?b = Some (advance 0 ?b)" by (simp add: skip_utf8_bom_def can_access_at_index_def advance_def)
      then show thesis using that [of 0] by simp
    qed (use True that [of 3] in simp)
  next
    case False
    then have "skip_utf8_bom ?b = Some (advance 0 ?b)" by (simp add: skip_utf8_bom_def advance_def split: if_splits)
    then show thesis using that [of 0] by simp
  qed
  have "moved 0 (advance n ?b) (buffer_skip_whitespace (advance n ?b))" using n(2) by (intro skip_moved) (simp add: advance_def)
  then have "parses (parse_value (length value + 1) al) (buffer_skip_whitespace (advance n ?b))"
    by (intro parse_value_parses) (auto simp: moved_def advance_def)
  then show ?thesis using n(3) by (auto simp: cJSON_ParseWithLength_def allocate_def parses_def)
qed

section \<open>Properties\<close>

text \<open>
  C32. The JSON parser is safe on every input. Whatever bytes a client sends and whichever
  allocations fail, \<open>cJSON_ParseWithLength\<close> terminates, never reads outside the bytes it was
  given and never writes outside the block it allocated for a string, even for a \<open>\u\<close> escape
  with invalid digits, after which the second loop over a string no longer agrees with the
  first one on where the escapes are.
\<close>

theorem cJSON_ParseWithLength_safe: "\<exists>r. cJSON_ParseWithLength al value = Some r"
  by (rule cJSON_ParseWithLength_total)

end
