(* ===== verification/Cjson_Print.thy ===== *)
theory Cjson_Print
  imports Cjson_Parse
begin

text \<open>
  The printer of \<open>gateway/src/cJSON.c\<close>, as \<open>cJSON_PrintPreallocated\<close> runs it for the gateway:
  unformatted (\<open>format\<close> is 0) and into a caller's buffer (\<open>noalloc\<close> is set), so that \<open>ensure\<close>
  never reallocates. A write outside the buffer is undefined (\<open>None\<close>); the Boolean is the C
  return value.
\<close>

section \<open>The code\<close>

record printbuffer =
  p_buffer :: bytes
  p_offset :: nat
  p_depth :: nat

text \<open>Whether \<open>ensure\<close> returns a pointer, which is then \<open>p->buffer + p->offset\<close>.\<close>

definition ensure :: "printbuffer \<Rightarrow> nat \<Rightarrow> bool" where
  "ensure p needed =
     (if length (p_buffer p) > 0 \<and> p_offset p \<ge> length (p_buffer p) then False
      else if int needed > INT_MAX then False
      else needed + p_offset p + 1 \<le> length (p_buffer p))"

text \<open>Writing at the current position, and moving it.\<close>

definition put :: "bytes \<Rightarrow> printbuffer \<Rightarrow> printbuffer option" where
  "put bs p = do { buf \<leftarrow> poke (p_offset p) bs (p_buffer p); Some (p \<lparr> p_buffer := buf \<rparr>) }"

definition forth :: "nat \<Rightarrow> printbuffer \<Rightarrow> printbuffer" where
  "forth n p = p \<lparr> p_offset := p_offset p + n \<rparr>"

text \<open>\<open>strlen\<close> without a terminator in the buffer is undefined.\<close>

definition update_offset :: "printbuffer \<Rightarrow> printbuffer option" where
  "update_offset p =
     (let s = drop (p_offset p) (p_buffer p) in if 0 \<in> set s then Some (forth (length (cstr s)) p) else None)"

text \<open>\<open>ensure\<close> for the bytes and \<open>extra\<close> more, then the bytes; \<open>step\<close> is added to the offset.\<close>

definition emit :: "nat \<Rightarrow> bytes \<Rightarrow> nat \<Rightarrow> printbuffer \<Rightarrow> (bool \<times> printbuffer) option" where
  "emit needed bs step p =
     (if \<not> ensure p needed then Some (False, p) else do { p \<leftarrow> put bs p; Some (True, forth step p) })"

definition print_number :: "double \<Rightarrow> int \<Rightarrow> printbuffer \<Rightarrow> (bool \<times> printbuffer) option" where
  "print_number d i p =
     (let t = number_text d i in
      if length t \<ge> 26 then None else emit (length t + 1) (t @ [0]) (length t) p)"

definition hex_nibble :: "u8 \<Rightarrow> u8" where
  "hex_nibble n = (if n < 10 then 0x30 + n else 0x57 + n)"

text \<open>The escape of one byte, and how many more bytes it takes than the byte itself.\<close>

definition escape_byte :: "u8 \<Rightarrow> bytes" where
  "escape_byte b =
     (if b > 31 \<and> b \<noteq> 0x22 \<and> b \<noteq> 0x5C then [b]
      else 0x5C #
        (if b = 0x5C then [0x5C] else if b = 0x22 then [0x22] else if b = 0x08 then [0x62] else if b = 0x0C then [0x66]
         else if b = 0x0A then [0x6E] else if b = 0x0D then [0x72] else if b = 0x09 then [0x74]
         else [0x75, 0x30, 0x30, hex_nibble (drop_bit 4 b), hex_nibble (b AND 0x0F)]))"

definition escape_extra :: "u8 \<Rightarrow> nat" where
  "escape_extra b =
     (if b = 0x22 \<or> b = 0x5C \<or> b = 0x08 \<or> b = 0x0C \<or> b = 0x0A \<or> b = 0x0D \<or> b = 0x09 then 1
      else if b < 32 then 5 else 0)"

definition print_string_ptr :: "bytes option \<Rightarrow> printbuffer \<Rightarrow> (bool \<times> printbuffer) option" where
  "print_string_ptr input p =
     (case input of
        None \<Rightarrow> emit 3 [0x22, 0x22, 0] 0 p
      | Some bs \<Rightarrow>
          let s = cstr bs; escape_characters = sum_list (map escape_extra s);
              output_length = length s + escape_characters in
          if \<not> ensure p (output_length + 3) then Some (False, p)
          else if escape_characters = 0 then do { p \<leftarrow> put ([0x22] @ s @ [0x22, 0]) p; Some (True, p) }
          else do {
            p \<leftarrow> put (0x22 # concat (map escape_byte s)) p;
            buf \<leftarrow> poke (p_offset p + output_length + 1) [0x22, 0] (p_buffer p);
            Some (True, p \<lparr> p_buffer := buf \<rparr>)
          })"

definition print_literal :: "string \<Rightarrow> printbuffer \<Rightarrow> (bool \<times> printbuffer) option" where
  "print_literal cs p = emit (length cs + 1) (ascii cs @ [0]) 0 p"

text \<open>Going on only after a success.\<close>

definition and_then ::
  "(bool \<times> printbuffer) option \<Rightarrow> (printbuffer \<Rightarrow> (bool \<times> printbuffer) option) \<Rightarrow> (bool \<times> printbuffer) option" where
  "and_then r f = do { (ok, p) \<leftarrow> r; if ok then f p else Some (False, p) }"

lemma and_then_cong [fundef_cong]:
  "r = r' \<Longrightarrow> (\<And>p. r' = Some (True, p) \<Longrightarrow> f p = g p) \<Longrightarrow> and_then r f = and_then r' g"
  by (cases r') (auto simp: and_then_def)

definition deeper :: "printbuffer \<Rightarrow> printbuffer" where "deeper p = p \<lparr> p_depth := p_depth p + 1 \<rparr>"
definition shallower :: "printbuffer \<Rightarrow> printbuffer" where "shallower p = p \<lparr> p_depth := p_depth p - 1 \<rparr>"

function print_value :: "cJSON \<Rightarrow> printbuffer \<Rightarrow> (bool \<times> printbuffer) option"
  and print_elements :: "cJSON list \<Rightarrow> printbuffer \<Rightarrow> (bool \<times> printbuffer) option"
  and print_members :: "(bytes \<times> cJSON) list \<Rightarrow> printbuffer \<Rightarrow> (bool \<times> printbuffer) option" where
  "print_value cJSON_NULL p = print_literal ''null'' p"
| "print_value cJSON_False p = print_literal ''false'' p"
| "print_value cJSON_True p = print_literal ''true'' p"
| "print_value (cJSON_Number d i) p = print_number d i p"
| "print_value (cJSON_String s) p = print_string_ptr (Some s) p"
| "print_value (cJSON_Array xs) p =
     (if p_depth p \<ge> CJSON_NESTING_LIMIT then Some (False, p)
      else and_then (emit 1 [0x5B] 1 p) (\<lambda>p.
        and_then (print_elements xs (deeper p)) (\<lambda>p.
          and_then (emit 2 [0x5D, 0] 0 p) (\<lambda>p. Some (True, shallower p)))))"
| "print_value (cJSON_Object ms) p =
     (if p_depth p \<ge> CJSON_NESTING_LIMIT then Some (False, p)
      else and_then (emit 2 [0x7B] 1 p) (\<lambda>p.
        and_then (print_members ms (deeper p)) (\<lambda>p.
          and_then (emit 2 [0x7D, 0] 0 p) (\<lambda>p. Some (True, shallower p)))))"
| "print_elements [] p = Some (True, p)"
| "print_elements (x # xs) p =
     and_then (print_value x p) (\<lambda>p. do {
       p \<leftarrow> update_offset p;
       if xs \<noteq> [] then and_then (emit 2 [0x2C, 0] 1 p) (print_elements xs) else print_elements xs p
     })"
| "print_members [] p = Some (True, p)"
| "print_members ((k, v) # ms) p =
     and_then (print_string_ptr (Some k) p) (\<lambda>p. do {
       p \<leftarrow> update_offset p;
       and_then (emit 1 [0x3A] 1 p) (\<lambda>p. and_then (print_value v p) (\<lambda>p. do {
         p \<leftarrow> update_offset p;
         let n = (if ms \<noteq> [] then 1 else 0);
         and_then (emit (n + 1) ((if ms \<noteq> [] then [0x2C] else []) @ [0]) n p) (print_members ms)
       }))
     })"
  by pat_completeness auto
termination
  by (relation "measure (\<lambda>x. case x of Inl (v, p) \<Rightarrow> size v | Inr (Inl (xs, p)) \<Rightarrow> size_list size xs
      | Inr (Inr (ms, p)) \<Rightarrow> size_list (size_prod (\<lambda>x. 0) size) ms)") auto

definition cJSON_PrintPreallocated :: "cJSON \<Rightarrow> bytes \<Rightarrow> (bool \<times> bytes) option" where
  "cJSON_PrintPreallocated item buffer = do {
     (ok, p) \<leftarrow> print_value item \<lparr> p_buffer = buffer, p_offset = 0, p_depth = 0 \<rparr>;
     Some (ok, p_buffer p)
   }"

section \<open>The text of a value\<close>

definition quoted :: "bytes \<Rightarrow> bytes" where
  "quoted s = 0x22 # concat (map escape_byte (cstr s)) @ [0x22]"

fun comma_sep :: "bytes list \<Rightarrow> bytes" where
  "comma_sep [] = []"
| "comma_sep [t] = t"
| "comma_sep (t # ts) = t @ 0x2C # comma_sep ts"

fun json_text :: "cJSON \<Rightarrow> bytes" where
  "json_text cJSON_NULL = ascii ''null''"
| "json_text cJSON_False = ascii ''false''"
| "json_text cJSON_True = ascii ''true''"
| "json_text (cJSON_Number d i) = number_text d i"
| "json_text (cJSON_String s) = quoted s"
| "json_text (cJSON_Array xs) = 0x5B # comma_sep (map json_text xs) @ [0x5D]"
| "json_text (cJSON_Object ms) = 0x7B # comma_sep (map (\<lambda>(k, v). quoted k @ 0x3A # json_text v) ms) @ [0x7D]"

text \<open>
  When the printer accepts an item at a given depth, and what holds of every number the
  library makes: its two fields are a \<open>double\<close> and an \<open>int\<close>.
\<close>

fun depth_ok :: "nat \<Rightarrow> cJSON \<Rightarrow> bool" where
  "depth_ok d (cJSON_Array xs) = (d < CJSON_NESTING_LIMIT \<and> (\<forall>x \<in> set xs. depth_ok (Suc d) x))"
| "depth_ok d (cJSON_Object ms) = (d < CJSON_NESTING_LIMIT \<and> (\<forall>m \<in> set ms. depth_ok (Suc d) (snd m)))"
| "depth_ok d _ = True"

fun numbers_ok :: "cJSON \<Rightarrow> bool" where
  "numbers_ok (cJSON_Number d i) = (is_double d \<and> INT_MIN \<le> i \<and> i \<le> INT_MAX)"
| "numbers_ok (cJSON_Array xs) = (\<forall>x \<in> set xs. numbers_ok x)"
| "numbers_ok (cJSON_Object ms) = (\<forall>m \<in> set ms. numbers_ok (snd m))"
| "numbers_ok _ = True"

section \<open>The printer writes the text, or refuses\<close>

text \<open>
  \<open>wrote p t p'\<close>: from the position of \<open>p\<close> on, \<open>t\<close> and at most one byte after it were written.
  \<open>printed\<close>: that byte is the terminator. \<open>ends\<close>: the position is after \<open>t\<close>.
\<close>

definition wrote :: "printbuffer \<Rightarrow> bytes \<Rightarrow> printbuffer \<Rightarrow> bool" where
  "wrote p t p' =
     (length (p_buffer p') = length (p_buffer p) \<and> p_offset p + length t < length (p_buffer p) \<and>
      take (p_offset p + length t) (p_buffer p') = take (p_offset p) (p_buffer p) @ t \<and>
      drop (p_offset p + length t + 1) (p_buffer p') = drop (p_offset p + length t + 1) (p_buffer p) \<and>
      p_depth p' = p_depth p)"

definition printed :: "printbuffer \<Rightarrow> bytes \<Rightarrow> printbuffer \<Rightarrow> bool" where
  "printed p t p' = (wrote p t p' \<and> p_buffer p' ! (p_offset p + length t) = 0 \<and>
     p_offset p \<le> p_offset p' \<and> p_offset p' \<le> p_offset p + length t)"

definition ends :: "printbuffer \<Rightarrow> bytes \<Rightarrow> printbuffer \<Rightarrow> bool" where
  "ends p t p' = (wrote p t p' \<and> p_offset p' = p_offset p + length t)"

text \<open>A defined result: success with \<open>Q\<close> if \<open>c\<close> holds, failure otherwise.\<close>

definition outcome :: "(bool \<times> printbuffer) option \<Rightarrow> bool \<Rightarrow> (printbuffer \<Rightarrow> bool) \<Rightarrow> bool" where
  "outcome r c Q = (\<exists>p. r = Some (c, p) \<and> (c \<longrightarrow> Q p))"

lemma outcome_and_then:
  assumes "outcome r c Q" and "\<And>p. c \<Longrightarrow> Q p \<Longrightarrow> outcome (f p) c' Q'"
  shows "outcome (and_then r f) (c \<and> c') Q'"
  using assms by (cases c) (fastforce simp: outcome_def and_then_def)+

lemma outcome_weaken: "outcome r c Q \<Longrightarrow> c = c' \<Longrightarrow> (\<And>p. c \<Longrightarrow> Q p \<Longrightarrow> Q' p) \<Longrightarrow> outcome r c' Q'"
  by (auto simp: outcome_def)

lemma outcome_fail: "outcome (Some (False, p)) False Q"
  by (simp add: outcome_def)

lemma ensure_iff: "int (length (p_buffer p)) \<le> INT_MAX \<Longrightarrow> ensure p n = (p_offset p + n + 1 \<le> length (p_buffer p))"
  by (auto simp: ensure_def)

lemma wrote_put:
  assumes "p_offset p + length t + 1 \<le> length (p_buffer p)"
  shows "\<exists>p'. put (t @ [0]) p = Some p' \<and> printed p t p' \<and> p_offset p' = p_offset p"
  using assms by (auto simp: put_def poke_def printed_def wrote_def nth_append)

lemma emit_printed:
  assumes "int (length (p_buffer p)) \<le> INT_MAX" and "length t \<le> n" and "k \<le> length t"
  shows "outcome (emit n (t @ [0]) k p) (p_offset p + n + 1 \<le> length (p_buffer p)) (\<lambda>p'. printed p t p' \<and> p_offset p' = p_offset p + k)"
proof (cases "p_offset p + n + 1 \<le> length (p_buffer p)")
  case True
  then obtain p' where "put (t @ [0]) p = Some p'" "printed p t p'" "p_offset p' = p_offset p"
    using wrote_put [of p t] assms(2) by auto
  then have "emit n (t @ [0]) k p = Some (True, forth k p')" "printed p t (forth k p')" "p_offset (forth k p') = p_offset p + k"
    using True ensure_iff [OF assms(1)] assms(3) by (auto simp: emit_def forth_def printed_def wrote_def)
  with True show ?thesis by (auto simp: outcome_def)
qed (simp add: emit_def ensure_iff [OF assms(1)] outcome_def)

lemma emit_char:
  assumes "int (length (p_buffer p)) \<le> INT_MAX" and "1 \<le> n"
  shows "outcome (emit n [x] 1 p) (p_offset p + n + 1 \<le> length (p_buffer p)) (\<lambda>p'. ends p [x] p')"
proof (cases "p_offset p + n + 1 \<le> length (p_buffer p)")
  case True
  then have "\<exists>p'. put [x] p = Some p' \<and> ends p [x] (forth 1 p')"
    using assms(2) by (auto simp: put_def poke_def ends_def wrote_def forth_def)
  then show ?thesis using True ensure_iff [OF assms(1)] by (auto simp: emit_def outcome_def)
qed (simp add: emit_def ensure_iff [OF assms(1)] outcome_def)

lemma update_offset_printed:
  assumes "printed p t p'" and "0 \<notin> set t"
  shows "\<exists>p''. update_offset p' = Some p'' \<and> ends p t p'' \<and> p_buffer p'' = p_buffer p'"
proof -
  let ?o = "p_offset p" and ?b = "p_buffer p'" and ?n = "p_offset p' - p_offset p"
  have w: "length ?b = length (p_buffer p)" "?o + length t < length (p_buffer p)" "take (?o + length t) ?b = take ?o (p_buffer p) @ t"
    "?b ! (?o + length t) = 0" "?o \<le> p_offset p'" "p_offset p' \<le> ?o + length t"
    using assms(1) by (auto simp: printed_def wrote_def)
  have "?b = take (?o + length t) ?b @ 0 # drop (Suc (?o + length t)) ?b" using w(1,2,4) by (metis id_take_nth_drop)
  then have b: "?b = take ?o (p_buffer p) @ t @ 0 # drop (Suc (?o + length t)) ?b" using w(3) by simp
  have "drop (p_offset p') ?b = drop ?n t @ 0 # drop (Suc (?o + length t)) ?b"
    using w(2,5,6) by (subst b) simp
  moreover have "0 \<notin> set (drop ?n t)" using assms(2) by (meson in_set_dropD)
  ultimately have "update_offset p' = Some (forth (length t - ?n) p')"
    using cstr_id(2) [of "drop ?n t"] by (simp add: update_offset_def)
  moreover have "ends p t (forth (length t - ?n) p')" using assms(1) w(5,6) by (simp add: ends_def forth_def printed_def wrote_def)
  ultimately show ?thesis by (simp add: forth_def)
qed

lemma wrote_trans: "ends p t p1 \<Longrightarrow> wrote p1 s p2 \<Longrightarrow> wrote p (t @ s) p2"
proof -
  assume e: "ends p t p1" and w: "wrote p1 s p2"
  let ?o = "p_offset p + length t"
  have "drop (?o + length s + 1) (p_buffer p1) = drop (length s) (drop (?o + 1) (p_buffer p1))" by (simp add: ac_simps)
  also have "\<dots> = drop (length s) (drop (?o + 1) (p_buffer p))" using e by (simp add: ends_def wrote_def)
  finally have "drop (?o + length s + 1) (p_buffer p1) = drop (?o + length s + 1) (p_buffer p)" by (simp add: ac_simps)
  with e w show ?thesis by (simp add: ends_def wrote_def ac_simps)
qed

lemma printed_trans: "ends p t p1 \<Longrightarrow> printed p1 s p2 \<Longrightarrow> printed p (t @ s) p2"
  using wrote_trans [of p t p1 s p2] by (simp add: printed_def ends_def ac_simps)

lemma ends_trans: "ends p t p1 \<Longrightarrow> ends p1 s p2 \<Longrightarrow> ends p (t @ s) p2"
  using wrote_trans [of p t p1 s p2] by (simp add: ends_def ac_simps)

lemma printed_ends: "printed p t p' \<Longrightarrow> p_offset p' = p_offset p + length t \<Longrightarrow> ends p t p'"
  by (simp add: printed_def ends_def)

lemma ends_space: "ends p t p' \<Longrightarrow> length (p_buffer p') = length (p_buffer p) \<and> p_offset p' < length (p_buffer p)"
  by (simp add: ends_def wrote_def)

text \<open>Strings.\<close>

lemma escape_byte_length: "length (escape_byte b) = 1 + escape_extra b"
  by (auto simp: escape_byte_def escape_extra_def not_less word_le_nat_alt word_less_nat_alt)

lemma escape_length: "length (concat (map escape_byte s)) = length s + sum_list (map escape_extra s)"
  by (induction s) (simp_all add: escape_byte_length)

lemma escape_plain: "sum_list (map escape_extra s) = 0 \<Longrightarrow> concat (map escape_byte s) = s"
proof (induction s)
  case (Cons b s)
  then have "escape_extra b = 0" by simp
  then have "escape_byte b = [b]"
    by (auto simp: escape_byte_def escape_extra_def not_less word_le_nat_alt word_less_nat_alt split: if_splits)
  with Cons show ?case by simp
qed simp

lemma hex_nibble_nonzero: "n < 16 \<Longrightarrow> hex_nibble n \<noteq> 0"
proof
  assume n: "n < 16" and z: "hex_nibble n = 0"
  then have "unat n < 16" by (simp add: word_less_nat_alt)
  moreover have "unat (hex_nibble n) = (if n < 10 then 0x30 + unat n else 0x57 + unat n)"
    using \<open>unat n < 16\<close> by (simp add: hex_nibble_def unat_word_ariths)
  ultimately show False using z by (simp split: if_splits)
qed

lemma nibble_bounds: "drop_bit 4 b < (16 :: u8)" "b AND 0x0F < (16 :: u8)"
proof -
  have "unat (drop_bit 4 b) = unat b div 16" by (simp only: unat_drop_bit_eq drop_bit_nat_def) simp
  moreover have "unat b < 2 ^ LENGTH(8)" by (rule unsigned_less)
  ultimately show "drop_bit 4 b < (16 :: u8)" by (simp add: word_less_nat_alt)
  have "b AND 0x0F \<le> (0x0F :: u8)" by (rule word_and_le1)
  then show "b AND 0x0F < (16 :: u8)" by (rule order_le_less_trans) simp
qed

lemma escape_nonzero: "b \<noteq> 0 \<Longrightarrow> 0 \<notin> set (escape_byte b)"
  using hex_nibble_nonzero [OF nibble_bounds(1) [of b]] hex_nibble_nonzero [OF nibble_bounds(2) [of b]]
  by (auto simp: escape_byte_def split: if_splits)

lemma cstr_nonzero: "b \<in> set (cstr s) \<Longrightarrow> b \<noteq> 0"
  unfolding cstr_def by (metis set_takeWhileD)

lemma quoted_nonzero: "0 \<notin> set (quoted s)"
  using escape_nonzero cstr_nonzero [of _ s] by (auto simp: quoted_def)

lemma print_string_printed:
  assumes len: "int (length (p_buffer p)) \<le> INT_MAX"
  shows "outcome (print_string_ptr (Some s) p) (p_offset p + length (quoted s) + 2 \<le> length (p_buffer p)) (printed p (quoted s))"
proof -
  let ?s = "cstr s"
  let ?x = "sum_list (map escape_extra ?s)"
  let ?e = "concat (map escape_byte ?s)"
  have q: "length (quoted s) = length ?s + ?x + 2" by (simp add: quoted_def escape_length)
  note en = ensure_iff [OF len, of "length ?s + ?x + 3"]
  show ?thesis
  proof (cases "p_offset p + length (quoted s) + 2 \<le> length (p_buffer p)")
    case False
    then show ?thesis using en q by (simp add: print_string_ptr_def outcome_def)
  next
    case True
    show ?thesis
    proof (cases "?x = 0")
      case x: True
      then have "quoted s = 0x22 # ?s @ [0x22]" using escape_plain [OF x] by (simp add: quoted_def)
      moreover obtain p' where "put (quoted s @ [0]) p = Some p'" "printed p (quoted s) p'" using wrote_put [of p "quoted s"] True by auto
      ultimately show ?thesis using True en by (simp add: print_string_ptr_def outcome_def Let_def x)
    next
      case x: False
      let ?b = "take (p_offset p) (p_buffer p) @ (0x22 # ?e) @ drop (p_offset p + 1 + length ?e) (p_buffer p)"
      have l: "length ?e = length ?s + ?x" by (rule escape_length)
      have p1: "put (0x22 # ?e) p = Some (p \<lparr> p_buffer := ?b \<rparr>)" using True q l by (simp add: put_def poke_def)
      have p2: "poke (p_offset p + (length ?s + ?x) + 1) [0x22, 0] ?b =
          Some (take (p_offset p) (p_buffer p) @ quoted s @ 0 # drop (p_offset p + length (quoted s) + 1) (p_buffer p))"
        using poke_seq [of "take (p_offset p) (p_buffer p) @ 0x22 # ?e" "p_offset p + (length ?s + ?x) + 1" "[0x22, 0]" "p_buffer p"] True q l
        by (simp add: quoted_def)
      have "printed p (quoted s) (p \<lparr> p_buffer := take (p_offset p) (p_buffer p) @ quoted s @ 0 # drop (p_offset p + length (quoted s) + 1) (p_buffer p) \<rparr>)"
        using True by (simp add: printed_def wrote_def nth_append)
      moreover have "ensure p (length ?s + ?x + 3)" using True en q by simp
      moreover have "p_offset (p \<lparr> p_buffer := b \<rparr>) = p_offset p" "p_buffer (p \<lparr> p_buffer := b \<rparr>) = b" for b by simp_all
      ultimately show ?thesis using True x
        by (simp only: outcome_def print_string_ptr_def option.case Let_def p1 p2 Option.bind.bind_lunit) simp
    qed
  qed
qed

text \<open>Numbers and literals.\<close>

lemma digit_nonzero: "is_digit b \<Longrightarrow> b \<noteq> 0"
  by (auto simp: is_digit_def)

lemma nat_digits_nonzero: "0 \<notin> set (nat_digits n)"
  using nat_digits_digits [of n] digit_nonzero by blast

lemma dec_text_nonzero: "0 \<notin> set (dec_text i)"
  using nat_digits_nonzero by (simp add: dec_text_def)

lemma with_frac_set: "set (with_frac ip fp) \<subseteq> set ip \<union> {0x2E} \<union> set fp"
  using set_dropWhileD [of _ "\<lambda>b. b = 0x30" "rev fp"] by (auto simp: with_frac_def Let_def)

lemma g_text_nonzero: "0 \<notin> set (g_text P x)"
proof (cases "x = 0")
  case False
  obtain m e where g: "g_digits P \<bar>x\<bar> = (m, e)" by (cases "g_digits P \<bar>x\<bar>")
  have d: "0 \<notin> set (take n (nat_digits m))" "0 \<notin> set (drop n (nat_digits m))" for n
    using nat_digits_nonzero [of m] by (meson in_set_takeD, meson in_set_dropD)
  have "0 \<notin> set (with_frac (take n (nat_digits m)) (drop n (nat_digits m)))" for n
    using with_frac_set [of "take n (nat_digits m)" "drop n (nat_digits m)"] d [of n] by auto
  moreover have "0 \<notin> set (exp_text e)" using nat_digits_nonzero by (auto simp: exp_text_def Let_def)
  moreover have "0 \<notin> set (with_frac [0x30] (replicate k 0x30 @ nat_digits m))" for k
    using with_frac_set [of "[0x30]" "replicate k 0x30 @ nat_digits m"] nat_digits_nonzero [of m] by auto
  ultimately show ?thesis using False g by (simp add: g_text_def Let_def)
qed (simp add: g_text_def)

lemma ascii_null: "ascii ''null'' = [0x6E, 0x75, 0x6C, 0x6C]" "ascii ''true'' = [0x74, 0x72, 0x75, 0x65]"
  "ascii ''false'' = [0x66, 0x61, 0x6C, 0x73, 0x65]"
  by (simp_all add: ascii_def)

lemma number_text_nonzero: "0 \<notin> set (number_text d i)"
  using g_text_nonzero dec_text_nonzero by (auto simp: number_text_def Let_def ascii_null split: double.split)

lemma print_number_printed:
  assumes "int (length (p_buffer p)) \<le> INT_MAX" and "numbers_ok (cJSON_Number d i)"
  shows "outcome (print_number d i p) (p_offset p + length (number_text d i) + 2 \<le> length (p_buffer p)) (printed p (number_text d i))"
  using emit_printed [OF assms(1), of "number_text d i" "length (number_text d i) + 1" "length (number_text d i)"]
    number_text_length [of d i] assms(2)
  by (auto simp: print_number_def Let_def elim: outcome_weaken)

lemma print_literal_printed:
  assumes "int (length (p_buffer p)) \<le> INT_MAX"
  shows "outcome (print_literal cs p) (p_offset p + length (ascii cs) + 2 \<le> length (p_buffer p)) (printed p (ascii cs))"
  unfolding print_literal_def using emit_printed [OF assms, of "ascii cs" "length cs + 1" 0] by (auto elim: outcome_weaken)

lemma json_text_nonzero: "0 \<notin> set (json_text v)"
proof -
  have c: "set (comma_sep ts) \<subseteq> {0x2C} \<union> \<Union> (set ` set ts)" for ts by (induction ts rule: comma_sep.induct) auto
  show ?thesis
  proof (induction v rule: json_text.induct)
    case (6 xs)
    then show ?case using c [of "map json_text xs"] by auto
  next
    case (7 ms)
    then show ?case using c [of "map (\<lambda>(k, v). quoted k @ 0x3A # json_text v) ms"] quoted_nonzero by fastforce
  qed (simp_all add: ascii_null number_text_nonzero quoted_nonzero)
qed

lemma comma_sep_Cons: "comma_sep (t # ts) = t @ (if ts = [] then [] else 0x2C # comma_sep ts)"
  by (cases ts) simp_all

text \<open>
  \<open>prints v\<close>: from every buffer the printer of \<open>v\<close> succeeds exactly if the nesting is allowed
  and the text, its terminator and one spare byte fit, and it then leaves the text.
\<close>

definition prints :: "cJSON \<Rightarrow> bool" where
  "prints v = (\<forall>p. int (length (p_buffer p)) \<le> INT_MAX \<longrightarrow>
     outcome (print_value v p) (depth_ok (p_depth p) v \<and> p_offset p + length (json_text v) + 2 \<le> length (p_buffer p))
       (printed p (json_text v)))"

lemma outcome_update:
  assumes "outcome r c (printed p t)" and "0 \<notin> set t" and "\<And>q. c \<Longrightarrow> ends p t q \<Longrightarrow> outcome (f q) c' Q"
  shows "outcome (and_then r (\<lambda>q. do { q \<leftarrow> update_offset q; f q })) (c \<and> c') Q"
proof (rule outcome_and_then [OF assms(1)])
  fix q
  assume "c" and "printed p t q"
  then show "outcome (do { q \<leftarrow> update_offset q; f q }) c' Q"
    using update_offset_printed [OF _ assms(2), of p q] assms(3) by auto
qed

lemma prints_step:
  assumes "prints v" and "int (length (p_buffer p)) \<le> INT_MAX" and "\<And>q. ends p (json_text v) q \<Longrightarrow> outcome (f q) c Q"
  shows "outcome (and_then (print_value v p) (\<lambda>q. do { q \<leftarrow> update_offset q; f q }))
    ((depth_ok (p_depth p) v \<and> p_offset p + length (json_text v) + 2 \<le> length (p_buffer p)) \<and> c) Q"
proof -
  have "outcome (print_value v p) (depth_ok (p_depth p) v \<and> p_offset p + length (json_text v) + 2 \<le> length (p_buffer p)) (printed p (json_text v))"
    using assms(1,2) unfolding prints_def by blast
  then show ?thesis by (rule outcome_update [OF _ json_text_nonzero assms(3)])
qed

lemma ends_facts: "ends p t q \<Longrightarrow> p_offset q = p_offset p + length t \<and> length (p_buffer q) = length (p_buffer p) \<and> p_depth q = p_depth p"
  by (simp add: ends_def wrote_def)

lemma ends_refl: "p_offset p < length (p_buffer p) \<Longrightarrow> ends p [] p"
  by (simp add: ends_def wrote_def)

lemma emit_ends:
  assumes "int (length (p_buffer p)) \<le> INT_MAX"
  shows "outcome (emit (length t + 1) (t @ [0]) (length t) p) (p_offset p + length t + 2 \<le> length (p_buffer p)) (ends p t)"
  by (rule outcome_weaken [OF emit_printed [OF assms, of t "length t + 1" "length t"]]) (auto intro: printed_ends)

lemma comma_printed:
  assumes "int (length (p_buffer p)) \<le> INT_MAX"
  shows "outcome (emit 2 [0x2C, 0] 1 p) (p_offset p + 3 \<le> length (p_buffer p)) (ends p [0x2C])"
  using emit_ends [OF assms, of "[0x2C]"] by (simp add: numeral_eq_Suc)

lemma print_elements_outcome:
  assumes "\<forall>x \<in> set xs. prints x" and "int (length (p_buffer p)) \<le> INT_MAX" and "p_offset p < length (p_buffer p)"
  shows "outcome (print_elements xs p) ((\<forall>x \<in> set xs. depth_ok (p_depth p) x) \<and>
        (xs = [] \<or> p_offset p + length (comma_sep (map json_text xs)) + 2 \<le> length (p_buffer p)))
      (ends p (comma_sep (map json_text xs)))"
  using assms
proof (induction xs arbitrary: p)
  case Nil
  then show ?case by (simp add: outcome_def ends_refl)
next
  case (Cons x xs)
  let ?cs = "comma_sep (map json_text xs)" and ?o = "p_offset p + length (json_text x)" and ?n = "length (p_buffer p)"
  let ?c = "xs \<noteq> [] \<longrightarrow> ?o + 3 \<le> ?n \<and> (\<forall>x \<in> set xs. depth_ok (p_depth p) x) \<and> ?o + 1 + length ?cs + 2 \<le> ?n"
  have "outcome (if xs \<noteq> [] then and_then (emit 2 [0x2C, 0] 1 q) (print_elements xs) else print_elements xs q) ?c
      (ends p (comma_sep (map json_text (x # xs))))" if q: "ends p (json_text x) q" for q
  proof (cases "xs = []")
    case True
    then show ?thesis using q by (simp add: outcome_def)
  next
    case False
    have l: "int (length (p_buffer q)) \<le> INT_MAX" using Cons.prems(2) ends_facts [OF q] by simp
    have "outcome (and_then (emit 2 [0x2C, 0] 1 q) (print_elements xs))
        (p_offset q + 3 \<le> length (p_buffer q) \<and> (\<forall>x \<in> set xs. depth_ok (p_depth q) x) \<and> p_offset q + 1 + length ?cs + 2 \<le> length (p_buffer q))
        (ends p (comma_sep (map json_text (x # xs))))"
    proof (rule outcome_and_then [OF comma_printed [OF l]])
      fix r
      assume r: "ends q [0x2C] r"
      have "outcome (print_elements xs r) ((\<forall>x \<in> set xs. depth_ok (p_depth r) x) \<and>
          (xs = [] \<or> p_offset r + length ?cs + 2 \<le> length (p_buffer r))) (ends r ?cs)"
        using Cons.IH [of r] Cons.prems(1) l ends_facts [OF r] ends_space [OF r] by simp
      then show "outcome (print_elements xs r) ((\<forall>x \<in> set xs. depth_ok (p_depth q) x) \<and> p_offset q + 1 + length ?cs + 2 \<le> length (p_buffer q))
          (ends p (comma_sep (map json_text (x # xs))))"
        using ends_facts [OF r] False ends_trans [OF ends_trans [OF q r]] by (auto simp: comma_sep_Cons elim: outcome_weaken)
    qed
    then show ?thesis using False ends_facts [OF q] by simp
  qed
  then have "outcome (print_elements (x # xs) p) ((depth_ok (p_depth p) x \<and> ?o + 2 \<le> ?n) \<and> ?c) (ends p (comma_sep (map json_text (x # xs))))"
    using prints_step [of x p "\<lambda>q. if xs \<noteq> [] then and_then (emit 2 [0x2C, 0] 1 q) (print_elements xs) else print_elements xs q" ?c
        "ends p (comma_sep (map json_text (x # xs)))"] Cons.prems by simp
  then show ?case by (rule outcome_weaken) (auto simp: comma_sep_Cons)
qed

lemma print_member_outcome:
  assumes "prints v" and "int (length (p_buffer p)) \<le> INT_MAX" and "\<And>q. ends p (quoted k @ 0x3A # json_text v) q \<Longrightarrow> outcome (f q) c Q"
  shows "outcome (and_then (print_string_ptr (Some k) p) (\<lambda>p. do { p \<leftarrow> update_offset p;
      and_then (emit 1 [0x3A] 1 p) (\<lambda>p. and_then (print_value v p) (\<lambda>p. do { p \<leftarrow> update_offset p; f p })) }))
    (depth_ok (p_depth p) v \<and> p_offset p + length (quoted k @ 0x3A # json_text v) + 2 \<le> length (p_buffer p) \<and> c) Q"
proof -
  let ?n = "length (p_buffer p)" and ?o = "p_offset p + length (quoted k)"
  have "outcome (and_then (emit 1 [0x3A] 1 q) (\<lambda>p. and_then (print_value v p) (\<lambda>p. do { p \<leftarrow> update_offset p; f p })))
      (?o + 2 \<le> ?n \<and> (depth_ok (p_depth p) v \<and> ?o + 1 + length (json_text v) + 2 \<le> ?n) \<and> c) Q"
    if q: "ends p (quoted k) q" for q
  proof -
    have "outcome (emit 1 [0x3A] 1 q) (?o + 2 \<le> ?n) (ends q [0x3A])"
      using emit_char [of q 1 "0x3A"] assms(2) ends_facts [OF q] by simp
    then show ?thesis
    proof (rule outcome_and_then)
      fix r
      assume r: "ends q [0x3A] r"
      then show "outcome (and_then (print_value v r) (\<lambda>p. do { p \<leftarrow> update_offset p; f p }))
          ((depth_ok (p_depth p) v \<and> ?o + 1 + length (json_text v) + 2 \<le> ?n) \<and> c) Q"
        using prints_step [of v r f c Q] assms ends_facts [OF q] ends_facts [OF r] ends_trans [OF ends_trans [OF q r]] by simp
    qed
  qed
  then show ?thesis
    by (intro outcome_weaken [OF outcome_update [OF print_string_printed [OF assms(2)] quoted_nonzero]]) auto
qed

definition member_text :: "bytes \<times> cJSON \<Rightarrow> bytes" where
  "member_text m = (case m of (k, v) \<Rightarrow> quoted k @ 0x3A # json_text v)"

lemma member_text_pair [simp]: "member_text (k, v) = quoted k @ 0x3A # json_text v"
  by (simp add: member_text_def)

lemma json_text_Object: "json_text (cJSON_Object ms) = 0x7B # comma_sep (map member_text ms) @ [0x7D]"
  by (simp add: member_text_def [abs_def])

lemma print_members_outcome:
  assumes "\<forall>m \<in> set ms. prints (snd m)" and "int (length (p_buffer p)) \<le> INT_MAX" and "p_offset p < length (p_buffer p)"
  shows "outcome (print_members ms p) ((\<forall>m \<in> set ms. depth_ok (p_depth p) (snd m)) \<and>
        (ms = [] \<or> p_offset p + length (comma_sep (map member_text ms)) + 2 \<le> length (p_buffer p)))
      (ends p (comma_sep (map member_text ms)))"
  using assms
proof (induction ms arbitrary: p)
  case Nil
  then show ?case by (simp add: outcome_def ends_refl)
next
  case (Cons m ms)
  obtain k v where m: "m = (k, v)" by (cases m)
  let ?cs = "comma_sep (map member_text ms)" and ?t = "quoted k @ 0x3A # json_text v"
  let ?s = "if ms \<noteq> [] then [0x2C] else [] :: bytes" and ?o = "p_offset p + length ?t" and ?n = "length (p_buffer p)"
  let ?c = "?o + length ?s + 2 \<le> ?n \<and> (\<forall>m \<in> set ms. depth_ok (p_depth p) (snd m)) \<and> (ms = [] \<or> ?o + 1 + length ?cs + 2 \<le> ?n)"
  let ?f = "\<lambda>p. let n = (if ms \<noteq> [] then 1 else 0) in and_then (emit (n + 1) (?s @ [0]) n p) (print_members ms)"
  have "outcome (?f q) ?c (ends p (comma_sep (map member_text (m # ms))))" if q: "ends p ?t q" for q
  proof -
    have l: "int (length (p_buffer q)) \<le> INT_MAX" using Cons.prems(2) ends_facts [OF q] by simp
    have "outcome (emit (length ?s + 1) (?s @ [0]) (length ?s) q) (?o + length ?s + 2 \<le> ?n) (ends q ?s)"
      using emit_ends [OF l, of ?s] ends_facts [OF q] by simp
    then have "outcome (and_then (emit (length ?s + 1) (?s @ [0]) (length ?s) q) (print_members ms)) ?c (ends p (comma_sep (map member_text (m # ms))))"
    proof (rule outcome_and_then)
      fix r
      assume r: "ends q ?s r"
      have "outcome (print_members ms r) ((\<forall>m \<in> set ms. depth_ok (p_depth r) (snd m)) \<and>
          (ms = [] \<or> p_offset r + length ?cs + 2 \<le> length (p_buffer r))) (ends r ?cs)"
        using Cons.IH [of r] Cons.prems(1) l ends_facts [OF r] ends_space [OF r] by simp
      then show "outcome (print_members ms r) ((\<forall>m \<in> set ms. depth_ok (p_depth p) (snd m)) \<and> (ms = [] \<or> ?o + 1 + length ?cs + 2 \<le> ?n))
          (ends p (comma_sep (map member_text (m # ms))))"
        using ends_facts [OF q] ends_facts [OF r] ends_trans [OF ends_trans [OF q r], of ?cs] m
        by (auto simp: comma_sep_Cons elim!: outcome_weaken split: if_splits)
    qed
    then show ?thesis by (cases "ms = []") simp_all
  qed
  moreover have "prints v" using Cons.prems(1) m by simp
  ultimately have "outcome (print_members (m # ms) p) (depth_ok (p_depth p) v \<and> p_offset p + length ?t + 2 \<le> ?n \<and> ?c)
      (ends p (comma_sep (map member_text (m # ms))))"
    unfolding m print_members.simps by (intro print_member_outcome Cons.prems(2))
  then show ?case by (rule outcome_weaken) (auto simp: m comma_sep_Cons)
qed

text \<open>Brackets.\<close>

lemma brackets_outcome:
  assumes len: "int (length (p_buffer p)) \<le> INT_MAX" and "1 \<le> n" "n \<le> 2" and "e \<Longrightarrow> t = []"
    and b: "\<And>q. ends p [x] q \<Longrightarrow> outcome (body (deeper q)) (c \<and> (e \<or> p_offset p + 1 + length t + 2 \<le> length (p_buffer p))) (ends (deeper q) t)"
  shows "outcome (and_then (emit n [x] 1 p) (\<lambda>p. and_then (body (deeper p)) (\<lambda>p. and_then (emit 2 [y, 0] 0 p) (\<lambda>p. Some (True, shallower p)))))
    (c \<and> p_offset p + length (x # t @ [y]) + 2 \<le> length (p_buffer p)) (printed p (x # t @ [y]))"
proof -
  let ?N = "length (p_buffer p)" and ?o = "p_offset p + 1 + length t"
  have last: "outcome (and_then (emit 2 [y, 0] 0 r) (\<lambda>p. Some (True, shallower p))) (?o + 3 \<le> ?N \<and> True) (printed p (x # t @ [y]))"
    if q: "ends p [x] q" and r: "ends (deeper q) t r" for q r
  proof (rule outcome_and_then)
    have f: "p_offset r = ?o" "length (p_buffer r) = ?N" "p_depth r = Suc (p_depth p)"
      using ends_facts [OF q] ends_facts [OF r] by (simp_all add: deeper_def)
    then show "outcome (emit 2 [y, 0] 0 r) (?o + 3 \<le> ?N) (\<lambda>s. printed r [y] s)"
      using emit_printed [of r "[y]" 2 0] len by (auto elim!: outcome_weaken)
    fix s
    assume s: "printed r [y] s"
    have "ends q t (shallower r)" using r f(3) ends_facts [OF q] by (simp add: ends_def wrote_def deeper_def shallower_def)
    moreover have "printed (shallower r) [y] (shallower s)" using s by (simp add: printed_def wrote_def shallower_def)
    ultimately show "outcome (Some (True, shallower s)) True (printed p (x # t @ [y]))"
      using printed_trans [OF ends_trans [OF q]] by (simp add: outcome_def)
  qed
  have "outcome (and_then (body (deeper q)) (\<lambda>p. and_then (emit 2 [y, 0] 0 p) (\<lambda>p. Some (True, shallower p))))
      ((c \<and> (e \<or> ?o + 2 \<le> ?N)) \<and> ?o + 3 \<le> ?N \<and> True) (printed p (x # t @ [y]))" if q: "ends p [x] q" for q
    using outcome_and_then [OF b [OF q] last [OF q]] by simp
  from outcome_and_then [OF emit_char [OF len assms(2), of x] this] show ?thesis
    by (rule outcome_weaken) (use assms(2-4) in auto)
qed

lemma print_value_prints: "numbers_ok v \<Longrightarrow> prints v"
proof (induction v rule: json_text.induct)
  case 1
  then show ?case using print_literal_printed [of _ "''null''"] by (simp add: prints_def)
next
  case 2
  then show ?case using print_literal_printed [of _ "''false''"] by (simp add: prints_def)
next
  case 3
  then show ?case using print_literal_printed [of _ "''true''"] by (simp add: prints_def)
next
  case (4 d i)
  then show ?case using print_number_printed [of _ d i] by (simp add: prints_def)
next
  case (5 s)
  then show ?case using print_string_printed [of _ s] by (simp add: prints_def)
next
  case (6 xs)
  then have xs: "\<forall>x \<in> set xs. prints x" by simp
  show ?case unfolding prints_def
  proof (intro allI impI)
    fix p :: printbuffer
    assume len: "int (length (p_buffer p)) \<le> INT_MAX"
    have "outcome (print_elements xs (deeper q)) ((\<forall>x \<in> set xs. depth_ok (Suc (p_depth p)) x) \<and>
        (xs = [] \<or> p_offset p + 1 + length (comma_sep (map json_text xs)) + 2 \<le> length (p_buffer p)))
        (ends (deeper q) (comma_sep (map json_text xs)))" if q: "ends p [0x5B] q" for q
      using print_elements_outcome [OF xs, of "deeper q"] len ends_facts [OF q] ends_space [OF q] by (simp add: deeper_def)
    from brackets_outcome [OF len _ _ _ this, of 1 "0x5B" "0x5D"]
    show "outcome (print_value (cJSON_Array xs) p) (depth_ok (p_depth p) (cJSON_Array xs) \<and>
        p_offset p + length (json_text (cJSON_Array xs)) + 2 \<le> length (p_buffer p)) (printed p (json_text (cJSON_Array xs)))"
      by (auto simp: outcome_fail)
  qed
next
  case (7 ms)
  then have ms: "\<forall>m \<in> set ms. prints (snd m)" by (metis numbers_ok.simps(3) surjective_pairing)
  show ?case unfolding prints_def
  proof (intro allI impI)
    fix p :: printbuffer
    assume len: "int (length (p_buffer p)) \<le> INT_MAX"
    have "outcome (print_members ms (deeper q)) ((\<forall>m \<in> set ms. depth_ok (Suc (p_depth p)) (snd m)) \<and>
        (ms = [] \<or> p_offset p + 1 + length (comma_sep (map member_text ms)) + 2 \<le> length (p_buffer p)))
        (ends (deeper q) (comma_sep (map member_text ms)))" if q: "ends p [0x7B] q" for q
      using print_members_outcome [OF ms, of "deeper q"] len ends_facts [OF q] ends_space [OF q] by (simp add: deeper_def)
    from brackets_outcome [OF len _ _ _ this, of 2 "0x7B" "0x7D"]
    show "outcome (print_value (cJSON_Object ms) p) (depth_ok (p_depth p) (cJSON_Object ms) \<and>
        p_offset p + length (json_text (cJSON_Object ms)) + 2 \<le> length (p_buffer p)) (printed p (json_text (cJSON_Object ms)))"
      unfolding json_text_Object by (auto simp: outcome_fail)
  qed
qed

text \<open>No step changes the size of the buffer.\<close>

definition keeps :: "(printbuffer \<Rightarrow> (bool \<times> printbuffer) option) \<Rightarrow> bool" where
  "keeps f = (\<forall>p ok q. f p = Some (ok, q) \<longrightarrow> length (p_buffer q) = length (p_buffer p))"

lemma keeps_and_then: "keeps f \<Longrightarrow> keeps g \<Longrightarrow> keeps (\<lambda>p. and_then (f p) g)"
  by (fastforce simp: keeps_def and_then_def split: bind_splits if_splits)

lemma keeps_update: "keeps f \<Longrightarrow> keeps (\<lambda>p. do { p \<leftarrow> update_offset p; f p })"
  by (auto simp: keeps_def update_offset_def forth_def Let_def split: bind_splits if_splits)

lemma keeps_if: "keeps f \<Longrightarrow> keeps g \<Longrightarrow> keeps (\<lambda>p. if b p then f p else g p)"
  by (auto simp: keeps_def)

lemma keeps_return: "keeps (\<lambda>p. Some (ok, p))" "keeps (\<lambda>p. Some (ok, shallower p))"
  by (auto simp: keeps_def shallower_def)

lemma keeps_deeper: "keeps f \<Longrightarrow> keeps (\<lambda>p. f (deeper p))"
  by (auto simp: keeps_def deeper_def)

lemma put_length: "put bs p = Some q \<Longrightarrow> length (p_buffer q) = length (p_buffer p)"
  by (auto simp: put_def poke_def split: if_splits)

lemma keeps_emit: "keeps (emit n bs k)"
  by (auto simp: keeps_def emit_def forth_def dest!: put_length split: bind_splits if_splits)

lemma keeps_leaves: "keeps (print_number d i)" "keeps (print_literal cs)" "keeps (print_string_ptr s)"
proof -
  show "keeps (print_number d i)" using keeps_emit by (auto simp: keeps_def print_number_def Let_def split: if_splits)
  show "keeps (print_literal cs)" unfolding print_literal_def [abs_def] by (rule keeps_emit)
  show "keeps (print_string_ptr s)"
    using keeps_emit [of 3 "[0x22, 0x22, 0]" 0]
    by (fastforce simp: keeps_def print_string_ptr_def Let_def poke_def dest!: put_length split: option.splits bind_splits if_splits)
qed

lemmas keeps_intros = keeps_and_then keeps_update keeps_if keeps_return keeps_deeper keeps_emit keeps_leaves

lemma keeps_value: "keeps (print_value v)"
proof (induction v rule: json_text.induct)
  case (6 xs)
  then have "keeps (print_elements xs)"
    by (induction xs) (auto simp: print_elements.simps [abs_def] intro!: keeps_intros)
  then show ?case by (auto simp: print_value.simps [abs_def] intro!: keeps_intros)
next
  case (7 ms)
  then have "\<forall>m \<in> set ms. keeps (print_value (snd m))" by (metis surjective_pairing)
  then have "keeps (print_members ms)"
    by (induction ms) (auto simp: print_members.simps [abs_def] Let_def intro!: keeps_intros)
  then show ?case by (auto simp: print_value.simps [abs_def] intro!: keeps_intros)
qed (simp_all add: print_value.simps [abs_def] keeps_leaves)

lemma print_preallocated:
  assumes "numbers_ok v" and "int (length buffer) \<le> INT_MAX"
  shows "\<exists>ok out. cJSON_PrintPreallocated v buffer = Some (ok, out) \<and> length out = length buffer \<and>
    (ok \<longleftrightarrow> depth_ok 0 v \<and> length (json_text v) + 2 \<le> length buffer) \<and>
    (ok \<longrightarrow> out = json_text v @ 0 # drop (length (json_text v) + 1) buffer)"
proof -
  let ?p = "\<lparr> p_buffer = buffer, p_offset = 0, p_depth = 0 \<rparr>" and ?t = "json_text v"
  have "outcome (print_value v ?p) (depth_ok 0 v \<and> length ?t + 2 \<le> length buffer) (printed ?p ?t)"
    using print_value_prints [OF assms(1)] assms(2) unfolding prints_def by (metis add_0 printbuffer.select_convs)
  then obtain q where q: "print_value v ?p = Some (depth_ok 0 v \<and> length ?t + 2 \<le> length buffer, q)"
      "depth_ok 0 v \<and> length ?t + 2 \<le> length buffer \<longrightarrow> printed ?p ?t q"
    by (auto simp: outcome_def)
  have "p_buffer q = ?t @ 0 # drop (length ?t + 1) buffer" if "printed ?p ?t q"
    using that id_take_nth_drop [of "length ?t" "p_buffer q"] by (auto simp: printed_def wrote_def)
  moreover have "length (p_buffer q) = length buffer" using keeps_value [of v] q(1) by (fastforce simp: keeps_def)
  ultimately show ?thesis using q by (simp add: cJSON_PrintPreallocated_def)
qed

section \<open>The properties\<close>

text \<open>
  C33. \<open>cJSON_PrintPreallocated\<close> on a caller's buffer: it never touches a byte outside the
  buffer, it returns true exactly if the nesting is within the limit and the text, its terminator
  and one more byte fit, and on success the buffer holds the text of the value and a zero byte,
  with everything behind it untouched.
\<close>

theorem cJSON_PrintPreallocated_correct:
  assumes "numbers_ok v" and "int (length buffer) \<le> INT_MAX"
  shows "\<exists>ok out. cJSON_PrintPreallocated v buffer = Some (ok, out) \<and> length out = length buffer \<and>
    (ok \<longleftrightarrow> depth_ok 0 v \<and> length (json_text v) + 2 \<le> length buffer) \<and>
    (ok \<longrightarrow> out = json_text v @ 0 # drop (length (json_text v) + 1) buffer)"
  using assms by (rule print_preallocated)

theorem cJSON_PrintPreallocated_correct_witness:
  "\<exists>out. cJSON_PrintPreallocated (cJSON_Object [(ascii ''msg'', cJSON_String (ascii ''hi''))]) (replicate 20 1) = Some (True, out) \<and>
    out = ascii ''{\"msg\":\"hi\"}'' @ 0 # replicate 7 1"
proof -
  let ?v = "cJSON_Object [(ascii ''msg'', cJSON_String (ascii ''hi''))]"
  have t: "json_text ?v = ascii ''{\"msg\":\"hi\"}''"
    by (simp add: ascii_def quoted_def cstr_def escape_byte_def word_less_nat_alt)
  have d: "drop (length (json_text ?v) + 1) (replicate 20 1) = (replicate 7 1 :: bytes)" unfolding t by code_simp
  have l: "length (json_text ?v) + 2 \<le> length (replicate 20 (1 :: u8))" unfolding t by code_simp
  have "numbers_ok ?v" and n: "depth_ok 0 ?v" and "int (length (replicate 20 (1 :: u8))) \<le> INT_MAX"
    by (simp_all add: CJSON_NESTING_LIMIT_def INT_MAX_def)
  then obtain ok out where "cJSON_PrintPreallocated ?v (replicate 20 1) = Some (ok, out)"
      "ok = (depth_ok 0 ?v \<and> length (json_text ?v) + 2 \<le> length (replicate 20 (1 :: u8)))"
      "ok \<longrightarrow> out = json_text ?v @ 0 # drop (length (json_text ?v) + 1) (replicate 20 1)"
    using cJSON_PrintPreallocated_correct [of ?v "replicate 20 1"] by blast
  moreover from this have "ok" using l n by blast
  ultimately show ?thesis unfolding d t by simp
qed

end
