(* ===== verification/Cjson_Roundtrip.thy ===== *)
theory Cjson_Roundtrip
  imports Cjson_Print
begin

text \<open>
  What the printer writes, the parser reads back. The values concerned are those with strings
  without a zero byte and numbers that are an \<open>int\<close>, which is all the gateway's clients and
  handlers exchange apart from sensor readings.
\<close>

section \<open>Strings\<close>

lemma drop_Cons_nth: "drop p c = x # r \<Longrightarrow> p < length c \<and> c ! p = x \<and> drop (Suc p) c = r"
  by (metis Cons_nth_drop_Suc drop_all list.distinct(1) list.inject not_le)

lemma drop_past: "drop p c = xs @ r \<Longrightarrow> drop (p + length xs) c = r"
  by (metis append_eq_conv_conj drop_drop add.commute)

lemma six: "p + 6 = Suc (Suc (Suc (Suc (Suc (Suc p)))))"
  by simp

definition escaped :: "u8 \<Rightarrow> bool" where "escaped b = (escape_byte b \<noteq> [b])"

lemma escape_byte_cases:
  obtains (plain) "escape_byte b = [b]" "b \<noteq> 0x22" "b \<noteq> 0x5C" "\<not> escaped b"
  | (simple) x where "escape_byte b = [0x5C, x]" "x \<noteq> 0x75" "simple_escape x = Some b" "escaped b"
  | (code) "escape_byte b = [0x5C, 0x75, 0x30, 0x30, hex_nibble (drop_bit 4 b), hex_nibble (b AND 0x0F)]" "b < 32" "escaped b"
proof (cases "escape_byte b = [b]")
  case True
  moreover from this have "b \<noteq> 0x22" "b \<noteq> 0x5C" by (auto simp: escape_byte_def)
  ultimately show ?thesis using plain by (simp add: escaped_def)
next
  case False
  then have e: "escaped b" by (simp add: escaped_def)
  consider "b = 0x5C" | "b = 0x22" | "b = 0x08" | "b = 0x0C" | "b = 0x0A" | "b = 0x0D" | "b = 0x09"
    | "b \<notin> {0x5C, 0x22, 0x08, 0x0C, 0x0A, 0x0D, 0x09}" by blast
  then show ?thesis
  proof cases
    case 8
    then have "\<not> 31 < b" using False by (auto simp: escape_byte_def)
    then have "b < 32" by (simp add: word_less_nat_alt word_le_nat_alt not_less)
    moreover have "escape_byte b = [0x5C, 0x75, 0x30, 0x30, hex_nibble (drop_bit 4 b), hex_nibble (b AND 0x0F)]"
      using 8 \<open>\<not> 31 < b\<close> by (simp add: escape_byte_def)
    ultimately show ?thesis using code e by blast
  qed (use simple e in \<open>simp_all add: escape_byte_def simple_escape_def\<close>)
qed

text \<open>The two digits of a control character, put together and encoded again.\<close>

definition code_back :: "u8 \<Rightarrow> bool" where
  "code_back b =
     (case (hex_digit (hex_nibble (drop_bit 4 b)), hex_digit (hex_nibble (b AND 0x0F))) of
        (Some h, Some l) \<Rightarrow> push_bit 4 h + l < 0xD800 \<and> utf8_encode (ucast (push_bit 4 h + l)) = Some [b]
      | _ \<Rightarrow> False)"

lemma below_list: "unat (b :: u8) < n \<Longrightarrow> list_all P (map word_of_nat [0..<n]) \<Longrightarrow> P b"
proof -
  assume n: "unat b < n" and "list_all P (map word_of_nat [0..<n])"
  then have "\<forall>i \<in> {0..<n}. P (word_of_nat i)" by (simp add: list_all_iff)
  then have "P (word_of_nat (unat b))" by (rule bspec) (simp add: n)
  then show "P b" by simp
qed

lemma code_back_small: "b < 32 \<Longrightarrow> code_back b"
proof (rule below_list)
  show "list_all code_back (map word_of_nat [0..<32])" by code_simp
qed (simp add: word_less_nat_alt)

lemma nibble_digit: "n < 16 \<Longrightarrow> hex_nibble n \<noteq> 0x22 \<and> hex_nibble n \<noteq> 0x5C"
proof (rule below_list [where P = "\<lambda>n. hex_nibble n \<noteq> 0x22 \<and> hex_nibble n \<noteq> 0x5C"])
  show "list_all (\<lambda>n. hex_nibble n \<noteq> 0x22 \<and> hex_nibble n \<noteq> 0x5C) (map word_of_nat [0..<16])" by code_simp
qed (simp add: word_less_nat_alt)

lemma hex_zero: "hex_digit 0x30 = Some 0"
  by (simp add: hex_digit_def)

lemma drop_nth: "drop p c = xs @ r \<Longrightarrow> i < length xs \<Longrightarrow> p + i < length c \<and> c ! (p + i) = xs ! i"
  by (metis add.commute length_drop less_diff_conv length_append nth_append nth_drop trans_less_add1 less_imp_le_nat not_le_imp_less drop_all append_is_Nil_conv length_0_conv not_less0)

lemma parse_hex4_four:
  assumes "q + 3 < length c" and "hex_digit (c ! q) = Some 0" and "hex_digit (c ! (q + 1)) = Some 0"
    and "hex_digit (c ! (q + 2)) = Some h" and "hex_digit (c ! (q + 3)) = Some l"
  shows "parse_hex4 c q 0 0 = Some (push_bit 4 h + l)"
proof -
  have "parse_hex4 c q 3 (push_bit 4 h) = Some (push_bit 4 h + l)"
    using assms(1,5) parse_hex4.simps [of c q 4] by (simp add: parse_hex4.simps [of c q 3])
  then have "parse_hex4 c q 2 0 = Some (push_bit 4 h + l)" using assms(1,4) by (simp add: parse_hex4.simps [of c q 2])
  then have "parse_hex4 c q 1 0 = Some (push_bit 4 h + l)"
    using assms(1,3) by (simp add: parse_hex4.simps [of c q "Suc 0"] numeral_2_eq_2)
  then show ?thesis using assms(1,2) by (simp add: parse_hex4.simps [of c q 0])
qed

lemma unescape_code:
  assumes d: "drop p c = [0x5C, 0x75, 0x30, 0x30, hex_nibble (drop_bit 4 b), hex_nibble (b AND 0x0F)] @ r" and b: "b < 32" and e: "p + 6 \<le> e"
  shows "utf16_literal_to_utf8 c p e = Some (Some ([b], 6))"
proof -
  obtain h l where hl: "hex_digit (hex_nibble (drop_bit 4 b)) = Some h" "hex_digit (hex_nibble (b AND 0x0F)) = Some l"
      "push_bit 4 h + l < 0xD800" "utf8_encode (ucast (push_bit 4 h + l)) = Some [b]"
    using code_back_small [OF b] by (auto simp: code_back_def split: option.splits)
  have "parse_hex4 c (p + 2) 0 0 = Some (push_bit 4 h + l)"
  proof (rule parse_hex4_four)
    note n = drop_nth [OF d]
    have i: "p + 2 + 1 = p + 3" "p + 2 + 2 = p + 4" "p + 2 + 3 = p + 5" by simp_all
    show "p + 2 + 3 < length c" "hex_digit (c ! (p + 2)) = Some 0" "hex_digit (c ! (p + 2 + 1)) = Some 0"
      "hex_digit (c ! (p + 2 + 2)) = Some h" "hex_digit (c ! (p + 2 + 3)) = Some l"
      unfolding i using n [of 2] n [of 3] n [of 4] n [of 5] hl(1,2) hex_zero by (simp_all add: numeral_eq_Suc)
  qed
  moreover have "\<not> 0xDC00 \<le> push_bit 4 h + l" "\<not> 0xD800 \<le> push_bit 4 h + l"
    using hl(3) by (auto simp: not_le elim: order.strict_trans)
  ultimately show ?thesis using e hl(4) by (simp add: utf16_literal_to_utf8_def)
qed

lemma scan_plain:
  "drop p c = xs @ r \<Longrightarrow> 0x22 \<notin> set xs \<Longrightarrow> 0x5C \<notin> set xs \<Longrightarrow> scan_string c p k = scan_string c (p + length xs) k"
proof (induction xs arbitrary: p)
  case (Cons x xs)
  then have "p < length c" "c ! p = x" "drop (Suc p) c = xs @ r" using drop_Cons_nth [of p c x "xs @ r"] by auto
  with Cons show ?case by (simp add: scan_string.simps [of c p k])
qed simp

lemma scan_escape:
  assumes "drop p c = 0x5C # x # r"
  shows "scan_string c p k = scan_string c (p + 2) (k + 1)"
proof -
  from drop_Cons_nth [OF assms] have 1: "p < length c" "c ! p = 0x5C" "drop (Suc p) c = x # r" by auto
  from drop_Cons_nth [OF 1(3)] have "Suc p < length c" by simp
  with 1 show ?thesis by (simp add: scan_string.simps [of c p k])
qed

lemma scan_quoted:
  "drop p c = concat (map escape_byte s) @ 0x22 # r \<Longrightarrow>
   scan_string c p k = Some (p + length (concat (map escape_byte s)), k + length (filter escaped s))"
proof (induction s arbitrary: p k)
  case Nil
  then have "p < length c" "c ! p = 0x22" using drop_Cons_nth [of p c "0x22" r] by auto
  then show ?case by (simp add: scan_string.simps [of c p k])
next
  case (Cons b s)
  let ?r = "concat (map escape_byte s) @ 0x22 # r"
  have d: "drop p c = escape_byte b @ ?r" using Cons.prems by simp
  then have d': "drop (p + length (escape_byte b)) c = ?r" by (rule drop_past)
  show ?case
  proof (cases rule: escape_byte_cases [of b])
    case plain
    then show ?thesis using scan_plain [of p c "[b]" ?r k] Cons.IH [of "p + 1" k] d d' by simp
  next
    case (simple x)
    then show ?thesis using scan_escape [of p c x ?r k] Cons.IH [of "p + 2" "k + 1"] d d' by simp
  next
    case code
    let ?h = "hex_nibble (drop_bit 4 b)" and ?l = "hex_nibble (b AND 0x0F)"
    have "drop (p + 2) c = [0x30, 0x30, ?h, ?l] @ ?r" using drop_past [of p c "[0x5C, 0x75]"] d code by simp
    then have "scan_string c (p + 2) (k + 1) = scan_string c (p + 6) (k + 1)"
      using scan_plain [of "p + 2" c "[0x30, 0x30, ?h, ?l]" ?r "k + 1"] nibble_digit [OF nibble_bounds(1) [of b]] nibble_digit [OF nibble_bounds(2) [of b]]
      by (simp add: six [of p])
    then show ?thesis using scan_escape [of p c "0x75" "[0x30, 0x30, ?h, ?l] @ ?r" k] Cons.IH [of "p + 6" "k + 1"] d d' code by (simp add: six [of p])
  qed
qed

lemma unescape_quoted:
  "drop p c = concat (map escape_byte s) @ 0x22 # r \<Longrightarrow> length out + length s \<le> cap \<Longrightarrow>
   unescape c p (p + length (concat (map escape_byte s))) cap out = Some (Some (out @ s))"
proof (induction s arbitrary: p out)
  case Nil
  then show ?case by (simp add: unescape.simps [of c p p])
next
  case (Cons b s)
  let ?r = "concat (map escape_byte s) @ 0x22 # r" and ?e = "p + length (concat (map escape_byte (b # s)))"
  have d: "drop p c = escape_byte b @ ?r" using Cons.prems by simp
  have IH: "unescape c (p + length (escape_byte b)) ?e cap (out @ [b]) = Some (Some ((out @ [b]) @ s))"
    using Cons.IH [OF drop_past [OF d], of "out @ [b]"] Cons.prems(2) by (simp add: add.assoc)
  note n = drop_nth [OF d]
  show ?case
  proof (cases rule: escape_byte_cases [of b])
    case plain
    then show ?thesis using n [of 0] IH Cons.prems(2) by (subst unescape.simps) simp
  next
    case (simple x)
    then have "p < length c" "c ! p = 0x5C" "Suc p < length c" "c ! Suc p = x" using n [of 0] n [of 1] by simp_all
    then show ?thesis using simple IH Cons.prems(2) by (subst unescape.simps) simp
  next
    case code
    then have c: "p < length c" "c ! p = 0x5C" "Suc p < length c" "c ! Suc p = 0x75" using n [of 0] n [of 1] by simp_all
    have "utf16_literal_to_utf8 c p ?e = Some (Some ([b], 6))" using unescape_code [of p c b ?r ?e] d code by simp
    then show ?thesis using code c IH Cons.prems(2) by (subst unescape.simps) (simp add: six [of p])
  qed
qed

lemma escaped_length: "length s + length (filter escaped s) \<le> length (concat (map escape_byte s))"
proof (induction s)
  case (Cons b s)
  then show ?case by (cases rule: escape_byte_cases [of b]) simp_all
qed simp

section \<open>Values\<close>

text \<open>All allocations succeed.\<close>

abbreviation always :: "nat \<Rightarrow> bool" where "always \<equiv> (\<lambda>_. True)"

definition stepped :: "parse_buffer \<Rightarrow> nat \<Rightarrow> parse_buffer \<Rightarrow> bool" where
  "stepped b n b' = (pb_content b' = pb_content b \<and> pb_depth b' = pb_depth b \<and> pb_offset b' = pb_offset b + n)"

definition unread :: "parse_buffer \<Rightarrow> bytes" where
  "unread b = drop (pb_offset b) (pb_content b)"

lemma stepped_rest: "unread b = xs @ r \<Longrightarrow> stepped b (length xs) b' \<Longrightarrow> unread b' = r"
  by (simp add: unread_def stepped_def drop_past)

lemma rest_access: "unread b = x # r \<Longrightarrow> can_access_at_index b 0 \<and> buffer_at b 0 = Some x"
  using drop_Cons_nth [of "pb_offset b" "pb_content b" x r] by (simp add: unread_def can_access_at_index_def buffer_at_def)

lemma next_is_rest: "unread b = x # r \<Longrightarrow> next_is b y = (x = y)"
  using rest_access [of b x r] by (simp add: next_is_def)

lemma skip_none: "unread b = x # r \<Longrightarrow> 32 < x \<Longrightarrow> buffer_skip_whitespace b = b"
  using drop_Cons_nth [of "pb_offset b" "pb_content b" x r] by (auto simp: unread_def buffer_skip_whitespace_def)

lemma stepped_refl: "stepped b 0 b" and stepped_trans: "stepped b m b' \<Longrightarrow> stepped b' n b'' \<Longrightarrow> stepped b (m + n) b''"
  and stepped_advance: "stepped b n (advance n b)"
  by (simp_all add: stepped_def advance_def)

lemma rest_advance: "unread b = y # r \<Longrightarrow> unread (advance 1 b) = r"
  by (rule stepped_rest [of b "[y]"]) (simp_all add: stepped_def advance_def)

lemma parse_string_quoted:
  assumes r: "unread b = quoted s @ post" and s: "0 \<notin> set s"
  shows "\<exists>b'. parse_string always b = Some (Some s, b') \<and> stepped b (length (quoted s)) b'"
proof -
  let ?c = "pb_content b" and ?p = "pb_offset b + 1" and ?e = "concat (map escape_byte s)"
  have q: "quoted s = 0x22 # ?e @ [0x22]" using s by (simp add: quoted_def cstr_id)
  then have d: "drop ?p ?c = ?e @ 0x22 # post" and x: "buffer_at b 0 = Some 0x22"
    using r drop_Cons_nth [of "pb_offset b" ?c "0x22"] rest_access [of b "0x22"] by (auto simp: unread_def)
  have "length s \<le> ?p + length ?e - pb_offset b - length (filter escaped s) + 1" using escaped_length [of s] by simp
  from unescape_quoted [OF d, of "[]", simplified, OF this]
  show ?thesis using x scan_quoted [OF d, of 0] escaped_length [of s] q
    by (simp add: parse_string_def allocate_def stepped_def)
qed

fun readable :: "cJSON \<Rightarrow> bool" where
  "readable (cJSON_Number d i) = (d = Fin (of_int i) \<and> INT_MIN \<le> i \<and> i \<le> INT_MAX)"
| "readable (cJSON_String s) = (0 \<notin> set s)"
| "readable (cJSON_Array xs) = (\<forall>x \<in> set xs. readable x)"
| "readable (cJSON_Object ms) = (\<forall>m \<in> set ms. 0 \<notin> set (fst m) \<and> readable (snd m))"
| "readable _ = True"

definition value_end :: "bytes \<Rightarrow> bool" where
  "value_end post = (post = [] \<or> hd post \<in> {0x2C, 0x5D, 0x7D})"

lemma number_text_int: "number_text (Fin (of_int i)) i = dec_text i"
  by (simp add: number_text_def)

lemma dec_text_chars: "b \<in> set (dec_text i) \<Longrightarrow> number_char b"
  using nat_digits_digits [of "nat i"] nat_digits_digits [of "nat (- i)"] by (auto simp: dec_text_def number_char_def split: if_splits)

lemma tail_number: "value_end post \<Longrightarrow> takeWhile number_char (dec_text i @ post) = dec_text i"
proof -
  assume "value_end post"
  then have "takeWhile number_char post = []" by (cases post) (auto simp: value_end_def number_char_def is_digit_def)
  then show ?thesis using dec_text_chars by (simp add: takeWhile_append2)
qed

lemma parse_number_text:
  assumes "unread b = dec_text i @ post" and "value_end post" and "INT_MIN \<le> i" "i \<le> INT_MAX"
  shows "\<exists>b'. parse_number always b = (Some (cJSON_Number (Fin (of_int i)) i), b') \<and> stepped b (length (dec_text i)) b'"
proof -
  have "\<bar>i\<bar> < 2 ^ 53" using assms(3,4) by (auto simp: INT_MIN_def INT_MAX_def)
  moreover have "dec_text i \<noteq> []" by (simp add: dec_text_def nat_digits.simps)
  ultimately show ?thesis
    using assms tail_number [of post i] strtod_dec_text [of i] valueint_of_int [of i]
    by (simp add: parse_number_def unread_def allocate_def stepped_def)
qed

lemma dec_text_first: "\<exists>x t. dec_text i = x # t \<and> (x = 0x2D \<or> is_digit x)"
  using nat_digits_digits [of "nat i"] by (cases "nat_digits (nat i)") (auto simp: dec_text_def)

lemma json_text_first: "readable v \<Longrightarrow> \<exists>x t. json_text v = x # t \<and> 32 < x \<and> x \<noteq> 0x5D \<and> x \<noteq> 0xEF"
proof (cases v)
  case (cJSON_Number d i)
  moreover have "32 < x \<and> x \<noteq> 0x5D \<and> x \<noteq> 0xEF" if "is_digit x" for x
    using that by (auto simp: is_digit_def word_le_nat_alt word_less_nat_alt)
  moreover assume "readable v"
  ultimately show ?thesis using dec_text_first [of i] by (auto simp: number_text_int)
qed (simp_all add: ascii_null quoted_def)

type_synonym value_parser = "parse_buffer \<Rightarrow> (cJSON option \<times> parse_buffer) option"

definition reads :: "value_parser \<Rightarrow> cJSON \<Rightarrow> bool" where
  "reads pv v = (\<forall>b post. unread b = json_text v @ post \<longrightarrow> value_end post \<longrightarrow> depth_ok (pb_depth b) v \<longrightarrow>
     (\<exists>b'. pv b = Some (Some v, b') \<and> stepped b (length (json_text v)) b'))"

lemma tail_next: "value_end (x # r) \<Longrightarrow> 32 < x"
  by (auto simp: value_end_def)

text \<open>An element after its bracket or comma.\<close>

lemma reads_element:
  assumes "reads pv x" and "readable x" and "depth_ok (pb_depth b) x" and "unread b = y # json_text x @ post" and "value_end post" and "post \<noteq> []"
  shows "\<exists>b'. pv (buffer_skip_whitespace (advance 1 b)) = Some (Some x, b') \<and> buffer_skip_whitespace b' = b' \<and>
    stepped b (1 + length (json_text x)) b' \<and> unread b' = post"
proof -
  have r: "unread (advance 1 b) = json_text x @ post" by (rule rest_advance [OF assms(4)])
  moreover obtain z t where "json_text x = z # t" "32 < z" using json_text_first [OF assms(2)] by blast
  ultimately have k: "buffer_skip_whitespace (advance 1 b) = advance 1 b" using skip_none by simp
  moreover have "depth_ok (pb_depth (advance 1 b)) x" using assms(3) by (simp add: advance_def)
  ultimately obtain b' where b': "pv (advance 1 b) = Some (Some x, b')" "stepped (advance 1 b) (length (json_text x)) b'"
    using assms(1,5) r unfolding reads_def by blast
  have "unread b' = post" using stepped_rest [OF r b'(2)] .
  moreover obtain p q where "post = p # q" "32 < p" using assms(5,6) tail_next by (cases post) auto
  ultimately have "buffer_skip_whitespace b' = b'" using skip_none by simp
  then show ?thesis using k b' \<open>unread b' = post\<close> stepped_trans [OF stepped_advance b'(2)] by simp
qed

lemma array_loop_text:
  assumes "\<forall>x \<in> set xs. reads pv x \<and> readable x \<and> depth_ok (pb_depth b) x" and "xs \<noteq> []" and "length xs \<le> n"
    and "unread b = y # comma_sep (map json_text xs) @ 0x5D # post"
  shows "\<exists>b'. array_loop n pv always b items = Some (Some (items @ xs), b') \<and> stepped b (1 + length (comma_sep (map json_text xs))) b'"
  using assms
proof (induction xs arbitrary: n b items y)
  case (Cons x xs)
  then obtain m where n: "n = Suc m" by (cases n) auto
  let ?b = "b \<lparr> pb_allocs := Suc (pb_allocs b) \<rparr>"
  let ?post = "(if xs = [] then [] else 0x2C # comma_sep (map json_text xs)) @ 0x5D # post"
  have r: "unread ?b = y # json_text x @ ?post" using Cons.prems(4) by (simp add: unread_def comma_sep_Cons)
  have t: "value_end ?post" "?post \<noteq> []" by (auto simp: value_end_def)
  obtain b' where b': "pv (buffer_skip_whitespace (advance 1 ?b)) = Some (Some x, b')" "buffer_skip_whitespace b' = b'"
      "stepped ?b (1 + length (json_text x)) b'" "unread b' = ?post"
    using reads_element [OF _ _ _ r t, of pv] Cons.prems(1) by auto
  have st: "stepped b (1 + length (json_text x)) b'" using b'(3) by (simp add: stepped_def)
  show ?case
  proof (cases "xs = []")
    case True
    then have "\<not> next_is b' 0x2C" using next_is_rest [of b' "0x5D"] b'(4) by simp
    then show ?thesis using True n b' st by (simp add: allocate_def)
  next
    case False
    then have nx: "next_is b' 0x2C" using next_is_rest [of b' "0x2C"] b'(4) by simp
    have "unread b' = 0x2C # comma_sep (map json_text xs) @ 0x5D # post" using b'(4) False by simp
    moreover have "pb_depth b' = pb_depth b" using st by (simp add: stepped_def)
    ultimately obtain b2 where b2: "array_loop m pv always b' (items @ [x]) = Some (Some ((items @ [x]) @ xs), b2)"
        "stepped b' (1 + length (comma_sep (map json_text xs))) b2"
      using Cons.IH [of b' m "0x2C" "items @ [x]"] Cons.prems(1,3) False n by auto
    then show ?thesis using n b' nx stepped_trans [OF st b2(2)] False by (simp add: allocate_def comma_sep_Cons ac_simps)
  qed
qed simp

lemma object_loop_text:
  assumes "\<forall>m \<in> set ms. reads pv (snd m) \<and> 0 \<notin> set (fst m) \<and> readable (snd m) \<and> depth_ok (pb_depth b) (snd m)" and "ms \<noteq> []"
    and "length ms \<le> n" and "unread b = y # comma_sep (map member_text ms) @ 0x7D # post"
  shows "\<exists>b'. object_loop n pv always b items = Some (Some (items @ ms), b') \<and> stepped b (1 + length (comma_sep (map member_text ms))) b'"
  using assms
proof (induction ms arbitrary: n b items y)
  case (Cons m ms)
  obtain k v where m: "m = (k, v)" by (cases m)
  from Cons.prems(3) obtain j where n: "n = Suc j" by (cases n) auto
  let ?b = "b \<lparr> pb_allocs := Suc (pb_allocs b) \<rparr>"
  let ?post = "(if ms = [] then [] else 0x2C # comma_sep (map member_text ms)) @ 0x7D # post"
  have r: "unread ?b = y # quoted k @ 0x3A # json_text v @ ?post" using Cons.prems(4) m by (simp add: unread_def comma_sep_Cons)
  have t: "value_end ?post" "?post \<noteq> []" by (auto simp: value_end_def)
  have a: "unread (advance 1 ?b) = quoted k @ 0x3A # json_text v @ ?post" by (rule rest_advance [OF r])
  then have acc: "can_access_at_index ?b 1" using rest_access [of "advance 1 ?b" "0x22"] by (simp add: quoted_def can_access_at_index_def advance_def)
  have sk: "buffer_skip_whitespace (advance 1 ?b) = advance 1 ?b" using skip_none [of "advance 1 ?b" "0x22"] a by (simp add: quoted_def)
  obtain b1 where b1: "parse_string always (advance 1 ?b) = Some (Some k, b1)" "stepped (advance 1 ?b) (length (quoted k)) b1"
    using parse_string_quoted [OF a] Cons.prems(1) m by auto
  have r1: "unread b1 = 0x3A # json_text v @ ?post" using stepped_rest [OF a b1(2)] .
  have s1: "stepped b (1 + length (quoted k)) b1" using stepped_trans [OF stepped_advance b1(2)] by (simp add: stepped_def)
  have n1: "buffer_skip_whitespace b1 = b1" "next_is b1 0x3A" using skip_none [OF r1] next_is_rest [OF r1] by simp_all
  obtain b' where b': "pv (buffer_skip_whitespace (advance 1 b1)) = Some (Some v, b')" "buffer_skip_whitespace b' = b'"
      "stepped b1 (1 + length (json_text v)) b'" "unread b' = ?post"
    using reads_element [OF _ _ _ r1 t, of pv] Cons.prems(1) m s1 by (auto simp: stepped_def)
  have st: "stepped b (1 + length (member_text m)) b'" using stepped_trans [OF s1 b'(3)] m by (simp add: ac_simps)
  note step = n acc sk b1(1) n1 b'(1,2) m
  show ?case
  proof (cases "ms = []")
    case True
    then have "\<not> next_is b' 0x2C" using next_is_rest [of b' "0x7D"] b'(4) by simp
    then show ?thesis using True step st by (simp add: allocate_def)
  next
    case False
    then have nx: "next_is b' 0x2C" using next_is_rest [of b' "0x2C"] b'(4) by simp
    have "unread b' = 0x2C # comma_sep (map member_text ms) @ 0x7D # post" using b'(4) False by simp
    moreover have "pb_depth b' = pb_depth b" using st by (simp add: stepped_def)
    ultimately obtain b2 where b2: "object_loop j pv always b' (items @ [m]) = Some (Some ((items @ [m]) @ ms), b2)"
        "stepped b' (1 + length (comma_sep (map member_text ms))) b2"
      using Cons.IH [of b' j "0x2C" "items @ [m]"] Cons.prems(1,3) False n by auto
    then show ?thesis using step nx stepped_trans [OF st b2(2)] False by (simp add: allocate_def comma_sep_Cons ac_simps)
  qed
qed simp

lemma brackets_text:
  assumes "pb_depth b < CJSON_NESTING_LIMIT" and r: "unread b = x # t @ y # post" and e: "items = [] \<Longrightarrow> t = []" and "32 < y"
    and f: "items \<noteq> [] \<Longrightarrow> t \<noteq> [] \<and> 32 < hd t \<and> hd t \<noteq> y"
    and loop: "items \<noteq> [] \<Longrightarrow> \<exists>b'. loop (b \<lparr> pb_depth := pb_depth b + 1 \<rparr>) = Some (Some items, b') \<and>
      stepped (b \<lparr> pb_depth := pb_depth b + 1 \<rparr>) (1 + length t) b'"
  shows "\<exists>b'. parse_brackets x y loop mk b = Some (Some (mk items), b') \<and> stepped b (length t + 2) b'"
proof -
  let ?b = "b \<lparr> pb_depth := pb_depth b + 1 \<rparr>"
  have rb: "unread ?b = x # t @ y # post" using r by (simp add: unread_def)
  have ra: "unread (advance 1 ?b) = t @ y # post" by (rule rest_advance [OF rb])
  have x: "buffer_at ?b 0 = Some x" using rest_access [OF rb] by simp
  show ?thesis
  proof (cases "items = []")
    case True
    then have ry: "unread (advance 1 ?b) = y # post" using e ra by simp
    have "buffer_skip_whitespace (advance 1 ?b) = advance 1 ?b" "next_is (advance 1 ?b) y"
      using skip_none [OF ry assms(4)] next_is_rest [OF ry] by simp_all
    then show ?thesis using True e assms(1) x by (simp add: parse_brackets_def stepped_def advance_def)
  next
    case False
    then obtain z u where t: "t = z # u" "32 < z" "z \<noteq> y" using f by (cases t) auto
    then have rz: "unread (advance 1 ?b) = z # u @ y # post" using ra by simp
    obtain b' where b': "loop ?b = Some (Some items, b')" "stepped ?b (1 + length t) b'" using loop [OF False] by blast
    have "unread b' = y # post" using stepped_rest [of ?b "x # t" "y # post" b'] rb b'(2) by simp
    from next_is_rest [OF this] have n: "next_is b' y" by simp
    have bk: "(advance 1 ?b) \<lparr> pb_offset := pb_offset (advance 1 ?b) - 1 \<rparr> = ?b" by (simp add: advance_def)
    have "\<not> next_is (advance 1 ?b) y" "can_access_at_index (advance 1 ?b) 0" using next_is_rest [OF rz] rest_access [OF rz] t(3) by simp_all
    then have "parse_brackets x y loop mk b = Some (Some (mk items), (advance 1 b') \<lparr> pb_depth := pb_depth b' - 1 \<rparr>)"
      unfolding parse_brackets_def Let_def x skip_none [OF rz t(2)] bk b'(1) using assms(1) n by (simp add: Option.bind_lunit)
    then show ?thesis using b'(2) by (simp add: stepped_def advance_def)
  qed
qed

lemma comma_sep_first: "t \<noteq> [] \<Longrightarrow> comma_sep (t # ts) \<noteq> [] \<and> hd (comma_sep (t # ts)) = hd t"
  by (simp add: comma_sep_Cons)

lemma comma_sep_count: "\<forall>t \<in> set ts. t \<noteq> [] \<Longrightarrow> length ts \<le> length (comma_sep ts)"
proof (induction ts)
  case (Cons s ts)
  then have "1 \<le> length s" by (cases s) auto
  with Cons show ?case by (cases "ts = []") (auto simp: comma_sep_Cons)
qed simp

lemma comma_sep_length: "t \<in> set ts \<Longrightarrow> length t \<le> length (comma_sep ts)"
  by (induction ts) (auto simp: comma_sep_Cons split: if_splits)

lemma reads_literal_rest: "unread b = lit @ r \<Longrightarrow> lit \<noteq> [] \<Longrightarrow> reads_literal b lit"
proof -
  assume r: "unread b = lit @ r" and "lit \<noteq> []"
  then have "length lit \<le> length (pb_content b) - pb_offset b" unfolding unread_def by (metis length_append length_drop le_add1)
  moreover have "0 < length lit" using \<open>lit \<noteq> []\<close> by simp
  ultimately have "pb_offset b + length lit \<le> length (pb_content b)" by linarith
  then show ?thesis using r by (simp add: reads_literal_def unread_def)
qed

lemma reads_literal_other: "unread b = x # r \<Longrightarrow> l \<noteq> x \<Longrightarrow> \<not> reads_literal b (l # ls)"
  by (simp add: reads_literal_def unread_def)

lemma parse_value_other:
  assumes "unread b = x # r" and "x \<notin> {0x6E, 0x66, 0x74}"
  shows "parse_value (Suc k) al b =
    (if x = 0x22 then do { (s, b) \<leftarrow> parse_string al b; Some (map_option cJSON_String s, b) }
     else if x = 0x2D \<or> is_digit x then Some (parse_number al b)
     else if x = 0x5B then parse_array (Suc k) (parse_value k al) al b
     else if x = 0x7B then parse_object (Suc k) (parse_value k al) al b
     else Some (None, b))"
  using reads_literal_other [OF assms(1)] rest_access [OF assms(1)] assms(2) by (simp add: ascii_null)

lemma parse_value_literals:
  "unread b = ascii ''null'' @ post \<Longrightarrow> parse_value (Suc k) al b = Some (Some cJSON_NULL, advance 4 b)"
  "unread b = ascii ''false'' @ post \<Longrightarrow> parse_value (Suc k) al b = Some (Some cJSON_False, advance 5 b)"
  "unread b = ascii ''true'' @ post \<Longrightarrow> parse_value (Suc k) al b = Some (Some cJSON_True, advance 4 b)"
proof -
  show "parse_value (Suc k) al b = Some (Some cJSON_NULL, advance 4 b)" if "unread b = ascii ''null'' @ post"
    using reads_literal_rest [OF that] by (simp add: ascii_null)
  show "parse_value (Suc k) al b = Some (Some cJSON_False, advance 5 b)" if "unread b = ascii ''false'' @ post"
    using reads_literal_rest [OF that] reads_literal_other [of b "0x66" _ "0x6E"] that by (simp add: ascii_null)
  show "parse_value (Suc k) al b = Some (Some cJSON_True, advance 4 b)" if "unread b = ascii ''true'' @ post"
    using reads_literal_rest [OF that] reads_literal_other [of b "0x74" _ "0x6E"] reads_literal_other [of b "0x74" _ "0x66"] that
    by (simp add: ascii_null)
qed

lemma reads_array:
  assumes xs: "\<forall>x \<in> set xs. readable x \<and> reads (parse_value k always) x" and k: "length (comma_sep (map json_text xs)) < k"
  shows "reads (parse_value (Suc k) always) (cJSON_Array xs)"
  unfolding reads_def
proof (intro allI impI)
  fix b post
  assume r: "unread b = json_text (cJSON_Array xs) @ post" and d: "depth_ok (pb_depth b) (cJSON_Array xs)"
  let ?t = "comma_sep (map json_text xs)" and ?b = "b \<lparr> pb_depth := pb_depth b + 1 \<rparr>"
  have r': "unread b = 0x5B # ?t @ 0x5D # post" using r by simp
  have ne: "\<forall>t \<in> set (map json_text xs). t \<noteq> []" using xs json_text_first by fastforce
  have f: "?t \<noteq> [] \<and> 32 < hd ?t \<and> hd ?t \<noteq> 0x5D" if i: "xs \<noteq> []"
  proof -
    obtain y ys where y: "xs = y # ys" using i by (cases xs) auto
    then obtain z u where "json_text y = z # u" "32 < z" "z \<noteq> 0x5D" using xs json_text_first [of y] by auto
    then show ?thesis using y by (simp add: comma_sep_Cons)
  qed
  have "\<exists>b'. array_loop (Suc k) (parse_value k always) always ?b [] = Some (Some ([] @ xs), b') \<and> stepped ?b (1 + length ?t) b'" if "xs \<noteq> []"
    using xs d that comma_sep_count [OF ne] k r' by (intro array_loop_text [where y = "0x5B" and post = post]) (simp_all add: unread_def)
  then have "\<exists>b'. parse_brackets 0x5B 0x5D (\<lambda>b. array_loop (Suc k) (parse_value k always) always b []) cJSON_Array b = Some (Some (cJSON_Array xs), b') \<and>
      stepped b (length ?t + 2) b'"
    using d f by (intro brackets_text [OF _ r']) simp_all
  then show "\<exists>b'. parse_value (Suc k) always b = Some (Some (cJSON_Array xs), b') \<and> stepped b (length (json_text (cJSON_Array xs))) b'"
    using parse_value_other [OF r', of k always] by (simp add: parse_array_def is_digit_def)
qed

lemma reads_object:
  assumes ms: "\<forall>m \<in> set ms. 0 \<notin> set (fst m) \<and> readable (snd m) \<and> reads (parse_value k always) (snd m)"
    and k: "length (comma_sep (map member_text ms)) < k"
  shows "reads (parse_value (Suc k) always) (cJSON_Object ms)"
  unfolding reads_def
proof (intro allI impI)
  fix b post
  assume r: "unread b = json_text (cJSON_Object ms) @ post" and d: "depth_ok (pb_depth b) (cJSON_Object ms)"
  let ?t = "comma_sep (map member_text ms)" and ?b = "b \<lparr> pb_depth := pb_depth b + 1 \<rparr>"
  have r': "unread b = 0x7B # ?t @ 0x7D # post" using r unfolding json_text_Object by simp
  have ne: "\<forall>t \<in> set (map member_text ms). t \<noteq> []" by (auto simp: member_text_def quoted_def split: prod.split)
  have f: "?t \<noteq> [] \<and> 32 < hd ?t \<and> hd ?t \<noteq> 0x7D" if i: "ms \<noteq> []"
    using i by (cases ms) (auto simp: comma_sep_Cons member_text_def quoted_def split: prod.split)
  have "\<exists>b'. object_loop (Suc k) (parse_value k always) always ?b [] = Some (Some ([] @ ms), b') \<and> stepped ?b (1 + length ?t) b'" if "ms \<noteq> []"
    using ms d that comma_sep_count [OF ne] k r' by (intro object_loop_text [where y = "0x7B" and post = post]) (simp_all add: unread_def)
  then have "\<exists>b'. parse_brackets 0x7B 0x7D (\<lambda>b. object_loop (Suc k) (parse_value k always) always b []) cJSON_Object b = Some (Some (cJSON_Object ms), b') \<and>
      stepped b (length ?t + 2) b'"
    using d f by (intro brackets_text [OF _ r']) simp_all
  then show "\<exists>b'. parse_value (Suc k) always b = Some (Some (cJSON_Object ms), b') \<and> stepped b (length (json_text (cJSON_Object ms))) b'"
    using parse_value_other [OF r', of k always] rest_access [OF r'] unfolding json_text_Object by (simp add: parse_object_def is_digit_def)
qed

lemma parse_value_reads: "readable v \<Longrightarrow> length (json_text v) < k \<Longrightarrow> reads (parse_value k always) v"
proof (induction v arbitrary: k rule: json_text.induct)
  case 1
  then show ?case by (cases k) (auto simp: reads_def parse_value_literals ascii_null stepped_def advance_def simp del: parse_value.simps)
next
  case 2
  then show ?case by (cases k) (auto simp: reads_def parse_value_literals ascii_null stepped_def advance_def simp del: parse_value.simps)
next
  case 3
  then show ?case by (cases k) (auto simp: reads_def parse_value_literals ascii_null stepped_def advance_def simp del: parse_value.simps)
next
  case (4 d i)
  then obtain j where k: "k = Suc j" by (cases k) auto
  from 4 have d: "d = Fin (of_int i)" "INT_MIN \<le> i" "i \<le> INT_MAX" by simp_all
  obtain x t where t: "dec_text i = x # t" "x = 0x2D \<or> is_digit x" using dec_text_first [of i] by blast
  then have x: "x \<notin> {0x6E, 0x66, 0x74}" "x \<noteq> 0x22" by (auto simp: is_digit_def)
  show ?case unfolding reads_def
  proof (intro allI impI)
    fix b post
    assume r: "unread b = json_text (cJSON_Number d i) @ post" and p: "value_end post"
    then have "unread b = dec_text i @ post" by (simp add: d number_text_int)
    with parse_number_text [OF this p d(2,3)] show "\<exists>b'. parse_value k always b = Some (Some (cJSON_Number d i), b') \<and>
        stepped b (length (json_text (cJSON_Number d i))) b'"
      using parse_value_other [OF _ x(1), of b "t @ post" j always] x(2) t k by (simp add: d number_text_int del: parse_value.simps)
  qed
next
  case (5 s)
  then obtain j where k: "k = Suc j" by (cases k) auto
  show ?case unfolding reads_def
  proof (intro allI impI)
    fix b post
    assume "unread b = json_text (cJSON_String s) @ post"
    then have r: "unread b = quoted s @ post" by simp
    then have "unread b = 0x22 # (concat (map escape_byte (cstr s)) @ [0x22]) @ post" by (simp add: quoted_def)
    from parse_value_other [OF this] parse_string_quoted [OF r]
    show "\<exists>b'. parse_value k always b = Some (Some (cJSON_String s), b') \<and> stepped b (length (json_text (cJSON_String s))) b'"
      using 5 k by (auto simp del: parse_value.simps)
  qed
next
  case (6 xs)
  then obtain j where k: "k = Suc j" by (cases k) auto
  have "reads (parse_value j always) x" if "x \<in> set xs" for x
    using 6 that k comma_sep_length [of "json_text x" "map json_text xs"] by simp
  then show ?case unfolding k using 6 k by (intro reads_array) simp_all
next
  case (7 ms)
  then obtain j where k: "k = Suc j" by (cases k) auto
  have l: "length (comma_sep (map member_text ms)) < j" using 7(3) k unfolding json_text_Object by simp
  have "reads (parse_value j always) v" if "(n, v) \<in> set ms" for n v
    using 7 that l comma_sep_length [of "member_text (n, v)" "map member_text ms"] by force
  then show ?case unfolding k using 7(2) l by (intro reads_object) auto
qed

lemma parse_json_text:
  assumes "readable v" and "depth_ok 0 v" and "value_end post"
  shows "cJSON_ParseWithLength always (json_text v @ post) = Some (Some v)"
proof -
  let ?c = "json_text v @ post"
  let ?b = "\<lparr> pb_content = ?c, pb_offset = 0, pb_depth = 0, pb_allocs = 1 \<rparr>"
  obtain x t where x: "json_text v = x # t" "32 < x" "x \<noteq> 0xEF" using json_text_first [OF assms(1)] by blast
  have r: "unread ?b = json_text v @ post" by (simp add: unread_def)
  have "skip_utf8_bom ?b = Some ?b" using x by (simp add: skip_utf8_bom_def)
  moreover have "buffer_skip_whitespace ?b = ?b" using skip_none [of ?b x "t @ post"] r x by simp
  moreover have "reads (parse_value (length ?c + 1) always) v" using parse_value_reads [OF assms(1)] by simp
  then obtain b' where "parse_value (length ?c + 1) always ?b = Some (Some v, b')"
    using r assms(2,3) unfolding reads_def by fastforce
  ultimately show ?thesis using x by (simp add: cJSON_ParseWithLength_def allocate_def del: parse_value.simps)
qed

lemma readable_numbers: "readable v \<Longrightarrow> numbers_ok v"
proof (induction v rule: readable.induct)
  case (1 d i)
  have "is_double (Fin (of_int i))" if "INT_MIN \<le> i" "i \<le> INT_MAX" "i \<noteq> 0"
  proof -
    have "(2 :: real) powr - 1074 \<le> 2 powr 0" by (intro powr_mono) simp_all
    moreover have "1 \<le> \<bar>of_int i :: real\<bar>" using that(3) by linarith
    moreover have "\<bar>of_int i :: real\<bar> < 2 ^ 32" using that(1,2) by (simp add: INT_MIN_def INT_MAX_def)
    moreover have "(2 :: real) ^ 32 < 2 ^ 1024" by (intro power_strict_increasing) simp_all
    ultimately show ?thesis by (simp add: is_double_def)
  qed
  with 1 show ?case by (cases "i = 0") (auto simp: is_double_def)
qed auto

section \<open>The property\<close>

text \<open>
  C34. Printing and parsing are inverse. If \<open>cJSON_PrintPreallocated\<close> succeeds on a value whose
  strings have no zero byte and whose numbers are integers, \<open>cJSON_ParseWithLength\<close> on the C
  string in the buffer, with working allocation, returns the same value: escapes, nesting and
  the order of members included.
\<close>

theorem print_parse_roundtrip:
  assumes "readable v" and "int (length buffer) \<le> INT_MAX" and "cJSON_PrintPreallocated v buffer = Some (True, out)"
  shows "cJSON_ParseWithLength always (cstr out) = Some (Some v)"
proof -
  have "depth_ok 0 v" "out = json_text v @ 0 # drop (length (json_text v) + 1) buffer"
    using print_preallocated [OF readable_numbers [OF assms(1)] assms(2)] assms(3) by auto
  moreover from this have "cstr out = json_text v @ []" using cstr_id(2) [OF json_text_nonzero] by simp
  ultimately show ?thesis using parse_json_text [OF assms(1), of "[]"] by (simp add: value_end_def)
qed

theorem print_parse_roundtrip_witness:
  "\<exists>out. cJSON_PrintPreallocated (cJSON_Object [(ascii ''a'', cJSON_Array [cJSON_True, cJSON_String [0x22, 0x07]])]) (replicate 40 0) = Some (True, out) \<and>
    cJSON_ParseWithLength always (cstr out) = Some (Some (cJSON_Object [(ascii ''a'', cJSON_Array [cJSON_True, cJSON_String [0x22, 0x07]])]))"
proof -
  let ?v = "cJSON_Object [(ascii ''a'', cJSON_Array [cJSON_True, cJSON_String [0x22, 0x07]])]" and ?buf = "replicate 40 (0 :: u8)"
  have "length (json_text ?v) = 23"
    by (simp add: ascii_def quoted_def cstr_def escape_byte_def word_less_nat_alt)
  moreover have r: "readable ?v" "depth_ok 0 ?v" "int (length ?buf) \<le> INT_MAX"
    by (simp_all add: ascii_def CJSON_NESTING_LIMIT_def INT_MAX_def)
  ultimately obtain out where "cJSON_PrintPreallocated ?v ?buf = Some (True, out)"
    using print_preallocated [OF readable_numbers [OF r(1)] r(3)] by auto
  then show ?thesis using print_parse_roundtrip [OF r(1,3)] by blast
qed

end
