(* ===== verification/Cjson_Types.thy ===== *)
theory Cjson_Types
  imports Cjson_Roundtrip
begin

text \<open>
  What every value returned by the parser is like: its numbers are doubles with an integer
  field in the range of \<open>int\<close>, and its nesting is within the limit the printer checks.
\<close>

lemma strtod_double: "is_double (fst (strtod bs))"
  by (auto simp: strtod_def is_double_to_double is_double_def [of "Fin 0"] Let_def split: prod.split)

lemma parse_number_ok: "parse_number al b = (Some v, b') \<Longrightarrow> numbers_ok v"
  using strtod_double [of "takeWhile number_char (drop (pb_offset b) (pb_content b))"] valueint_of_range
  by (auto simp: parse_number_def allocate_def Let_def split: prod.splits if_splits)

definition gives :: "('a \<Rightarrow> bool) \<Rightarrow> (parse_buffer \<Rightarrow> ('a option \<times> parse_buffer) option) \<Rightarrow> bool" where
  "gives P f = (\<forall>b v b'. f b = Some (Some v, b') \<longrightarrow> P v)"

lemma array_loop_gives:
  assumes "gives P pv"
  shows "array_loop n pv al b items = Some (Some xs, b') \<Longrightarrow> \<forall>x \<in> set items. P x \<Longrightarrow> \<forall>x \<in> set xs. P x"
proof (induction n arbitrary: b items)
  case (Suc n)
  let ?b = "b \<lparr> pb_allocs := Suc (pb_allocs b) \<rparr>"
  from Suc.prems(1) obtain x b1 where x: "pv (buffer_skip_whitespace (advance 1 ?b)) = Some (Some x, b1)"
    by (auto simp: allocate_def Let_def split: if_splits bind_splits option.splits)
  then have "P x" using assms by (auto simp: gives_def)
  then have px: "\<forall>y \<in> set (items @ [x]). P y" using Suc.prems(2) by simp
  have "(if next_is (buffer_skip_whitespace b1) 0x2C then array_loop n pv al (buffer_skip_whitespace b1) (items @ [x])
      else Some (Some (items @ [x]), buffer_skip_whitespace b1)) = Some (Some xs, b')"
    using Suc.prems(1) x by (simp add: allocate_def Let_def split: if_splits)
  then show ?case using Suc.IH [OF _ px] px by (auto split: if_splits)
qed simp

lemma object_loop_gives:
  assumes "gives P pv"
  shows "object_loop n pv al b items = Some (Some ms, b') \<Longrightarrow> \<forall>m \<in> set items. P (snd m) \<Longrightarrow> \<forall>m \<in> set ms. P (snd m)"
proof (induction n arbitrary: b items)
  case (Suc n)
  let ?b = "b \<lparr> pb_allocs := Suc (pb_allocs b) \<rparr>"
  from Suc.prems(1) obtain k b1 x b2 where x: "parse_string al (buffer_skip_whitespace (advance 1 ?b)) = Some (Some k, b1)"
      "pv (buffer_skip_whitespace (advance 1 (buffer_skip_whitespace b1))) = Some (Some x, b2)"
    and r: "(if next_is (buffer_skip_whitespace b2) 0x2C then object_loop n pv al (buffer_skip_whitespace b2) (items @ [(k, x)])
      else Some (Some (items @ [(k, x)]), buffer_skip_whitespace b2)) = Some (Some ms, b')"
    by (auto simp: allocate_def Let_def split: if_splits bind_splits option.splits)
  then have "P x" using assms by (auto simp: gives_def)
  then have px: "\<forall>m \<in> set (items @ [(k, x)]). P (snd m)" using Suc.prems(2) by simp
  from r show ?case using Suc.IH [OF _ px] px by (auto split: if_splits)
qed simp

lemma brackets_gives:
  assumes "P (mk [])" and "\<And>b xs b'. loop b = Some (Some xs, b') \<Longrightarrow> P (mk xs)"
  shows "gives P (parse_brackets x y loop mk)"
  unfolding gives_def parse_brackets_def Let_def
  using assms by (auto split: if_splits bind_splits option.splits)

lemma parse_value_gives: "gives numbers_ok (parse_value k al)"
proof (induction k)
  case (Suc k)
  have a: "gives numbers_ok (parse_array (Suc k) (parse_value k al) al)"
    unfolding parse_array_def [abs_def] using array_loop_gives [OF Suc] by (intro brackets_gives) (auto simp del: array_loop.simps)
  have "gives numbers_ok (parse_brackets 0x7B 0x7D (\<lambda>b. object_loop (Suc k) (parse_value k al) al b []) cJSON_Object)"
    using object_loop_gives [OF Suc] by (intro brackets_gives) (auto simp del: object_loop.simps)
  then have o: "gives numbers_ok (parse_object (Suc k) (parse_value k al) al)"
    by (auto simp: gives_def parse_object_def split: if_splits)
  show ?case unfolding gives_def
  proof (intro allI impI)
    fix b v b'
    assume "parse_value (Suc k) al b = Some (Some v, b')"
    then consider "v \<in> {cJSON_NULL, cJSON_False, cJSON_True}" | s where "v = cJSON_String s" | "parse_number al b = (Some v, b')"
      | "parse_array (Suc k) (parse_value k al) al b = Some (Some v, b')" | "parse_object (Suc k) (parse_value k al) al b = Some (Some v, b')"
      by (fastforce split: if_splits option.splits bind_splits)
    then show "numbers_ok v"
    proof cases
      case 4
      then show ?thesis using a unfolding gives_def by blast
    next
      case 5
      then show ?thesis using o unfolding gives_def by blast
    qed (auto dest: parse_number_ok)
  qed
qed (simp add: gives_def)

lemma parsed_numbers: "cJSON_ParseWithLength al value = Some (Some v) \<Longrightarrow> numbers_ok v"
  using parse_value_gives [of "length value + 1" al]
  by (auto simp: cJSON_ParseWithLength_def gives_def Let_def split: if_splits bind_splits option.splits prod.splits simp del: parse_value.simps)

section \<open>The property\<close>

text \<open>
  C35. Whatever the input and the allocations, a value the parser returns is well typed: the
  \<open>valuedouble\<close> of each of its numbers is a double and the \<open>valueint\<close> an \<open>int\<close>, saturated rather
  than overflowing.
\<close>

theorem cJSON_ParseWithLength_typed:
  assumes "cJSON_ParseWithLength al value = Some (Some v)"
  shows "numbers_ok v"
  using assms by (rule parsed_numbers)

theorem cJSON_ParseWithLength_typed_witness:
  "\<exists>v. cJSON_ParseWithLength (\<lambda>_. True) (ascii ''[-7,true]'') = Some (Some v) \<and> numbers_ok v"
proof -
  let ?v = "cJSON_Array [cJSON_Number (Fin (of_int (- 7))) (- 7), cJSON_True]"
  have "number_text (Fin (of_int (- 7))) (- 7) = ascii ''-7''" unfolding number_text_int by (simp add: dec_text_def nat_digits.simps ascii_def)
  then have t: "json_text ?v @ [] = ascii ''[-7,true]''" by (simp add: ascii_def)
  have "cJSON_ParseWithLength always (json_text ?v @ []) = Some (Some ?v)"
    by (rule parse_json_text) (simp_all add: INT_MIN_def INT_MAX_def CJSON_NESTING_LIMIT_def value_end_def)
  then have "cJSON_ParseWithLength always (ascii ''[-7,true]'') = Some (Some ?v)" unfolding t .
  then show ?thesis using cJSON_ParseWithLength_typed by blast
qed

end
