(* ===== verification/Devices.thy ===== *)
theory Devices
  imports Cjson_Number
begin

text \<open>
  The sensors and actuators of the gateway (\<open>gateway/src/task_execute.c\<close>). The answers of
  \<open>open\<close>, \<open>read\<close> and \<open>write\<close> are arguments; \<open>f\<close> is the \<open>%f\<close> conversion of \<open>sscanf\<close>, from the
  text to the float it stores and the text left over. An actuator operation returns the bytes it
  hands to \<open>write\<close>; \<open>None\<close> is undefined behaviour. Fields of the C structs that no code
  reads or writes (identifiers, data and function pointers) are left out.
\<close>

section \<open>The code\<close>

definition AHT30_SENSOR_ID :: int where "AHT30_SENSOR_ID = 1"
definition BH1750_SENSOR_ID :: int where "BH1750_SENSOR_ID = 2"
definition AC_ACTUATOR_ID :: int where "AC_ACTUATOR_ID = 1"
definition LED_ACTUATOR_ID :: int where "LED_ACTUATOR_ID = 2"
definition FAN_ACTUATOR_ID :: int where "FAN_ACTUATOR_ID = 3"

text \<open>A C \<open>float\<close>, as the double it is converted to.\<close>

datatype c_float = NaN | Num double

type_synonym scan_float = "bytes \<Rightarrow> (c_float \<times> bytes) option"

record sensor =
  s_state :: int
  s_last_control_ms :: u64
  s_fd :: int

record actuator =
  ac_state :: int
  ac_setpoint :: double
  ac_fd :: int

record aht30_sensor =
  aht_base :: sensor
  temperature :: c_float
  humidity :: c_float

record bh1750_sensor =
  bh_base :: sensor
  lux :: c_float

record air_condition =
  ac_base :: actuator
  swing :: int
  fan_level :: int

record led_pwm =
  led_base :: actuator
  brightness_percent :: int

record fan =
  fan_base :: actuator
  speed_rpm :: int

text \<open>Opening the device, or failing that the simulation file.\<close>

definition open_device :: "int \<Rightarrow> int \<Rightarrow> int" where
  "open_device fd sim = (if fd < 0 then sim else fd)"

definition init_aht30_sensor :: "int \<Rightarrow> int \<Rightarrow> aht30_sensor \<Rightarrow> int \<times> aht30_sensor" where
  "init_aht30_sensor fd sim dev =
     (let dev = dev \<lparr> aht_base := (aht_base dev) \<lparr> s_fd := open_device fd sim \<rparr> \<rparr> in
      if s_fd (aht_base dev) < 0 then (-1, dev \<lparr> aht_base := (aht_base dev) \<lparr> s_state := 0 \<rparr> \<rparr>)
      else (0, dev \<lparr> aht_base := (aht_base dev) \<lparr> s_state := 1 \<rparr>, temperature := Num (Fin 0), humidity := Num (Fin 0) \<rparr>))"

text \<open>A literal of a \<open>sscanf\<close> format.\<close>

fun scan_literal :: "bytes \<Rightarrow> bytes \<Rightarrow> bytes option" where
  "scan_literal [] bs = Some bs"
| "scan_literal (l # ls) [] = None"
| "scan_literal (l # ls) (b # bs) = (if l = b then scan_literal ls bs else None)"

text \<open>\<open>sscanf(buf, "TEMP=%f,HUMI=%f", ...)\<close> and \<open>sscanf(buf, "LUX=%f", ...)\<close>\<close>

definition scan_aht30 :: "scan_float \<Rightarrow> bytes \<Rightarrow> aht30_sensor \<Rightarrow> aht30_sensor" where
  "scan_aht30 f buf dev =
     (case Option.bind (scan_literal (ascii ''TEMP='') (cstr buf)) f of
        None \<Rightarrow> dev
      | Some (t, rest) \<Rightarrow>
          let dev = dev \<lparr> temperature := t \<rparr> in
          case Option.bind (scan_literal (ascii '',HUMI='') rest) f of
            None \<Rightarrow> dev
          | Some (h, rest) \<Rightarrow> dev \<lparr> humidity := h \<rparr>)"

definition scan_bh1750 :: "scan_float \<Rightarrow> bytes \<Rightarrow> bh1750_sensor \<Rightarrow> bh1750_sensor" where
  "scan_bh1750 f buf dev =
     (case Option.bind (scan_literal (ascii ''LUX='') (cstr buf)) f of
        None \<Rightarrow> dev | Some (l, rest) \<Rightarrow> dev \<lparr> lux := l \<rparr>)"

text \<open>\<open>data\<close> is what \<open>read\<close> delivers, at most the size asked for; \<open>None\<close> is an error.\<close>

definition get_aht30_sensor_data :: "scan_float \<Rightarrow> bytes option \<Rightarrow> u64 \<Rightarrow> aht30_sensor \<Rightarrow> int \<times> aht30_sensor" where
  "get_aht30_sensor_data f data now dev =
     (if s_fd (aht_base dev) < 0 then (-1, dev)
      else case data of
        None \<Rightarrow> (-1, dev)
      | Some bs \<Rightarrow>
          let buf = take 63 bs @ [0]; dev = scan_aht30 f buf dev in
          (0, dev \<lparr> aht_base := (aht_base dev) \<lparr> s_last_control_ms := now \<rparr> \<rparr>))"

definition destroy_aht30_sensor :: "aht30_sensor \<Rightarrow> aht30_sensor" where
  "destroy_aht30_sensor dev =
     (if s_fd (aht_base dev) \<ge> 0 then dev \<lparr> aht_base := (aht_base dev) \<lparr> s_fd := -1, s_state := 0 \<rparr> \<rparr> else dev)"

definition init_bh1750_sensor :: "int \<Rightarrow> int \<Rightarrow> bh1750_sensor \<Rightarrow> int \<times> bh1750_sensor" where
  "init_bh1750_sensor fd sim dev =
     (let dev = dev \<lparr> bh_base := (bh_base dev) \<lparr> s_fd := open_device fd sim \<rparr> \<rparr> in
      if s_fd (bh_base dev) < 0 then (-1, dev)
      else (0, dev \<lparr> bh_base := (bh_base dev) \<lparr> s_state := 1 \<rparr>, lux := Num (Fin 0) \<rparr>))"

definition get_bh1750_sensor_data :: "scan_float \<Rightarrow> bytes option \<Rightarrow> bh1750_sensor \<Rightarrow> int \<times> bh1750_sensor" where
  "get_bh1750_sensor_data f data dev =
     (if s_fd (bh_base dev) < 0 then (-1, dev)
      else case data of
        None \<Rightarrow> (-1, dev)
      | Some bs \<Rightarrow> (0, scan_bh1750 f (take 31 bs @ [0]) dev))"

definition destroy_bh1750_sensor :: "bh1750_sensor \<Rightarrow> bh1750_sensor" where
  "destroy_bh1750_sensor dev =
     (if s_fd (bh_base dev) \<ge> 0 then dev \<lparr> bh_base := (bh_base dev) \<lparr> s_fd := -1, s_state := 0 \<rparr> \<rparr> else dev)"

text \<open>
  \<open>len = snprintf(cmd, cap, ...)\<close> and \<open>write(fd, cmd, len)\<close>: a text that does not fit is cut and
  terminated, but \<open>len\<close> still counts all of it.
\<close>

definition formatted :: "nat \<Rightarrow> bytes \<Rightarrow> bytes option" where
  "formatted cap t = peek 0 (length t) (if length t < cap then t @ replicate (cap - length t) 0 else take (cap - 1) t @ [0])"

text \<open>\<open>%.1f\<close>\<close>

definition f1_text :: "double \<Rightarrow> bytes" where
  "f1_text d =
     (case d of
        Inf neg \<Rightarrow> ascii (if neg then ''-inf'' else ''inf'')
      | Fin x \<Rightarrow> let m = nat (rne (\<bar>x\<bar> * 10)) in
          (if x < 0 then [0x2D] else []) @ nat_digits (m div 10) @ [0x2E] @ nat_digits (m mod 10))"

definition init_ac_actuator :: "int \<Rightarrow> int \<Rightarrow> air_condition \<Rightarrow> int \<times> air_condition" where
  "init_ac_actuator fd sim ac =
     (let ac = ac \<lparr> ac_base := (ac_base ac) \<lparr> ac_fd := open_device fd sim \<rparr> \<rparr> in
      if ac_fd (ac_base ac) < 0 then (-1, ac)
      else (0, ac \<lparr> ac_base := (ac_base ac) \<lparr> ac_state := 0, ac_setpoint := Fin 26 \<rparr>, swing := 1, fan_level := 2 \<rparr>))"

definition ac_command :: "air_condition \<Rightarrow> bytes" where
  "ac_command ac = ascii ''STATE='' @ dec_text (ac_state (ac_base ac)) @ ascii '',TEMP='' @ f1_text (ac_setpoint (ac_base ac)) @
     ascii '',SWING='' @ dec_text (swing ac) @ ascii '',FAN='' @ dec_text (fan_level ac) @ [0x0A]"

definition set_ac_actuator :: "int \<Rightarrow> air_condition \<Rightarrow> (int \<times> bytes option) option" where
  "set_ac_actuator wr ac =
     (if ac_fd (ac_base ac) < 0 then Some (-1, None)
      else do { cmd \<leftarrow> formatted 128 (ac_command ac); Some (if wr < 0 then -1 else 0, Some cmd) })"

definition destroy_ac_actuator :: "air_condition \<Rightarrow> air_condition" where
  "destroy_ac_actuator ac =
     (if ac_fd (ac_base ac) \<ge> 0 then ac \<lparr> ac_base := (ac_base ac) \<lparr> ac_fd := -1, ac_state := 0 \<rparr> \<rparr> else ac)"

definition init_led_actuator :: "int \<Rightarrow> int \<Rightarrow> led_pwm \<Rightarrow> int \<times> led_pwm" where
  "init_led_actuator fd sim led =
     (let led = led \<lparr> led_base := (led_base led) \<lparr> ac_fd := open_device fd sim \<rparr> \<rparr> in
      if ac_fd (led_base led) < 0 then (-1, led)
      else (0, led \<lparr> led_base := (led_base led) \<lparr> ac_state := 1 \<rparr>, brightness_percent := 50 \<rparr>))"

text \<open>The product is computed in \<open>int\<close>; it is a multiple of 100, so the division is exact.\<close>

definition set_led_actuator :: "int \<Rightarrow> led_pwm \<Rightarrow> (int \<times> bytes option) option" where
  "set_led_actuator wr led =
     (if ac_fd (led_base led) < 0 then Some (-1, None)
      else let p = brightness_percent led * 1000000 in
        if p < INT_MIN \<or> p > INT_MAX then None
        else do { val_str \<leftarrow> formatted 32 (dec_text (p div 100) @ [0x0A]); Some (if wr < 0 then -1 else 0, Some val_str) })"

definition destroy_led_actuator :: "led_pwm \<Rightarrow> led_pwm" where
  "destroy_led_actuator led =
     (if ac_fd (led_base led) \<ge> 0 then led \<lparr> led_base := (led_base led) \<lparr> ac_fd := -1 \<rparr> \<rparr> else led)"

definition init_fan_actuator :: "int \<Rightarrow> int \<Rightarrow> fan \<Rightarrow> int \<times> fan" where
  "init_fan_actuator fd sim f =
     (let f = f \<lparr> fan_base := (fan_base f) \<lparr> ac_fd := open_device fd sim \<rparr> \<rparr> in
      if ac_fd (fan_base f) < 0 then (-1, f)
      else (0, f \<lparr> fan_base := (fan_base f) \<lparr> ac_state := 0 \<rparr>, speed_rpm := 0 \<rparr>))"

definition fan_command :: "fan \<Rightarrow> bytes" where
  "fan_command f = ascii ''STATE='' @ dec_text (ac_state (fan_base f)) @ ascii '',RPM='' @ dec_text (speed_rpm f) @ [0x0A]"

definition set_fan_actuator :: "int \<Rightarrow> fan \<Rightarrow> (int \<times> bytes option) option" where
  "set_fan_actuator wr f =
     (if ac_fd (fan_base f) < 0 then Some (-1, None)
      else do { cmd \<leftarrow> formatted 64 (fan_command f); Some (if wr < 0 then -1 else 0, Some cmd) })"

definition destroy_fan_actuator :: "fan \<Rightarrow> fan" where
  "destroy_fan_actuator f =
     (if ac_fd (fan_base f) \<ge> 0 then f \<lparr> fan_base := (fan_base f) \<lparr> ac_fd := -1 \<rparr> \<rparr> else f)"

section \<open>The commands fit\<close>

lemma formatted_fits: "length t < cap \<Longrightarrow> formatted cap t = Some t"
  by (simp add: formatted_def peek_def)

lemma f1_text_int: "f1_text (Fin (of_int v)) = dec_text v @ [0x2E, 0x30]"
proof -
  have "\<bar>of_int v :: real\<bar> * 10 = of_int (\<bar>v\<bar> * 10)" by simp
  then have "nat (rne (\<bar>of_int v :: real\<bar> * 10)) = nat \<bar>v\<bar> * 10" by (simp only: rne_of_int nat_mult_distrib) simp
  moreover have "nat_digits 0 = [0x30]" by (simp add: nat_digits.simps [of 0])
  ultimately show ?thesis by (simp add: f1_text_def dec_text_def)
qed

definition is_int :: "int \<Rightarrow> bool" where
  "is_int i = (INT_MIN \<le> i \<and> i \<le> INT_MAX)"

lemma is_int_text: "is_int i \<Longrightarrow> length (dec_text i) \<le> 11"
  by (simp add: is_int_def dec_text_length)

lemma ac_command_fits:
  assumes "ac_setpoint (ac_base ac) = Fin (of_int v)" and "is_int v" "is_int (ac_state (ac_base ac))" "is_int (swing ac)" "is_int (fan_level ac)"
  shows "formatted 128 (ac_command ac) = Some (ac_command ac)"
  using is_int_text [OF assms(2)] is_int_text [OF assms(3)] is_int_text [OF assms(4)] is_int_text [OF assms(5)]
  by (intro formatted_fits) (simp add: ac_command_def assms(1) f1_text_int)

lemma fan_command_fits:
  assumes "is_int (ac_state (fan_base f))" and "is_int (speed_rpm f)"
  shows "formatted 64 (fan_command f) = Some (fan_command f)"
  using is_int_text [OF assms(1)] is_int_text [OF assms(2)] by (intro formatted_fits) (simp add: fan_command_def)

lemma set_led_actuator_cases:
  assumes "0 \<le> ac_fd (led_base led)"
  shows "set_led_actuator wr led =
    (if \<bar>brightness_percent led\<bar> \<le> 2147
     then Some (if wr < 0 then -1 else 0, Some (dec_text (10000 * brightness_percent led) @ [0x0A])) else None)"
proof -
  have "formatted 32 (dec_text i @ [0x0A]) = Some (dec_text i @ [0x0A])" if "is_int i" for i
    using is_int_text [OF that] by (intro formatted_fits) simp
  moreover have "is_int (10000 * brightness_percent led)" if "\<bar>brightness_percent led\<bar> \<le> 2147"
    using that by (auto simp: is_int_def INT_MIN_def INT_MAX_def)
  ultimately show ?thesis using assms by (auto simp: set_led_actuator_def Let_def INT_MIN_def INT_MAX_def)
qed

section \<open>Properties\<close>

text \<open>
  C39. What the actuators are told. A temperature or speed that came in as an \<open>int\<close> is formatted
  without being cut: \<open>write\<close> gets exactly the command line and no byte behind the local buffer.
\<close>

theorem actuator_commands:
  assumes "is_int state" and "is_int v" and "0 \<le> fd"
    and "ac_base ac = \<lparr> ac_state = state, ac_setpoint = Fin (of_int v), ac_fd = fd \<rparr>" and "is_int (swing ac)" and "is_int (fan_level ac)"
    and "ac_state (fan_base f) = state" and "ac_fd (fan_base f) = fd" and "speed_rpm f = v"
  shows "set_ac_actuator wr ac = Some (if wr < 0 then -1 else 0, Some (ascii ''STATE='' @ dec_text state @ ascii '',TEMP='' @ dec_text v @
      ascii ''.0,SWING='' @ dec_text (swing ac) @ ascii '',FAN='' @ dec_text (fan_level ac) @ [0x0A])) \<and>
    set_fan_actuator wr f = Some (if wr < 0 then -1 else 0, Some (ascii ''STATE='' @ dec_text state @ ascii '',RPM='' @ dec_text v @ [0x0A]))"
proof
  have "formatted 128 (ac_command ac) = Some (ac_command ac)" using assms(1,2,4-6) by (intro ac_command_fits [of _ v]) simp_all
  then show "set_ac_actuator wr ac = Some (if wr < 0 then -1 else 0, Some (ascii ''STATE='' @ dec_text state @ ascii '',TEMP='' @ dec_text v @
      ascii ''.0,SWING='' @ dec_text (swing ac) @ ascii '',FAN='' @ dec_text (fan_level ac) @ [0x0A]))"
    using assms(3,4) by (simp add: set_ac_actuator_def ac_command_def f1_text_int ascii_def)
  show "set_fan_actuator wr f = Some (if wr < 0 then -1 else 0, Some (ascii ''STATE='' @ dec_text state @ ascii '',RPM='' @ dec_text v @ [0x0A]))"
    using fan_command_fits [of f] assms by (simp add: set_fan_actuator_def fan_command_def)
qed

theorem actuator_commands_witness:
  "set_fan_actuator 20 \<lparr> fan_base = \<lparr> ac_state = 1, ac_setpoint = Fin 0, ac_fd = 9 \<rparr>, speed_rpm = 1200 \<rparr> =
    Some (0, Some (ascii ''STATE='' @ dec_text 1 @ ascii '',RPM='' @ dec_text 1200 @ [0x0A]))"
  using actuator_commands [of 1 1200 9 "\<lparr> ac_base = \<lparr> ac_state = 1, ac_setpoint = Fin 1200, ac_fd = 9 \<rparr>, swing = 1, fan_level = 2 \<rparr>"
      "\<lparr> fan_base = \<lparr> ac_state = 1, ac_setpoint = Fin 0, ac_fd = 9 \<rparr>, speed_rpm = 1200 \<rparr>" 20]
  by (simp add: is_int_def INT_MIN_def INT_MAX_def)

text \<open>
  C40. The brightness a client asks for is multiplied in \<open>int\<close> without a check: with the device
  open, the operation is defined exactly for values between -2147 and 2147, and then writes the
  duty cycle.
\<close>

theorem set_led_actuator_range:
  assumes "0 \<le> ac_fd (led_base led)"
  shows "set_led_actuator wr led =
    (if \<bar>brightness_percent led\<bar> \<le> 2147
     then Some (if wr < 0 then -1 else 0, Some (dec_text (10000 * brightness_percent led) @ [0x0A])) else None)"
  using assms by (rule set_led_actuator_cases)

theorem set_led_actuator_range_witness:
  "set_led_actuator 5 \<lparr> led_base = \<lparr> ac_state = 1, ac_setpoint = Fin 0, ac_fd = 3 \<rparr>, brightness_percent = 5000 \<rparr> = None"
  using set_led_actuator_range [of "\<lparr> led_base = \<lparr> ac_state = 1, ac_setpoint = Fin 0, ac_fd = 3 \<rparr>, brightness_percent = 5000 \<rparr>" 5] by simp

end
