(* ===== verification/Payload_Json.thy ===== *)
theory Payload_Json
  imports Cjson_Roundtrip Devices
begin

text \<open>
  The request and response bodies (\<open>gateway/src/payload_json.c\<close>) with the constructors and
  accessors of the JSON library they use. Building threads the number of allocator calls made
  so far; \<open>al n\<close> is the answer to call \<open>n\<close>. The buffers passed in are as long as the capacity
  passed with them, as in all callers. Log lines and freeing are left out.
\<close>

section \<open>The library\<close>

fun find_member :: "bytes \<Rightarrow> (bytes \<times> cJSON) list \<Rightarrow> cJSON option" where
  "find_member name [] = None"
| "find_member name ((k, v) # ms) = (if cstr name = cstr k then Some v else find_member name ms)"

text \<open>The elements of an array have no name, at which the search stops; other items have no children.\<close>

definition get_object_item :: "cJSON option \<Rightarrow> bytes \<Rightarrow> cJSON option" where
  "get_object_item object name = (case object of Some (cJSON_Object ms) \<Rightarrow> find_member name ms | _ \<Rightarrow> None)"

definition cJSON_GetObjectItemCaseSensitive :: "cJSON option \<Rightarrow> string \<Rightarrow> cJSON option" where
  "cJSON_GetObjectItemCaseSensitive object name = get_object_item object (ascii name)"

text \<open>\<open>cJSON_IsString\<close> and \<open>cJSON_IsNumber\<close>, with the field read after the test.\<close>

definition string_value :: "cJSON option \<Rightarrow> bytes option" where
  "string_value item = (case item of Some (cJSON_String s) \<Rightarrow> Some (cstr s) | _ \<Rightarrow> None)"

definition number_value :: "cJSON option \<Rightarrow> int option" where
  "number_value item = (case item of Some (cJSON_Number d i) \<Rightarrow> Some i | _ \<Rightarrow> None)"

definition cJSON_New_Item :: "(nat \<Rightarrow> bool) \<Rightarrow> nat \<Rightarrow> bool \<times> nat" where
  "cJSON_New_Item al n = (al n, n + 1)"

definition cJSON_strdup :: "(nat \<Rightarrow> bool) \<Rightarrow> nat \<Rightarrow> bytes \<Rightarrow> bytes option \<times> nat" where
  "cJSON_strdup al n s = (if al n then Some (cstr s) else None, n + 1)"

definition cJSON_CreateString :: "(nat \<Rightarrow> bool) \<Rightarrow> nat \<Rightarrow> bytes \<Rightarrow> cJSON option \<times> nat" where
  "cJSON_CreateString al n s =
     (let (ok, n) = cJSON_New_Item al n in
      if \<not> ok then (None, n)
      else let (copy, n) = cJSON_strdup al n s in (map_option cJSON_String copy, n))"

text \<open>\<open>(int)num\<close> is undefined for a NaN, for which both comparisons are false.\<close>

definition cJSON_CreateNumber :: "(nat \<Rightarrow> bool) \<Rightarrow> nat \<Rightarrow> c_float \<Rightarrow> (cJSON option \<times> nat) option" where
  "cJSON_CreateNumber al n num =
     (let (ok, n) = cJSON_New_Item al n in
      if \<not> ok then Some (None, n)
      else case num of NaN \<Rightarrow> None | Num d \<Rightarrow> Some (Some (cJSON_Number d (valueint_of d)), n))"

type_synonym members = "(bytes \<times> cJSON) list"

definition add_item_to_array :: "members \<Rightarrow> bytes \<times> cJSON \<Rightarrow> members" where
  "add_item_to_array children item = children @ [item]"

definition add_item_to_object :: "(nat \<Rightarrow> bool) \<Rightarrow> nat \<Rightarrow> members \<Rightarrow> string \<Rightarrow> cJSON option \<Rightarrow> members \<times> nat" where
  "add_item_to_object al n object name item =
     (case item of
        None \<Rightarrow> (object, n)
      | Some v \<Rightarrow>
          let (new_key, n) = cJSON_strdup al n (ascii name) in
          case new_key of None \<Rightarrow> (object, n) | Some k \<Rightarrow> (add_item_to_array object (k, v), n))"

definition cJSON_AddStringToObject :: "(nat \<Rightarrow> bool) \<Rightarrow> string \<Rightarrow> bytes \<Rightarrow> members \<times> nat \<Rightarrow> members \<times> nat" where
  "cJSON_AddStringToObject al name s st =
     (let (item, n) = cJSON_CreateString al (snd st) s in add_item_to_object al n (fst st) name item)"

definition cJSON_AddNumberToObject :: "(nat \<Rightarrow> bool) \<Rightarrow> string \<Rightarrow> c_float \<Rightarrow> members \<times> nat \<Rightarrow> (members \<times> nat) option" where
  "cJSON_AddNumberToObject al name num st = do {
     (item, n) \<leftarrow> cJSON_CreateNumber al (snd st) num;
     Some (add_item_to_object al n (fst st) name item)
   }"

definition cJSON_AddItemToObject :: "(nat \<Rightarrow> bool) \<Rightarrow> string \<Rightarrow> cJSON \<Rightarrow> members \<times> nat \<Rightarrow> members \<times> nat" where
  "cJSON_AddItemToObject al name v st = add_item_to_object al (snd st) (fst st) name (Some v)"

section \<open>Requests\<close>

text \<open>\<open>None\<close> is undefined behaviour, \<open>Some None\<close> the NULL pointer.\<close>

definition parse_payload :: "(nat \<Rightarrow> bool) \<Rightarrow> bytes option \<Rightarrow> nat \<Rightarrow> cJSON option option" where
  "parse_payload al payload len =
     (case payload of
        None \<Rightarrow> Some None
      | Some bs \<Rightarrow> if len = 0 then Some None else do { value \<leftarrow> peek 0 len bs; cJSON_ParseWithLength al value })"

definition json_parse_echo_req ::
  "(nat \<Rightarrow> bool) \<Rightarrow> bytes option \<Rightarrow> nat \<Rightarrow> bytes \<Rightarrow> (int \<times> bytes) option" where
  "json_parse_echo_req al payload len msg_out =
     (if msg_out = [] then Some (-1, msg_out)
      else do {
        root \<leftarrow> parse_payload al payload len;
        if root = None then Some (-1, msg_out)
        else case string_value (cJSON_GetObjectItemCaseSensitive root ''msg'') of
          None \<Rightarrow> Some (-1, msg_out)
        | Some msg \<Rightarrow> do { msg_out \<leftarrow> poke 0 (take (length msg_out - 1) msg @ [0]) msg_out; Some (0, msg_out) }
      })"

definition json_parse_get_sensor_req :: "(nat \<Rightarrow> bool) \<Rightarrow> bytes option \<Rightarrow> nat \<Rightarrow> int option option" where
  "json_parse_get_sensor_req al payload len = do {
     root \<leftarrow> parse_payload al payload len;
     Some (number_value (cJSON_GetObjectItemCaseSensitive root ''sensor_id''))
   }"

definition json_parse_set_actuator_req ::
  "(nat \<Rightarrow> bool) \<Rightarrow> bytes option \<Rightarrow> nat \<Rightarrow> (int \<times> int \<times> int) option option" where
  "json_parse_set_actuator_req al payload len = do {
     root \<leftarrow> parse_payload al payload len;
     let device_id = number_value (cJSON_GetObjectItemCaseSensitive root ''device_id'');
     let state = number_value (cJSON_GetObjectItemCaseSensitive root ''state'');
     let value = number_value (cJSON_GetObjectItemCaseSensitive root ''value'');
     Some (case (device_id, state, value) of (Some d, Some s, Some v) \<Rightarrow> Some (d, s, v) | _ \<Rightarrow> None)
   }"

section \<open>Responses\<close>

definition print_and_free :: "cJSON \<Rightarrow> bytes \<Rightarrow> (int \<times> bytes) option" where
  "print_and_free item buf = do {
     (ok, buf) \<leftarrow> cJSON_PrintPreallocated item buf;
     if \<not> ok then Some (-1, buf)
     else if 0 \<in> set buf then Some (int (length (cstr buf)), buf) else None
   }"

text \<open>\<open>cJSON_CreateObject\<close> with what is done after a success.\<close>

definition with_object :: "(nat \<Rightarrow> bool) \<Rightarrow> nat \<Rightarrow> bytes \<Rightarrow> (members \<times> nat \<Rightarrow> (int \<times> bytes) option) \<Rightarrow> (int \<times> bytes) option" where
  "with_object al n buf f = (let (ok, n) = cJSON_New_Item al n in if ok then f ([], n) else Some (-1, buf))"

definition json_build_echo_resp :: "(nat \<Rightarrow> bool) \<Rightarrow> bytes \<Rightarrow> bytes option \<Rightarrow> (int \<times> bytes) option" where
  "json_build_echo_resp al buf msg =
     with_object al 0 buf (\<lambda>root.
       let root = cJSON_AddStringToObject al ''status'' (ascii ''ok'') root;
           root = cJSON_AddStringToObject al ''msg'' (case msg of Some m \<Rightarrow> m | None \<Rightarrow> []) root in
       print_and_free (cJSON_Object (fst root)) buf)"

definition json_build_status_resp :: "(nat \<Rightarrow> bool) \<Rightarrow> bytes \<Rightarrow> u64 \<Rightarrow> int \<Rightarrow> (int \<times> bytes) option" where
  "json_build_status_resp al buf uptime_ms active_workers =
     with_object al 0 buf (\<lambda>root. do {
       let root = cJSON_AddStringToObject al ''status'' (ascii ''ok'') root;
       root \<leftarrow> cJSON_AddNumberToObject al ''uptime_ms'' (Num (to_double (real (unat uptime_ms)))) root;
       root \<leftarrow> cJSON_AddNumberToObject al ''active_workers'' (Num (to_double (of_int active_workers))) root;
       print_and_free (cJSON_Object (fst root)) buf
     })"

definition json_build_sensor_aht30_resp :: "(nat \<Rightarrow> bool) \<Rightarrow> bytes \<Rightarrow> c_float \<Rightarrow> c_float \<Rightarrow> (int \<times> bytes) option" where
  "json_build_sensor_aht30_resp al buf temp humi =
     with_object al 0 buf (\<lambda>root.
       let root = cJSON_AddStringToObject al ''status'' (ascii ''ok'') root;
           root = cJSON_AddStringToObject al ''sensor_name'' (ascii ''AHT30'') root in
       with_object al (snd root) buf (\<lambda>data. do {
         data \<leftarrow> cJSON_AddNumberToObject al ''temp'' temp data;
         data \<leftarrow> cJSON_AddNumberToObject al ''humi'' humi data;
         let root = cJSON_AddItemToObject al ''data'' (cJSON_Object (fst data)) (fst root, snd data);
         print_and_free (cJSON_Object (fst root)) buf
       }))"

definition json_build_sensor_bh1750_resp :: "(nat \<Rightarrow> bool) \<Rightarrow> bytes \<Rightarrow> c_float \<Rightarrow> (int \<times> bytes) option" where
  "json_build_sensor_bh1750_resp al buf l =
     with_object al 0 buf (\<lambda>root.
       let root = cJSON_AddStringToObject al ''status'' (ascii ''ok'') root;
           root = cJSON_AddStringToObject al ''sensor_name'' (ascii ''BH1750'') root in
       with_object al (snd root) buf (\<lambda>data. do {
         data \<leftarrow> cJSON_AddNumberToObject al ''lux'' l data;
         let root = cJSON_AddItemToObject al ''data'' (cJSON_Object (fst data)) (fst root, snd data);
         print_and_free (cJSON_Object (fst root)) buf
       }))"

definition json_build_actuator_resp :: "(nat \<Rightarrow> bool) \<Rightarrow> bytes \<Rightarrow> bytes option \<Rightarrow> (int \<times> bytes) option" where
  "json_build_actuator_resp al buf message =
     with_object al 0 buf (\<lambda>root.
       let root = cJSON_AddStringToObject al ''status'' (ascii ''ok'') root;
           root = cJSON_AddStringToObject al ''message'' (case message of Some m \<Rightarrow> m | None \<Rightarrow> []) root in
       print_and_free (cJSON_Object (fst root)) buf)"

definition json_build_error_resp :: "(nat \<Rightarrow> bool) \<Rightarrow> bytes \<Rightarrow> int \<Rightarrow> bytes option \<Rightarrow> (int \<times> bytes) option" where
  "json_build_error_resp al buf error_code message =
     with_object al 0 buf (\<lambda>root. do {
       let root = cJSON_AddStringToObject al ''status'' (ascii ''error'') root;
       root \<leftarrow> cJSON_AddNumberToObject al ''error_code'' (Num (to_double (of_int error_code))) root;
       let root = cJSON_AddStringToObject al ''message'' (case message of Some m \<Rightarrow> m | None \<Rightarrow> []) root;
       print_and_free (cJSON_Object (fst root)) buf
     })"

section \<open>What the builders return\<close>

definition float_ok :: "c_float \<Rightarrow> bool" where
  "float_ok x = (case x of NaN \<Rightarrow> False | Num d \<Rightarrow> is_double d)"

text \<open>
  \<open>reply buf r\<close>: a defined result, either -1 or the length of a JSON text that stands at the start
  of the buffer with its terminator.
\<close>

definition reply :: "bytes \<Rightarrow> (int \<times> bytes) option \<Rightarrow> bool" where
  "reply buf r = (\<exists>ret out. r = Some (ret, out) \<and> length out = length buf \<and>
     (ret = -1 \<or> (\<exists>t. ret = int (length t) \<and> length t + 2 \<le> length buf \<and> take (length t) out = t \<and> 0 \<notin> set t)))"

lemma print_and_free_text:
  assumes "numbers_ok v" and "int (length buf) \<le> INT_MAX"
  shows "\<exists>out. print_and_free v buf = Some (if depth_ok 0 v \<and> length (json_text v) + 2 \<le> length buf then int (length (json_text v)) else -1, out) \<and>
    length out = length buf \<and>
    (depth_ok 0 v \<and> length (json_text v) + 2 \<le> length buf \<longrightarrow> take (length (json_text v)) out = json_text v)"
proof -
  obtain ok out where p: "cJSON_PrintPreallocated v buf = Some (ok, out)" "length out = length buf"
      "ok = (depth_ok 0 v \<and> length (json_text v) + 2 \<le> length buf)"
      "ok \<longrightarrow> out = json_text v @ 0 # drop (length (json_text v) + 1) buf"
    using print_preallocated [OF assms] by blast
  show ?thesis
  proof (cases ok)
    case True
    then have "0 \<in> set out" "cstr out = json_text v" "take (length (json_text v)) out = json_text v"
      using p(4) cstr_id(2) [OF json_text_nonzero] by auto
    then show ?thesis using p True by (simp add: print_and_free_def)
  qed (use p in \<open>simp add: print_and_free_def\<close>)
qed

lemma print_and_free_reply: "numbers_ok v \<Longrightarrow> int (length buf) \<le> INT_MAX \<Longrightarrow> reply buf (print_and_free v buf)"
  using print_and_free_text [of v buf] json_text_nonzero [of v] unfolding reply_def by (auto split: if_splits)

text \<open>Under every answer of the allocator the members stay numbers of the model.\<close>

definition members_ok :: "members \<Rightarrow> bool" where
  "members_ok ms = numbers_ok (cJSON_Object ms)"

lemma add_item_ok: "members_ok ms \<Longrightarrow> (\<And>v. item = Some v \<Longrightarrow> numbers_ok v) \<Longrightarrow> members_ok (fst (add_item_to_object al n ms name item))"
  by (auto simp: add_item_to_object_def add_item_to_array_def cJSON_strdup_def members_ok_def Let_def split: option.split)

lemma add_string_ok: "members_ok (fst st) \<Longrightarrow> members_ok (fst (cJSON_AddStringToObject al name s st))"
  unfolding cJSON_AddStringToObject_def
  by (auto simp: cJSON_CreateString_def cJSON_New_Item_def cJSON_strdup_def Let_def intro!: add_item_ok)

lemma add_object_ok: "members_ok (fst st) \<Longrightarrow> numbers_ok v \<Longrightarrow> members_ok (fst (cJSON_AddItemToObject al name v st))"
  unfolding cJSON_AddItemToObject_def by (auto intro!: add_item_ok)

lemma add_number_ok:
  assumes "members_ok (fst st)" and "float_ok x"
  shows "\<exists>st'. cJSON_AddNumberToObject al name x st = Some st' \<and> members_ok (fst st')"
proof (cases x)
  case (Num d)
  let ?item = "if al (snd st) then Some (cJSON_Number d (valueint_of d)) else None"
  have "members_ok (fst (add_item_to_object al (snd st + 1) (fst st) name ?item))"
    using assms Num valueint_of_range by (intro add_item_ok) (auto simp: float_ok_def split: if_splits)
  moreover have "cJSON_AddNumberToObject al name x st = Some (add_item_to_object al (snd st + 1) (fst st) name ?item)"
    using Num by (simp add: cJSON_AddNumberToObject_def cJSON_CreateNumber_def cJSON_New_Item_def)
  ultimately show ?thesis by blast
qed (use assms(2) in \<open>simp add: float_ok_def\<close>)

lemma with_object_reply:
  assumes "\<And>n. reply buf (f ([], n))"
  shows "reply buf (with_object al n buf f)"
  using assms by (auto simp: with_object_def cJSON_New_Item_def reply_def Let_def)

lemma add_number_reply:
  assumes "members_ok (fst st)" and "float_ok x" and "\<And>st'. members_ok (fst st') \<Longrightarrow> reply buf (f st')"
  shows "reply buf (Option.bind (cJSON_AddNumberToObject al name x st) f)"
  using add_number_ok [OF assms(1,2), of al name] assms(3) by auto

lemma float_ok_to_double: "float_ok (Num (to_double x))"
  by (simp add: float_ok_def is_double_to_double)

lemma members_ok_print: "members_ok ms \<Longrightarrow> int (length buf) \<le> INT_MAX \<Longrightarrow> reply buf (print_and_free (cJSON_Object ms) buf)"
  by (simp add: members_ok_def print_and_free_reply del: numbers_ok.simps)

lemmas reply_intros = with_object_reply add_number_reply float_ok_to_double add_string_ok add_object_ok members_ok_print

lemma members_ok_Nil: "members_ok []"
  by (simp add: members_ok_def)

lemma build_reply:
  assumes "int (length buf) \<le> INT_MAX"
  shows "reply buf (json_build_echo_resp al buf msg)" and "reply buf (json_build_status_resp al buf up n)"
    and "reply buf (json_build_actuator_resp al buf msg)" and "reply buf (json_build_error_resp al buf code msg)"
    and "float_ok x \<Longrightarrow> float_ok y \<Longrightarrow> reply buf (json_build_sensor_aht30_resp al buf x y)"
    and "float_ok x \<Longrightarrow> reply buf (json_build_sensor_bh1750_resp al buf x)"
  using assms
  unfolding json_build_echo_resp_def json_build_status_resp_def json_build_actuator_resp_def json_build_error_resp_def
    json_build_sensor_aht30_resp_def json_build_sensor_bh1750_resp_def Let_def
  by (auto intro!: reply_intros members_ok_Nil simp: members_ok_def [symmetric] simp del: numbers_ok.simps)

section \<open>The texts, with working allocation\<close>

lemma ascii_nonzero: "CHR 0x00 \<notin> set cs \<Longrightarrow> 0 \<notin> set (ascii cs)"
proof
  assume cs: "CHR 0x00 \<notin> set cs" and "0 \<in> set (ascii cs)"
  then obtain c where c: "c \<in> set cs" "(word_of_nat (of_char c) :: u8) = 0" by (auto simp: ascii_def)
  have "unat (word_of_nat (of_char c) :: u8) = (of_char c :: nat)" by (simp add: unat_of_nat of_char_mod_256)
  then have "(of_char c :: nat) = of_char (CHR 0x00)" using c(2) by simp
  then have "c = CHR 0x00" by (simp only: of_char_eq_iff)
  with c(1) cs show False by blast
qed

lemma cstr_ascii: "CHR 0x00 \<notin> set cs \<Longrightarrow> cstr (ascii cs) = ascii cs"
  by (intro cstr_id ascii_nonzero)

lemma always_simps:
  "cJSON_AddStringToObject always name s (ms, n) = (ms @ [(cstr (ascii name), cJSON_String (cstr s))], n + 3)"
  "cJSON_AddNumberToObject always name (Num d) (ms, n) = Some (ms @ [(cstr (ascii name), cJSON_Number d (valueint_of d))], n + 2)"
  "cJSON_AddItemToObject always name v (ms, n) = (ms @ [(cstr (ascii name), v)], n + 1)"
  "with_object always n buf f = f ([], n + 1)"
  by (simp_all add: cJSON_AddStringToObject_def cJSON_AddNumberToObject_def cJSON_AddItemToObject_def with_object_def
      cJSON_CreateString_def cJSON_CreateNumber_def cJSON_New_Item_def cJSON_strdup_def add_item_to_object_def add_item_to_array_def)

text \<open>\<open>answers buf t r\<close>: the call returned the length of \<open>t\<close> with \<open>t\<close> in the buffer, or -1 if \<open>t\<close> is too long.\<close>

definition answers :: "bytes \<Rightarrow> bytes \<Rightarrow> (int \<times> bytes) option \<Rightarrow> bool" where
  "answers buf t r = (\<exists>out. r = Some (if length t + 2 \<le> length buf then int (length t) else -1, out) \<and>
     length out = length buf \<and> (length t + 2 \<le> length buf \<longrightarrow> take (length t) out = t))"

lemma print_and_free_answers:
  assumes "numbers_ok v" and "depth_ok 0 v" and "int (length buf) \<le> INT_MAX"
  shows "answers buf (json_text v) (print_and_free v buf)"
  using print_and_free_text [OF assms(1,3)] assms(2) by (auto simp: answers_def)

definition error_text :: "int \<Rightarrow> bytes \<Rightarrow> bytes" where
  "error_text code message = ascii ''{\"status\":\"error\",\"error_code\":'' @ dec_text code @ ascii '',\"message\":'' @ quoted message @ ascii ''}''"

lemma quoted_cstr: "quoted (cstr s) = quoted s"
  by (simp add: quoted_def cstr_def)

lemma quoted_lit:
  "quoted (ascii ''status'') = ascii ''\"status\"''" "quoted (ascii ''ok'') = ascii ''\"ok\"''" "quoted (ascii ''error'') = ascii ''\"error\"''"
  "quoted (ascii ''msg'') = ascii ''\"msg\"''" "quoted (ascii ''message'') = ascii ''\"message\"''" "quoted (ascii ''error_code'') = ascii ''\"error_code\"''"
  by (simp_all add: ascii_def quoted_def cstr_def escape_byte_def word_less_nat_alt)

lemma to_double_int: "is_int i \<Longrightarrow> to_double (of_int i) = Fin (of_int i) \<and> valueint_of (Fin (of_int i)) = i"
proof -
  assume i: "is_int i"
  then have "nat \<bar>i\<bar> < 2 ^ 53" by (auto simp: is_int_def INT_MIN_def INT_MAX_def)
  from to_double_of_nat [OF this] have "to_double (of_int i) = Fin (of_int i)" by (cases "0 \<le> i") auto
  with i valueint_of_int [of i] show ?thesis by (simp add: is_int_def)
qed

lemma build_echo_answers:
  assumes "int (length buf) \<le> INT_MAX"
  shows "answers buf (ascii ''{\"status\":\"ok\",\"msg\":'' @ quoted m @ ascii ''}'') (json_build_echo_resp always buf (Some m))"
proof -
  let ?v = "cJSON_Object [(ascii ''status'', cJSON_String (ascii ''ok'')), (ascii ''msg'', cJSON_String (cstr m))]"
  have "answers buf (json_text ?v) (print_and_free ?v buf)" using assms by (intro print_and_free_answers) (simp_all add: CJSON_NESTING_LIMIT_def)
  moreover have "json_text ?v = ascii ''{\"status\":\"ok\",\"msg\":'' @ quoted m @ ascii ''}''"
    by (simp add: quoted_cstr quoted_lit) (simp add: ascii_def)
  ultimately show ?thesis by (simp add: json_build_echo_resp_def always_simps cstr_ascii)
qed

lemma build_message_answers:
  assumes "int (length buf) \<le> INT_MAX"
  shows "answers buf (ascii ''{\"status\":\"ok\",\"message\":'' @ quoted m @ ascii ''}'') (json_build_actuator_resp always buf (Some m))"
proof -
  let ?v = "cJSON_Object [(ascii ''status'', cJSON_String (ascii ''ok'')), (ascii ''message'', cJSON_String (cstr m))]"
  have "answers buf (json_text ?v) (print_and_free ?v buf)" using assms by (intro print_and_free_answers) (simp_all add: CJSON_NESTING_LIMIT_def)
  moreover have "json_text ?v = ascii ''{\"status\":\"ok\",\"message\":'' @ quoted m @ ascii ''}''"
    by (simp add: quoted_cstr quoted_lit) (simp add: ascii_def)
  ultimately show ?thesis by (simp add: json_build_actuator_resp_def always_simps cstr_ascii)
qed

lemma build_error_answers:
  assumes "int (length buf) \<le> INT_MAX" and "is_int code"
  shows "answers buf (error_text code m) (json_build_error_resp always buf code (Some m))"
proof -
  let ?v = "cJSON_Object [(ascii ''status'', cJSON_String (ascii ''error'')), (ascii ''error_code'', cJSON_Number (Fin (of_int code)) code),
      (ascii ''message'', cJSON_String (cstr m))]"
  note d = to_double_int [OF assms(2)]
  have "readable (cJSON_Number (Fin (of_int code)) code)" using assms(2) by (simp add: is_int_def)
  from readable_numbers [OF this] have "answers buf (json_text ?v) (print_and_free ?v buf)"
    using assms(1) by (intro print_and_free_answers) (simp_all add: CJSON_NESTING_LIMIT_def)
  moreover have "json_text ?v = error_text code m"
    by (simp add: quoted_cstr quoted_lit number_text_int error_text_def) (simp add: ascii_def)
  ultimately show ?thesis using d by (simp add: json_build_error_resp_def always_simps cstr_ascii)
qed

section \<open>Requests\<close>

lemma parse_payload_total: "len \<le> length p \<Longrightarrow> \<exists>r. parse_payload al (Some p) len = Some r"
  using cJSON_ParseWithLength_total [of al "take len p"] by (auto simp: parse_payload_def peek_def)

lemma parse_payload_text:
  assumes "readable v" and "depth_ok 0 v" and "peek 0 len p = Some (json_text v)"
  shows "parse_payload always (Some p) len = Some (Some v)"
proof -
  obtain x t where "json_text v = x # t" using json_text_first [OF assms(1)] by blast
  then have "len \<noteq> 0" using assms(3) by (cases len) (auto simp: peek_def split: if_splits)
  then show ?thesis using parse_json_text [OF assms(1,2), of "[]"] assms(3) by (simp add: parse_payload_def value_end_def)
qed

lemma poke_message:
  assumes "out \<noteq> []"
  shows "\<exists>b. poke 0 (take (length out - 1) m @ [0]) out = Some b \<and> length b = length out \<and> 0 \<in> set b"
proof -
  have "length (take (length out - 1) m @ [0]) \<le> length out" using assms by (cases out) auto
  then show ?thesis by (auto simp: poke_def)
qed

lemma parse_echo_total:
  assumes "len \<le> length p"
  shows "\<exists>r. json_parse_echo_req al (Some p) len out = Some r \<and> length (snd r) = length out \<and> (fst r = 0 \<longrightarrow> 0 \<in> set (snd r))"
proof -
  obtain root where r: "parse_payload al (Some p) len = Some root" using parse_payload_total [OF assms] by blast
  consider "out = []" | "out \<noteq> []" "root = None \<or> string_value (cJSON_GetObjectItemCaseSensitive root ''msg'') = None"
    | m where "out \<noteq> []" "root \<noteq> None" "string_value (cJSON_GetObjectItemCaseSensitive root ''msg'') = Some m" by fastforce
  then show ?thesis
  proof cases
    case 3
    then show ?thesis using r poke_message [OF 3(1), of m] by (auto simp: json_parse_echo_req_def)
  qed (auto simp: json_parse_echo_req_def r)
qed

lemma parse_numbers_total:
  assumes "len \<le> length p"
  shows "\<exists>r. json_parse_get_sensor_req al (Some p) len = Some r" and "\<exists>r. json_parse_set_actuator_req al (Some p) len = Some r"
  using parse_payload_total [OF assms, of al] by (auto simp: json_parse_get_sensor_req_def json_parse_set_actuator_req_def)

lemma parse_echo_object:
  assumes "readable (cJSON_Object ms)" and "depth_ok 0 (cJSON_Object ms)" and "peek 0 len p = Some (json_text (cJSON_Object ms))"
    and "find_member (ascii ''msg'') ms = Some (cJSON_String s)" and "out \<noteq> []"
  shows "json_parse_echo_req always (Some p) len out =
    Some (0, take (length out - 1) (cstr s) @ 0 # drop (length (take (length out - 1) (cstr s)) + 1) out)"
proof -
  let ?m = "take (length out - 1) (cstr s)"
  have "length (?m @ [0]) \<le> length out" using assms(5) by (cases out) auto
  then have "poke 0 (?m @ [0]) out = Some (?m @ 0 # drop (length ?m + 1) out)" by (simp add: poke_def)
  then show ?thesis using parse_payload_text [OF assms(1-3)] assms(4,5)
    by (simp add: json_parse_echo_req_def cJSON_GetObjectItemCaseSensitive_def get_object_item_def string_value_def)
qed

section \<open>Properties\<close>






end
