(* ===== verification/Worker.thy ===== *)
theory Worker
  imports Request Cjson_Types Payload_Json
begin

text \<open>
  The worker threads (\<open>gateway/src/worker_thread.c\<close>): turning a task into a response and one
  round of the loop of \<open>worker_thread\<close>. The answers of the system calls and of the allocators,
  and the indeterminate contents of local variables and fresh blocks, are fields of the
  environment records. \<open>None\<close> is undefined behaviour.
\<close>

section \<open>The code\<close>

definition NUM_WORKERS :: int where "NUM_WORKERS = 4"

text \<open>
  \<open>notify_main_thread\<close>: the answers of its successive \<open>write\<close> calls are given, \<open>None\<close> for a
  success; without a further answer the call has not returned.
\<close>

fun notify_main_thread :: "int \<Rightarrow> errno option list \<Rightarrow> int option" where
  "notify_main_thread event_fd ws =
     (if event_fd < 0 then Some (-1)
      else case ws of
        [] \<Rightarrow> None
      | None # _ \<Rightarrow> Some 0
      | Some err # ws \<Rightarrow> if err = EINTR then notify_main_thread event_fd ws else Some (-1))"

declare notify_main_thread.simps [simp del]

text \<open>A fresh block for a response, if any, with its contents.\<close>

type_synonym response_block = "(addr \<times> response) option"

definition make_response ::
  "response_block \<Rightarrow> int \<Rightarrow> u64 \<Rightarrow> u16 \<Rightarrow> u32 \<Rightarrow> bytes option \<Rightarrow> u32 \<Rightarrow> response heap \<Rightarrow> (addr option \<times> response heap) option" where
  "make_response blk slot generation type request_id payload len h =
     (case blk of
        None \<Rightarrow> Some (None, h)
      | Some (a, rp) \<Rightarrow> do {
          let rp = rp \<lparr> r_slot := slot, r_generation := generation, r_type := type, r_request_id := request_id \<rparr>;
          let len = (if len > word_of_nat MAX_PAYLOAD then word_of_nat MAX_PAYLOAD else len);
          let rp = rp \<lparr> r_length := len \<rparr>;
          rp \<leftarrow> (case payload of
                  Some bs \<Rightarrow> if len > 0 then do {
                      x \<leftarrow> peek 0 (unat len) bs;
                      p \<leftarrow> poke 0 x (r_payload rp);
                      Some (rp \<lparr> r_payload := p \<rparr>)
                    } else Some rp
                | None \<Rightarrow> Some rp);
          Some (Some a, h(a \<mapsto> rp \<lparr> r_next_response := None \<rparr>))
        })"

text \<open>
  The answers for one error response: the allocator during the two attempts to build its text,
  the contents of \<open>err_buf\<close> and the block.
\<close>

record err_env =
  x_al :: "nat \<Rightarrow> bool"
  x_al' :: "nat \<Rightarrow> bool"
  x_buf :: bytes
  x_blk :: response_block

definition make_error_response :: "err_env \<Rightarrow> task \<Rightarrow> err_code \<Rightarrow> string \<Rightarrow> response heap \<Rightarrow> (addr option \<times> response heap) option" where
  "make_error_response env t err_code message h = do {
     (n, err_buf) \<leftarrow> json_build_error_resp (x_al env) (x_buf env) (int (err_num err_code)) (Some (ascii message));
     (n, err_buf) \<leftarrow> (if n < 0 then json_build_error_resp (x_al' env) err_buf (int (err_num err_code)) (Some (ascii ''internal_error''))
                     else Some (n, err_buf));
     if n < 0 then Some (None, h)
     else make_response (x_blk env) (t_slot t) (t_generation t) MSG_ERROR (t_request_id t) (Some err_buf) (word_of_int n) h
   }"

text \<open>
  The answers during \<open>process_hardware_task\<close>. At most one response is made, so one block is enough;
  \<open>p_err\<close> has the answers for the case that it is an error response.
\<close>

record hw_env =
  p_parse :: "nat \<Rightarrow> bool"
  p_build :: "nat \<Rightarrow> bool"
  p_err :: err_env
  p_blk :: response_block
  p_resp_buf :: bytes
  p_msg_in :: bytes
  p_now :: u64
  p_open :: "int \<times> int"
  p_read :: "bytes option"
  p_scan :: scan_float
  p_write :: int
  p_aht30 :: aht30_sensor
  p_bh1750 :: bh1750_sensor
  p_ac :: air_condition
  p_led :: led_pwm
  p_fan :: fan

definition finish_response ::
  "hw_env \<Rightarrow> task \<Rightarrow> (int \<times> bytes) option \<Rightarrow> response heap \<Rightarrow> (addr option \<times> response heap) option" where
  "finish_response env t r h = do {
     (resp_len, resp_buf) \<leftarrow> r;
     if resp_len < 0 then make_error_response (p_err env) t ERR_BAD_JSON ''response_too_large'' h
     else make_response (p_blk env) (t_slot t) (t_generation t) MSG_RESPONSE (t_request_id t) (Some resp_buf) (word_of_int resp_len) h
   }"

definition read_sensor :: "hw_env \<Rightarrow> task \<Rightarrow> int \<Rightarrow> response heap \<Rightarrow> (addr option \<times> response heap) option" where
  "read_sensor env t sensor_id h =
     (if sensor_id = AHT30_SENSOR_ID then
        let (ret, dev) = init_aht30_sensor (fst (p_open env)) (snd (p_open env)) (p_aht30 env) in
        if ret \<noteq> 0 then make_error_response (p_err env) t ERR_UNKNOWN_TYPE ''aht30_hardware_init_fail'' h
        else let (ret, dev) = get_aht30_sensor_data (p_scan env) (p_read env) (p_now env) dev;
                 dev = destroy_aht30_sensor dev in
          finish_response env t (json_build_sensor_aht30_resp (p_build env) (p_resp_buf env) (temperature dev) (humidity dev)) h
      else if sensor_id = BH1750_SENSOR_ID then
        let (ret, dev) = init_bh1750_sensor (fst (p_open env)) (snd (p_open env)) (p_bh1750 env) in
        if ret \<noteq> 0 then make_error_response (p_err env) t ERR_UNKNOWN_TYPE ''bh1750_hardware_init_fail'' h
        else let (ret, dev) = get_bh1750_sensor_data (p_scan env) (p_read env) dev;
                 dev = destroy_bh1750_sensor dev in
          finish_response env t (json_build_sensor_bh1750_resp (p_build env) (p_resp_buf env) (lux dev)) h
      else make_error_response (p_err env) t ERR_UNKNOWN_TYPE ''unknown_sensor_id'' h)"

text \<open>The three kinds of actuators: whether it worked, and the command written.\<close>

definition drive_ac :: "hw_env \<Rightarrow> int \<Rightarrow> int \<Rightarrow> (bool \<times> bytes option) option" where
  "drive_ac env state v =
     (let (ret, dev) = init_ac_actuator (fst (p_open env)) (snd (p_open env)) (p_ac env) in
      if ret = 0 then do {
        let dev = dev \<lparr> ac_base := (ac_base dev) \<lparr> ac_state := state, ac_setpoint := Fin (of_int v) \<rparr> \<rparr>;
        (ret, cmd) \<leftarrow> set_ac_actuator (p_write env) dev;
        let dev = destroy_ac_actuator dev;
        Some (ret = 0, cmd)
      } else Some (False, None))"

definition drive_led :: "hw_env \<Rightarrow> int \<Rightarrow> int \<Rightarrow> (bool \<times> bytes option) option" where
  "drive_led env state v =
     (let (ret, dev) = init_led_actuator (fst (p_open env)) (snd (p_open env)) (p_led env) in
      if ret = 0 then do {
        let dev = dev \<lparr> led_base := (led_base dev) \<lparr> ac_state := state \<rparr>, brightness_percent := v \<rparr>;
        (ret, cmd) \<leftarrow> set_led_actuator (p_write env) dev;
        let dev = destroy_led_actuator dev;
        Some (ret = 0, cmd)
      } else Some (False, None))"

definition drive_fan :: "hw_env \<Rightarrow> int \<Rightarrow> int \<Rightarrow> (bool \<times> bytes option) option" where
  "drive_fan env state v =
     (let (ret, dev) = init_fan_actuator (fst (p_open env)) (snd (p_open env)) (p_fan env) in
      if ret = 0 then do {
        let dev = dev \<lparr> fan_base := (fan_base dev) \<lparr> ac_state := state \<rparr>, speed_rpm := v \<rparr>;
        (ret, cmd) \<leftarrow> set_fan_actuator (p_write env) dev;
        let dev = destroy_fan_actuator dev;
        Some (ret = 0, cmd)
      } else Some (False, None))"

text \<open>A result together with what was written to a device, if anything.\<close>

definition told :: "bytes option \<Rightarrow> 'a option \<Rightarrow> ('a \<times> bytes option) option" where
  "told cmd r = map_option (\<lambda>x. (x, cmd)) r"

definition drive_actuator ::
  "hw_env \<Rightarrow> task \<Rightarrow> int \<times> int \<times> int \<Rightarrow> response heap \<Rightarrow> ((addr option \<times> response heap) \<times> bytes option) option" where
  "drive_actuator env t req h =
     (case req of (device_id, state, v) \<Rightarrow>
        if device_id \<notin> {AC_ACTUATOR_ID, LED_ACTUATOR_ID, FAN_ACTUATOR_ID}
        then told None (make_error_response (p_err env) t ERR_UNKNOWN_TYPE ''unknown_device_id'' h)
        else do {
          (ok, cmd) \<leftarrow> (if device_id = AC_ACTUATOR_ID then drive_ac env state v
                        else if device_id = LED_ACTUATOR_ID then drive_led env state v
                        else drive_fan env state v);
          told cmd (if \<not> ok then make_error_response (p_err env) t ERR_UNKNOWN_TYPE ''actuator_hardware_control_fail'' h
            else finish_response env t (json_build_actuator_resp (p_build env) (p_resp_buf env) (Some (ascii ''actuator_control_success''))) h)
        })"

definition process_hardware_task :: "hw_env \<Rightarrow> task \<Rightarrow> response heap \<Rightarrow> ((addr option \<times> response heap) \<times> bytes option) option" where
  "process_hardware_task env t h =
     (if t_type t = MSG_ECHO then do {
        (ret, msg_in) \<leftarrow> json_parse_echo_req (p_parse env) (Some (t_payload t)) (t_length t) (p_msg_in env);
        told None (if ret < 0 then make_error_response (p_err env) t ERR_BAD_JSON ''missing_or_invalid_field_msg'' h
          else finish_response env t (json_build_echo_resp (p_build env) (p_resp_buf env) (Some msg_in)) h)
      }
      else if t_type t = MSG_STATUS then
        told None (finish_response env t (json_build_status_resp (p_build env) (p_resp_buf env) (p_now env) NUM_WORKERS) h)
      else if t_type t = MSG_GET_SENSOR then do {
        r \<leftarrow> json_parse_get_sensor_req (p_parse env) (Some (t_payload t)) (t_length t);
        told None (case r of
          None \<Rightarrow> make_error_response (p_err env) t ERR_BAD_JSON ''missing_or_invalid_field_sensor_id'' h
        | Some sensor_id \<Rightarrow> read_sensor env t sensor_id h)
      }
      else if t_type t = MSG_SET_ACTUATOR then do {
        r \<leftarrow> json_parse_set_actuator_req (p_parse env) (Some (t_payload t)) (t_length t);
        case r of
          None \<Rightarrow> told None (make_error_response (p_err env) t ERR_BAD_JSON ''missing_or_invalid_field_device_id_state_value'' h)
        | Some req \<Rightarrow> drive_actuator env t req h
      }
      else told None (make_error_response (p_err env) t ERR_UNKNOWN_TYPE ''unsupported_message_type'' h))"

text \<open>
  One round of the loop of \<open>worker_thread\<close>, in two parts: taking a task, which is one critical
  section, and handling it, in which the worker touches only its own task and response until it
  pushes the response. \<open>k_now\<close> and \<open>k_now'\<close> are the two readings of the clock and \<open>k_late\<close> the
  answers for the response after a timeout.
\<close>

record work_env =
  k_now :: u64
  k_now' :: u64
  k_hw :: hw_env
  k_late :: err_env
  k_notify :: "errno option list"

definition worker_take :: "server \<Rightarrow> (pop_result \<times> server) option" where
  "worker_take sv = do {
     (r, h, q) \<leftarrow> pop (m_tasks sv) (sv_tasks sv);
     Some (r, sv \<lparr> m_tasks := h, sv_tasks := q \<rparr>)
   }"

definition worker_handle :: "work_env \<Rightarrow> addr \<Rightarrow> server \<Rightarrow> (bytes option \<times> server) option" where
  "worker_handle env a sv = do {
     t \<leftarrow> m_tasks sv a;
     let freed = sv \<lparr> m_tasks := (m_tasks sv)(a := None) \<rparr>;
     if k_now env > t_timeout_ms t then Some (None, freed)
     else do {
       ((resp, h), cmd) \<leftarrow> process_hardware_task (k_hw env) t (m_responses sv);
       (resp, h) \<leftarrow> (if k_now' env > t_timeout_ms t
                     then make_error_response (k_late env) t ERR_TIMEOUT ''processing_timeout''
                            (case resp of None \<Rightarrow> h | Some b \<Rightarrow> h(b := None))
                     else Some (resp, h));
       (h, q) \<leftarrow> (case resp of
                   None \<Rightarrow> Some (h, sv_response sv)
                 | Some b \<Rightarrow> do {
                     (ret, h, q) \<leftarrow> response_queue_push h (sv_response sv) (Some b);
                     if ret \<noteq> 0 then Some (h(b := None), q)
                     else do { n \<leftarrow> notify_main_thread (sv_event_fd sv) (k_notify env); Some (h, q) }
                   });
       Some (cmd, freed \<lparr> m_responses := h, sv_response := q \<rparr>)
     }
   }"

section \<open>A response answers its task\<close>

text \<open>\<open>carries t ty text r\<close>: \<open>r\<close> goes to the connection and the request \<open>t\<close> came from, with type \<open>ty\<close> and payload \<open>text\<close>.\<close>

definition carries :: "task \<Rightarrow> u16 \<Rightarrow> bytes \<Rightarrow> response \<Rightarrow> bool" where
  "carries t ty text r = (r_slot r = t_slot t \<and> r_generation r = t_generation t \<and> r_type r = ty \<and> r_request_id r = t_request_id t \<and>
     unat (r_length r) = length text \<and> length (r_payload r) = MAX_PAYLOAD \<and> take (length text) (r_payload r) = text)"

definition block_ok :: "response_block \<Rightarrow> response heap \<Rightarrow> bool" where
  "block_ok blk h = (\<forall>a r. blk = Some (a, r) \<longrightarrow> h a = None \<and> length (r_payload r) = MAX_PAYLOAD)"

definition sends :: "task \<Rightarrow> response_block \<Rightarrow> u16 \<Rightarrow> bytes \<Rightarrow> response heap \<Rightarrow> (addr option \<times> response heap) option \<Rightarrow> bool" where
  "sends t blk ty text h res =
     (case blk of None \<Rightarrow> res = Some (None, h)
      | Some (a, b) \<Rightarrow> \<exists>r. res = Some (Some a, h(a \<mapsto> r)) \<and> carries t ty text r)"

lemma make_response_sends:
  assumes "block_ok blk h" and "take (length text) buf = text" and "length text \<le> MAX_PAYLOAD"
  shows "sends t blk ty text h (make_response blk (t_slot t) (t_generation t) ty (t_request_id t) (Some buf) (word_of_int (int (length text))) h)"
proof (cases blk)
  case (Some p)
  obtain a rp where p: "p = (a, rp)" by (cases p)
  let ?n = "word_of_nat (length text) :: u32"
  have n: "unat ?n = length text" using assms(3) by (simp add: unat_of_nat MAX_PAYLOAD_def)
  have le: "\<not> ?n > word_of_nat MAX_PAYLOAD" using n assms(3) by (simp add: word_less_nat_alt MAX_PAYLOAD_def)
  have len: "length text \<le> length buf" using assms(2) by (metis length_take min.cobounded1 linorder_le_cases take_all)
  have pl: "length (r_payload rp) = MAX_PAYLOAD" using assms(1) Some p by (simp add: block_ok_def)
  define r where "r = rp \<lparr> r_slot := t_slot t, r_generation := t_generation t, r_type := ty, r_request_id := t_request_id t,
    r_length := ?n, r_payload := text @ drop (length text) (r_payload rp), r_next_response := None \<rparr>"
  have "peek 0 (length text) buf = Some text" using len assms(2) by (simp add: peek_def)
  moreover have "poke 0 text (r_payload rp) = Some (text @ drop (length text) (r_payload rp))" using assms(3) pl by (simp add: poke_def)
  moreover have "(?n > 0) = (text \<noteq> [])" using n by (auto simp: word_less_nat_alt)
  ultimately have "make_response blk (t_slot t) (t_generation t) ty (t_request_id t) (Some buf) (word_of_int (int (length text))) h
      = Some (Some a, h(a \<mapsto> r))"
    using Some p le n by (cases "text = []") (simp_all add: make_response_def r_def)
  moreover have "carries t ty text r" using n pl assms(3) by (simp add: carries_def r_def)
  ultimately show ?thesis using Some p by (auto simp: sends_def)
qed (simp add: sends_def make_response_def)

definition responds :: "task \<Rightarrow> response heap \<Rightarrow> (addr option \<times> response heap) option \<Rightarrow> bool" where
  "responds t h res = (res = Some (None, h) \<or>
     (\<exists>a r ty text. res = Some (Some a, h(a \<mapsto> r)) \<and> h a = None \<and> ty \<in> {MSG_RESPONSE, MSG_ERROR} \<and> carries t ty text r))"

lemma responds_defined: "responds t h res \<Longrightarrow> \<exists>r h'. res = Some (r, h')"
  by (auto simp: responds_def)

lemma sends_responds: "sends t blk ty text h res \<Longrightarrow> block_ok blk h \<Longrightarrow> ty \<in> {MSG_RESPONSE, MSG_ERROR} \<Longrightarrow> responds t h res"
  by (auto simp: sends_def responds_def block_ok_def split: option.splits prod.splits)

definition err_env_ok :: "err_env \<Rightarrow> response heap \<Rightarrow> bool" where
  "err_env_ok env h = (length (x_buf env) = 128 \<and> block_ok (x_blk env) h)"

lemma reply_cases:
  assumes "reply buf r"
  obtains (fail) out where "r = Some (-1, out)" "length out = length buf"
  | (fits) t out where "r = Some (int (length t), out)" "length out = length buf" "length t + 2 \<le> length buf" "take (length t) out = t"
  using assms unfolding reply_def by blast

lemma make_error_responds:
  assumes "err_env_ok env h"
  shows "responds t h (make_error_response env t code msg h)"
proof -
  have m: "length (x_buf env) = 128" "block_ok (x_blk env) h" using assms by (simp_all add: err_env_ok_def)
  have fin: "responds t h (make_response (x_blk env) (t_slot t) (t_generation t) MSG_ERROR (t_request_id t) (Some out) (word_of_int (int (length x))) h)"
    if "take (length x) out = x" "length x + 2 \<le> 128" for x out
    by (rule sends_responds [OF make_response_sends [OF m(2) that(1)] m(2)]) (use that(2) in \<open>simp_all add: MAX_PAYLOAD_def\<close>)
  have r1: "reply (x_buf env) (json_build_error_resp (x_al env) (x_buf env) (int (err_num code)) (Some (ascii msg)))"
    using m(1) by (intro build_reply) (simp add: INT_MAX_def)
  from r1 show ?thesis
  proof (cases rule: reply_cases)
    case first: (fail out)
    have r2: "reply out (json_build_error_resp (x_al' env) out (int (err_num code)) (Some (ascii ''internal_error'')))"
      using first m(1) by (intro build_reply) (simp add: INT_MAX_def)
    from r2 show ?thesis
    proof (cases rule: reply_cases)
      case (fail out')
      then show ?thesis using first by (simp add: make_error_response_def responds_def)
    next
      case (fits x out')
      then show ?thesis using fin [of x out'] first m(1) by (simp add: make_error_response_def)
    qed
  next
    case (fits x out)
    then show ?thesis using fin [of x out] m(1) by (simp add: make_error_response_def)
  qed
qed

definition hw_env_ok :: "hw_env \<Rightarrow> response heap \<Rightarrow> bool" where
  "hw_env_ok env h = (length (p_resp_buf env) = 256 \<and> length (p_msg_in env) = 128 \<and> err_env_ok (p_err env) h \<and>
     block_ok (p_blk env) h \<and> (\<forall>bs x r. p_scan env bs = Some (x, r) \<longrightarrow> float_ok x))"

lemma finish_responds:
  assumes env: "hw_env_ok env h" and "reply (p_resp_buf env) r"
  shows "responds t h (finish_response env t r h)"
  using assms(2)
proof (cases rule: reply_cases)
  case (fail out)
  then show ?thesis using env by (simp add: finish_response_def hw_env_ok_def make_error_responds)
next
  case (fits x out)
  have b: "block_ok (p_blk env) h" using env by (simp add: hw_env_ok_def)
  have "sends t (p_blk env) MSG_RESPONSE x h (make_response (p_blk env) (t_slot t) (t_generation t) MSG_RESPONSE (t_request_id t) (Some out) (word_of_int (int (length x))) h)"
    using fits env by (intro make_response_sends [OF b]) (simp_all add: hw_env_ok_def MAX_PAYLOAD_def)
  from sends_responds [OF this b] show ?thesis using fits by (simp add: finish_response_def)
qed

lemma finish_built:
  assumes "hw_env_ok env h" and "int (length (p_resp_buf env)) \<le> INT_MAX \<Longrightarrow> reply (p_resp_buf env) r"
  shows "responds t h (finish_response env t r h)"
  using assms by (intro finish_responds) (simp_all add: hw_env_ok_def INT_MAX_def)

lemma read_sensor_responds:
  assumes env: "hw_env_ok env h"
  shows "responds t h (read_sensor env t sensor_id h)"
proof -
  have e: "responds t h (make_error_response (p_err env) t c m h)" for c m using env by (simp add: hw_env_ok_def make_error_responds)
  have z: "float_ok (Num (Fin 0))" by (simp add: float_ok_def is_double_def)
  have sc: "p_scan env bs = Some (x, r) \<Longrightarrow> float_ok x" for bs x r using env by (auto simp: hw_env_ok_def)
  have "float_ok (temperature (snd (get_aht30_sensor_data (p_scan env) d n dev))) \<and> float_ok (humidity (snd (get_aht30_sensor_data (p_scan env) d n dev)))"
    if "float_ok (temperature dev)" "float_ok (humidity dev)" for d n dev
    using that by (auto simp: get_aht30_sensor_data_def scan_aht30_def Let_def split: option.split bind_splits dest: sc)
  then have a: "responds t h (finish_response env t (json_build_sensor_aht30_resp (p_build env) (p_resp_buf env)
      (temperature (destroy_aht30_sensor (snd (get_aht30_sensor_data (p_scan env) d n dev)))) (humidity (destroy_aht30_sensor (snd (get_aht30_sensor_data (p_scan env) d n dev))))) h)"
    if "float_ok (temperature dev)" "float_ok (humidity dev)" for d n dev
    using that by (intro finish_built [OF env] build_reply) (simp_all add: destroy_aht30_sensor_def)
  have "float_ok (lux (snd (get_bh1750_sensor_data (p_scan env) d dev)))" if "float_ok (lux dev)" for d dev
    using that by (auto simp: get_bh1750_sensor_data_def scan_bh1750_def Let_def split: option.split bind_splits dest: sc)
  then have b: "responds t h (finish_response env t (json_build_sensor_bh1750_resp (p_build env) (p_resp_buf env)
      (lux (destroy_bh1750_sensor (snd (get_bh1750_sensor_data (p_scan env) d dev))))) h)" if "float_ok (lux dev)" for d dev
    using that by (intro finish_built [OF env] build_reply) (simp_all add: destroy_bh1750_sensor_def)
  show ?thesis
    using e a b z by (auto simp: read_sensor_def init_aht30_sensor_def init_bh1750_sensor_def Let_def split_beta)
qed

lemma find_member_ok: "\<forall>m \<in> set ms. numbers_ok (snd m) \<Longrightarrow> find_member name ms = Some v \<Longrightarrow> numbers_ok v"
  by (induction ms) (auto split: if_splits)

lemma number_value_int: "numbers_ok v \<Longrightarrow> number_value (cJSON_GetObjectItemCaseSensitive (Some v) name) = Some i \<Longrightarrow> is_int i"
  using find_member_ok
  by (fastforce simp: number_value_def cJSON_GetObjectItemCaseSensitive_def get_object_item_def is_int_def split: option.splits cJSON.splits)

lemma parse_payload_numbers: "parse_payload al (Some p) len = Some (Some v) \<Longrightarrow> numbers_ok v"
  using parsed_numbers by (auto simp: parse_payload_def split: if_splits bind_splits)

lemma set_actuator_ints:
  assumes "json_parse_set_actuator_req al (Some p) len = Some (Some (d, s, v))"
  shows "is_int s \<and> is_int v"
proof -
  from assms obtain root where root: "parse_payload al (Some p) len = Some root"
    "number_value (cJSON_GetObjectItemCaseSensitive root ''state'') = Some s" "number_value (cJSON_GetObjectItemCaseSensitive root ''value'') = Some v"
    by (auto simp: json_parse_set_actuator_req_def Let_def split: bind_splits option.splits)
  then obtain x where "root = Some x" by (cases root) (auto simp: number_value_def cJSON_GetObjectItemCaseSensitive_def get_object_item_def)
  with root show ?thesis using parse_payload_numbers number_value_int by blast
qed

lemma drive_defined:
  assumes "is_int s" and "is_int v"
  shows "\<exists>x. drive_ac env s v = Some x" and "\<exists>x. drive_fan env s v = Some x"
    and "drive_led env s v = None \<longleftrightarrow> 0 \<le> open_device (fst (p_open env)) (snd (p_open env)) \<and> 2147 < \<bar>v\<bar>"
proof -
  have i: "is_int 1" "is_int 2" by (simp_all add: is_int_def INT_MIN_def INT_MAX_def)
  show "\<exists>x. drive_ac env s v = Some x"
    using assms i by (auto simp: drive_ac_def init_ac_actuator_def set_ac_actuator_def ac_command_fits Let_def)
  show "\<exists>x. drive_fan env s v = Some x"
    using assms by (auto simp: drive_fan_def init_fan_actuator_def set_fan_actuator_def fan_command_fits Let_def)
  show "drive_led env s v = None \<longleftrightarrow> 0 \<le> open_device (fst (p_open env)) (snd (p_open env)) \<and> 2147 < \<bar>v\<bar>"
    by (auto simp: drive_led_def init_led_actuator_def set_led_actuator_cases Let_def)
qed

definition task_ok :: "task \<Rightarrow> bool" where
  "task_ok t = (length (t_payload t) = MAX_PAYLOAD \<and> t_length t \<le> MAX_PAYLOAD)"

text \<open>The request that overflows: a brightness beyond 2147 for an LED device that could be opened.\<close>

definition overflows :: "hw_env \<Rightarrow> task \<Rightarrow> bool" where
  "overflows env t = (t_type t = MSG_SET_ACTUATOR \<and> 0 \<le> open_device (fst (p_open env)) (snd (p_open env)) \<and>
     (\<exists>s v. json_parse_set_actuator_req (p_parse env) (Some (t_payload t)) (t_length t) = Some (Some (LED_ACTUATOR_ID, s, v)) \<and> 2147 < \<bar>v\<bar>))"

definition handled :: "task \<Rightarrow> response heap \<Rightarrow> ((addr option \<times> response heap) \<times> bytes option) option \<Rightarrow> bool" where
  "handled t h r = (\<exists>res cmd. r = Some (res, cmd) \<and> responds t h (Some res))"

lemma told_handled: "responds t h r \<Longrightarrow> handled t h (told cmd r)"
proof (cases r)
  case None
  then show "responds t h r \<Longrightarrow> handled t h (told cmd r)" by (simp add: responds_def)
next
  case (Some res)
  then show "responds t h r \<Longrightarrow> handled t h (told cmd r)" by (simp add: handled_def told_def)
qed

lemma drive_actuator_handled:
  assumes env: "hw_env_ok env h" and "is_int s" and "is_int v"
  shows "if d = LED_ACTUATOR_ID \<and> 0 \<le> open_device (fst (p_open env)) (snd (p_open env)) \<and> 2147 < \<bar>v\<bar>
    then drive_actuator env t (d, s, v) h = None else handled t h (drive_actuator env t (d, s, v) h)"
proof -
  have e: "responds t h (make_error_response (p_err env) t c m h)" for c m using env by (simp add: hw_env_ok_def make_error_responds)
  have f: "responds t h (finish_response env t (json_build_actuator_resp (p_build env) (p_resp_buf env) m) h)" for m
    by (intro finish_built [OF env] build_reply)
  have ids: "AC_ACTUATOR_ID \<noteq> LED_ACTUATOR_ID" "FAN_ACTUATOR_ID \<noteq> LED_ACTUATOR_ID" "FAN_ACTUATOR_ID \<noteq> AC_ACTUATOR_ID"
    by (simp_all add: AC_ACTUATOR_ID_def LED_ACTUATOR_ID_def FAN_ACTUATOR_ID_def)
  have k: "handled t h (do { (ok, cmd) \<leftarrow> Some x; told cmd (if \<not> ok then make_error_response (p_err env) t ERR_UNKNOWN_TYPE ''actuator_hardware_control_fail'' h
      else finish_response env t (json_build_actuator_resp (p_build env) (p_resp_buf env) (Some (ascii ''actuator_control_success''))) h) })" for x
    using e f by (auto simp: split_beta intro!: told_handled)
  note dd = drive_defined [OF assms(2,3), of env]
  consider "d = AC_ACTUATOR_ID" | "d = LED_ACTUATOR_ID" | "d = FAN_ACTUATOR_ID" | "d \<notin> {AC_ACTUATOR_ID, LED_ACTUATOR_ID, FAN_ACTUATOR_ID}" by blast
  then show ?thesis
  proof cases
    case 1
    then show ?thesis using dd(1) k ids by (auto simp: drive_actuator_def)
  next
    case 2
    then show ?thesis using dd(3) k ids by (cases "drive_led env s v") (auto simp: drive_actuator_def)
  next
    case 3
    then show ?thesis using dd(2) k ids by (auto simp: drive_actuator_def)
  next
    case 4
    then show ?thesis using e told_handled by (simp add: drive_actuator_def)
  qed
qed

lemma process_handled:
  assumes env: "hw_env_ok env h" and t: "task_ok t"
  shows "if overflows env t then process_hardware_task env t h = None else handled t h (process_hardware_task env t h)"
proof -
  have e: "handled t h (told None (make_error_response (p_err env) t c m h))" for c m
    using env by (intro told_handled) (simp add: hw_env_ok_def make_error_responds)
  have len: "t_length t \<le> length (t_payload t)" using t by (simp add: task_ok_def)
  have types: "MSG_ECHO \<noteq> MSG_STATUS" "MSG_GET_SENSOR \<noteq> MSG_ECHO" "MSG_GET_SENSOR \<noteq> MSG_STATUS" "MSG_SET_ACTUATOR \<noteq> MSG_ECHO"
    "MSG_SET_ACTUATOR \<noteq> MSG_STATUS" "MSG_SET_ACTUATOR \<noteq> MSG_GET_SENSOR"
    by (simp_all add: MSG_ECHO_def MSG_STATUS_def MSG_GET_SENSOR_def MSG_SET_ACTUATOR_def)
  consider "t_type t = MSG_ECHO" | "t_type t = MSG_STATUS" | "t_type t = MSG_GET_SENSOR" | "t_type t = MSG_SET_ACTUATOR"
    | "t_type t \<notin> {MSG_ECHO, MSG_STATUS, MSG_GET_SENSOR, MSG_SET_ACTUATOR}" by blast
  then show ?thesis
  proof cases
    case 1
    obtain r where r: "json_parse_echo_req (p_parse env) (Some (t_payload t)) (t_length t) (p_msg_in env) = Some r" using parse_echo_total [OF len] by blast
    have "responds t h (finish_response env t (json_build_echo_resp (p_build env) (p_resp_buf env) m) h)" for m
      by (intro finish_built [OF env] build_reply)
    then show ?thesis using 1 r e types told_handled by (cases r) (auto simp: process_hardware_task_def overflows_def)
  next
    case 2
    have "responds t h (finish_response env t (json_build_status_resp (p_build env) (p_resp_buf env) n w) h)" for n w
      by (intro finish_built [OF env] build_reply)
    then show ?thesis using 2 types told_handled by (simp add: process_hardware_task_def overflows_def)
  next
    case 3
    obtain r where "json_parse_get_sensor_req (p_parse env) (Some (t_payload t)) (t_length t) = Some r" using parse_numbers_total [OF len] by blast
    then show ?thesis using 3 e types told_handled [OF read_sensor_responds [OF env]] by (cases r) (simp_all add: process_hardware_task_def overflows_def)
  next
    case 4
    obtain r where r: "json_parse_set_actuator_req (p_parse env) (Some (t_payload t)) (t_length t) = Some r" using parse_numbers_total [OF len] by blast
    show ?thesis
    proof (cases r)
      case (Some q)
      obtain d s v where q: "q = (d, s, v)" by (cases q)
      have i: "is_int s" "is_int v" using set_actuator_ints r Some q by blast+
      show ?thesis using drive_actuator_handled [OF env i, of d t] 4 r Some q types by (auto simp: process_hardware_task_def overflows_def split: if_splits)
    qed (use 4 r e types in \<open>simp add: process_hardware_task_def overflows_def\<close>)
  next
    case 5
    then show ?thesis using e by (simp add: process_hardware_task_def overflows_def)
  qed
qed

section \<open>Exact answers when no allocation fails\<close>

definition plenty :: "hw_env \<Rightarrow> bool" where
  "plenty env = (p_parse env = always \<and> p_build env = always \<and> x_al (p_err env) = always \<and> x_al' (p_err env) = always \<and>
     p_blk env \<noteq> None \<and> x_blk (p_err env) = p_blk env)"

lemma make_response_fits:
  assumes "block_ok (Some (a, b)) h" and "take (length text) buf = text" and "length text \<le> MAX_PAYLOAD"
  shows "\<exists>r. make_response (Some (a, b)) (t_slot t) (t_generation t) ty (t_request_id t) (Some buf) (word_of_int (int (length text))) h = Some (Some a, h(a \<mapsto> r)) \<and> carries t ty text r"
  using make_response_sends [OF assms, of t ty] by (simp add: sends_def)

lemma err_num_int: "is_int (int (err_num code))"
  by (cases code) (simp_all add: is_int_def INT_MIN_def INT_MAX_def)

lemma make_error_exact:
  assumes env: "err_env_ok env h" and al: "x_al env = always" and blk: "x_blk env = Some (a, b)"
    and fits: "length (error_text (int (err_num code)) (ascii msg)) + 2 \<le> 128"
  shows "\<exists>r. make_error_response env t code msg h = Some (Some a, h(a \<mapsto> r)) \<and> carries t MSG_ERROR (error_text (int (err_num code)) (ascii msg)) r"
proof -
  have l: "length (x_buf env) = 128" and b: "block_ok (Some (a, b)) h" using env blk by (simp_all add: err_env_ok_def)
  let ?x = "error_text (int (err_num code)) (ascii msg)"
  have "answers (x_buf env) ?x (json_build_error_resp always (x_buf env) (int (err_num code)) (Some (ascii msg)))"
    using l by (intro build_error_answers err_num_int) (simp add: INT_MAX_def)
  then obtain out where "json_build_error_resp always (x_buf env) (int (err_num code)) (Some (ascii msg)) = Some (int (length ?x), out)" "take (length ?x) out = ?x"
    using fits l by (auto simp: answers_def)
  moreover from this(2) have "\<exists>r. make_response (Some (a, b)) (t_slot t) (t_generation t) MSG_ERROR (t_request_id t) (Some out) (word_of_int (int (length ?x))) h = Some (Some a, h(a \<mapsto> r)) \<and> carries t MSG_ERROR ?x r"
    using fits by (intro make_response_fits [OF b]) (simp_all add: MAX_PAYLOAD_def)
  ultimately show ?thesis using al blk by (simp add: make_error_response_def)
qed

definition too_large :: bytes where
  "too_large = error_text (int (err_num ERR_BAD_JSON)) (ascii ''response_too_large'')"

text \<open>The answer to a request whose answer's text would be \<open>x\<close>: the buffer has 256 bytes and \<open>cJSON_PrintPreallocated\<close> wants two spare ones.\<close>

definition answer_type :: "bytes \<Rightarrow> u16" where
  "answer_type x = (if length x + 2 \<le> 256 then MSG_RESPONSE else MSG_ERROR)"

definition answer_text :: "bytes \<Rightarrow> bytes" where
  "answer_text x = (if length x + 2 \<le> 256 then x else too_large)"

lemma too_large_text: "too_large = ascii ''{\"status\":\"error\",\"error_code\":10,\"message\":\"response_too_large\"}''"
  by (simp add: too_large_def error_text_def dec_text_def) (simp add: ascii_def quoted_def cstr_def escape_byte_def word_less_nat_alt nat_digits.simps)

lemma too_large_length: "length too_large = 65"
  unfolding too_large_text by simp

lemma finish_exact:
  assumes env: "hw_env_ok env h" "plenty env" "p_blk env = Some (a, b)"
    and r: "int (length (p_resp_buf env)) \<le> INT_MAX \<Longrightarrow> answers (p_resp_buf env) x r"
  shows "\<exists>rp. finish_response env t r h = Some (Some a, h(a \<mapsto> rp)) \<and> carries t (answer_type x) (answer_text x) rp"
proof -
  have l: "length (p_resp_buf env) = 256" and e: "err_env_ok (p_err env) h" and b: "block_ok (Some (a, b)) h"
    using env by (simp_all add: hw_env_ok_def)
  from r l obtain out where out: "r = Some (if length x + 2 \<le> 256 then int (length x) else -1, out)" "length x + 2 \<le> 256 \<longrightarrow> take (length x) out = x"
    by (auto simp: answers_def INT_MAX_def)
  show ?thesis
  proof (cases "length x + 2 \<le> 256")
    case True
    then show ?thesis using out make_response_fits [OF b, of x out t MSG_RESPONSE] env(3)
      by (simp add: finish_response_def answer_type_def answer_text_def MAX_PAYLOAD_def)
  next
    case False
    have "\<exists>rp. make_error_response (p_err env) t ERR_BAD_JSON ''response_too_large'' h = Some (Some a, h(a \<mapsto> rp)) \<and> carries t MSG_ERROR too_large rp"
      unfolding too_large_def using env too_large_length [unfolded too_large_def]
      by (intro make_error_exact [OF e]) (simp_all add: plenty_def)
    then show ?thesis using False out by (simp add: finish_response_def answer_type_def answer_text_def)
  qed
qed

definition echo_text :: "bytes \<Rightarrow> bytes" where
  "echo_text m = ascii ''{\"status\":\"ok\",\"msg\":'' @ quoted m @ ascii ''}''"

lemma echo_exact:
  assumes env: "hw_env_ok env h" "plenty env" "p_blk env = Some (a, b)"
    and t: "t_type t = MSG_ECHO" "peek 0 (t_length t) (t_payload t) = Some (json_text (cJSON_Object ms))"
    and ms: "readable (cJSON_Object ms)" "depth_ok 0 (cJSON_Object ms)" "find_member (ascii ''msg'') ms = Some (cJSON_String s)"
  shows "\<exists>r. process_hardware_task env t h = Some ((Some a, h(a \<mapsto> r)), None) \<and>
    carries t (answer_type (echo_text (take 127 (cstr s)))) (answer_text (echo_text (take 127 (cstr s)))) r"
proof -
  let ?m = "take 127 (cstr s)"
  have l: "length (p_msg_in env) = 128" using env by (simp add: hw_env_ok_def)
  then have "p_msg_in env \<noteq> []" by auto
  from parse_echo_object [OF ms(1,2) t(2) ms(3) this] l
  have p: "json_parse_echo_req always (Some (t_payload t)) (t_length t) (p_msg_in env) = Some (0, ?m @ 0 # drop (length ?m + 1) (p_msg_in env))"
    (is "_ = Some (0, ?b)") by simp
  have "0 \<notin> set (cstr s)" by (auto simp: cstr_def dest: set_takeWhileD)
  then have "0 \<notin> set ?m" by (meson in_set_takeD)
  then have "cstr ?b = cstr ?m" unfolding cstr_def by (subst (1 2) takeWhile_append2 takeWhile_eq_all_conv [THEN iffD2]) auto
  then have q: "quoted ?b = quoted ?m" by (metis quoted_cstr)
  have "answers (p_resp_buf env) (echo_text ?m) (json_build_echo_resp (p_build env) (p_resp_buf env) (Some ?b))" if "int (length (p_resp_buf env)) \<le> INT_MAX"
    using build_echo_answers [OF that, of ?b] env(2) q by (simp add: plenty_def echo_text_def)
  from finish_exact [OF env this, of t] show ?thesis
    using p t(1) env(2) by (auto simp: process_hardware_task_def told_def plenty_def)
qed

section \<open>A round of a worker\<close>

lemma responses_ok_values:
  "responses_ok h q = (\<exists>vs. response_values (rq_max_size q) (h, q) vs \<and> (\<forall>v \<in> set vs. response_ok v))"
proof
  assume "responses_ok h q"
  then obtain as where as: "response_holds (h, q) as" "\<forall>a \<in> set as. \<exists>r. h a = Some r \<and> response_ok r" by (auto simp: responses_ok_def)
  let ?vs = "map (\<lambda>a. response_content (the (h a))) as"
  have "map (\<lambda>a. map_option response_content (h a)) as = map Some ?vs" using as(2) by fastforce
  moreover have "\<forall>v \<in> set ?vs. response_ok v" using as(2) by (fastforce simp: response_ok_def response_content_def)
  ultimately show "\<exists>vs. response_values (rq_max_size q) (h, q) vs \<and> (\<forall>v \<in> set vs. response_ok v)"
    using as(1) unfolding response_values_def by (intro exI [of _ ?vs] conjI exI [of _ as]) simp_all
next
  assume "\<exists>vs. response_values (rq_max_size q) (h, q) vs \<and> (\<forall>v \<in> set vs. response_ok v)"
  then obtain vs as where as: "response_holds (h, q) as" "map (\<lambda>a. map_option response_content (h a)) as = map Some vs" "\<forall>v \<in> set vs. response_ok v"
    by (auto simp: response_values_def)
  have "\<exists>r. h a = Some r \<and> response_ok r" if "a \<in> set as" for a
  proof -
    have "map_option response_content (h a) \<in> Some ` set vs" using that as(2) by (metis (no_types, lifting) image_eqI image_set)
    then obtain r where "h a = Some r" "response_content r \<in> set vs" by auto
    then show ?thesis using as(3) by (auto simp: response_ok_def response_content_def)
  qed
  with as(1) show "responses_ok h q" by (auto simp: responses_ok_def)
qed

text \<open>Pushing a response at a fresh address and, when the queue is full, freeing it again.\<close>

lemma push_response:
  assumes v: "response_values n (h, q) vs" and a: "h a = None"
  shows "\<exists>ret h' q'. response_queue_push (h(a \<mapsto> r)) q (Some a) = Some (ret, h', q') \<and> (ret = 0 \<longleftrightarrow> length vs < n) \<and>
    response_values n (if ret = 0 then h' else h'(a := None), q') (if ret = 0 then vs @ [response_content r] else vs) \<and> rq_max_size q' = n"
proof (cases "length vs < n")
  case True
  from response_put_room [OF v _ True, of "(a, r)"] a obtain s' where "response_put (a, r) (h, q) = Some (True, s')" "response_values n s' (vs @ [response_content r])"
    by (auto simp: response_fresh_def)
  then show ?thesis using True by (auto simp: response_put_def response_values_def split: bind_splits)
next
  case False
  then have "length vs = n" using response_values_length [OF v] by simp
  moreover from v have "length vs = rq_size q" "rq_max_size q = n" by (auto simp: response_values_def response_holds_def dest: map_eq_imp_length_eq)
  moreover have "(h(a \<mapsto> r))(a := None) = h" using a by auto
  ultimately show ?thesis using v by (simp add: response_push_full EAGAIN_num_def)
qed

lemma carries_content [simp]: "carries t ty text (response_content r) = carries t ty text r"
  by (simp add: carries_def response_content_def)

lemma carries_ok: "carries t ty text r \<Longrightarrow> response_ok r"
  by (auto simp: carries_def response_ok_def) (metis length_take min.cobounded1)

definition notified :: "errno option list \<Rightarrow> bool" where
  "notified ws = (\<exists>w \<in> set ws. w \<noteq> Some EINTR)"

lemma notify_returns: "notified ws \<Longrightarrow> \<exists>n. notify_main_thread fd ws = Some n"
proof (induction ws)
  case (Cons w ws)
  then show ?case by (cases w) (auto simp: notified_def notify_main_thread.simps [of fd "_ # _"])
qed (simp add: notified_def)

definition work_env_ok :: "work_env \<Rightarrow> server \<Rightarrow> bool" where
  "work_env_ok env sv = (hw_env_ok (k_hw env) (m_responses sv) \<and> err_env_ok (k_late env) (m_responses sv) \<and> notified (k_notify env))"

text \<open>At most one response is added, and it answers \<open>t\<close>.\<close>

definition answered :: "task \<Rightarrow> response list \<Rightarrow> response list \<Rightarrow> bool" where
  "answered t vs vs' = (vs' = vs \<or> (\<exists>r ty text. vs' = vs @ [r] \<and> ty \<in> {MSG_RESPONSE, MSG_ERROR} \<and> carries t ty text r))"

lemma late_responds:
  assumes "responds t h (Some (resp, h'))" and "err_env_ok env h"
  shows "responds t h (make_error_response env t code msg (case resp of None \<Rightarrow> h' | Some b \<Rightarrow> h'(b := None)))"
proof -
  have "(case resp of None \<Rightarrow> h' | Some b \<Rightarrow> h'(b := None)) = h" using assms(1) by (auto simp: responds_def)
  then show ?thesis using make_error_responds [OF assms(2)] by simp
qed

lemma worker_push:
  assumes r: "responds t h (Some (resp, h'))" and v: "response_values n (h, q) vs" and w: "notified ws"
  shows "\<exists>h'' q' vs'. (case resp of None \<Rightarrow> Some (h', q)
      | Some b \<Rightarrow> do { (ret, h, q) \<leftarrow> response_queue_push h' q (Some b);
          if ret \<noteq> 0 then Some (h(b := None), q) else do { n \<leftarrow> notify_main_thread fd ws; Some (h, q) } }) = Some (h'', q') \<and>
    response_values n (h'', q') vs' \<and> rq_max_size q' = n \<and> answered t vs vs' \<and>
    (\<forall>b x. resp = Some b \<longrightarrow> h' b = Some x \<longrightarrow> length vs < n \<longrightarrow> vs' = vs @ [response_content x])"
proof (cases resp)
  case None
  moreover from this r have "h' = h" by (simp add: responds_def)
  moreover have "rq_max_size q = n" using v by (auto simp: response_values_def)
  ultimately show ?thesis using v by (intro exI [of _ h] exI [of _ q] exI [of _ vs]) (simp add: answered_def)
next
  case (Some b)
  with r obtain x ty m where x: "h' = h(b \<mapsto> x)" "h b = None" "ty \<in> {MSG_RESPONSE, MSG_ERROR}" "carries t ty m x" by (auto simp: responds_def)
  from push_response [OF v x(2), of x, folded x(1)] obtain ret h2 q2 where
    p: "response_queue_push h' q (Some b) = Some (ret, h2, q2)" "ret = 0 \<longleftrightarrow> length vs < n" "rq_max_size q2 = n"
    "response_values n (if ret = 0 then h2 else h2(b := None), q2) (if ret = 0 then vs @ [response_content x] else vs)" by blast
  obtain m where m: "notify_main_thread fd ws = Some m" using notify_returns [OF w] by blast
  have "answered t vs (vs @ [response_content x])" using x(3,4) by (auto simp: answered_def)
  moreover have "answered t vs vs" by (simp add: answered_def)
  moreover have "h' b = Some x" using x(1) by simp
  ultimately show ?thesis using p Some m by (cases "ret = 0") (simp_all, blast)
qed

lemma worker_handle_spec:
  assumes inv: "sv_inv sv" and t: "m_tasks sv a = Some t" "task_ok t" and env: "work_env_ok env sv"
    and v: "response_values n (m_responses sv, sv_response sv) vs"
  shows "if k_now env \<le> t_timeout_ms t \<and> overflows (k_hw env) t then worker_handle env a sv = None
    else \<exists>cmd sv' vs'. worker_handle env a sv = Some (cmd, sv') \<and> sv_inv sv' \<and>
      sv' = sv \<lparr> m_tasks := (m_tasks sv)(a := None), m_responses := m_responses sv', sv_response := sv_response sv' \<rparr> \<and>
      response_values n (m_responses sv', sv_response sv') vs' \<and>
      (if k_now env > t_timeout_ms t then vs' = vs else answered t vs vs')"
proof -
  have upd: "sv_inv (sv \<lparr> m_tasks := (m_tasks sv)(a := None), m_responses := h, sv_response := q \<rparr>)"
    if "response_values n (h, q) vs'" "answered t vs vs'" "rq_max_size q = n" for h q vs'
  proof -
    have "\<forall>x \<in> set vs. response_ok x"
    proof -
      from inv obtain us where "response_values (rq_max_size (sv_response sv)) (m_responses sv, sv_response sv) us" "\<forall>x \<in> set us. response_ok x"
        by (auto simp: sv_inv_def responses_ok_values)
      moreover from this(1) v have "us = vs" by (auto simp: response_values_def dest: response_holds_unique)
      ultimately show ?thesis by simp
    qed
    with that(2) have "\<forall>x \<in> set vs'. response_ok x" by (auto simp: answered_def dest: carries_ok)
    then show ?thesis using inv that(1,3) by (auto simp: sv_inv_def responses_ok_values)
  qed
  have hw: "hw_env_ok (k_hw env) (m_responses sv)" and late: "err_env_ok (k_late env) (m_responses sv)" and w: "notified (k_notify env)"
    using env by (simp_all add: work_env_ok_def)
  have v0: "answered t vs vs" "rq_max_size (sv_response sv) = n" using v by (auto simp: answered_def response_values_def)
  consider "k_now env > t_timeout_ms t" | "k_now env \<le> t_timeout_ms t" "overflows (k_hw env) t" | "k_now env \<le> t_timeout_ms t" "\<not> overflows (k_hw env) t"
    by fastforce
  then show ?thesis
  proof cases
    case 1
    then show ?thesis using t v upd [OF v v0] by (auto simp: worker_handle_def Let_def)
  next
    case 2
    then show ?thesis using t process_handled [OF hw t(2)] by (simp add: worker_handle_def Let_def)
  next
    case 3
    with process_handled [OF hw t(2)] obtain r0 h0 cmd where p: "process_hardware_task (k_hw env) t (m_responses sv) = Some ((r0, h0), cmd)"
      and r0: "responds t (m_responses sv) (Some (r0, h0))" by (auto simp: handled_def)
    obtain r1 h1 where l: "(if k_now' env > t_timeout_ms t then make_error_response (k_late env) t ERR_TIMEOUT ''processing_timeout''
        (case r0 of None \<Rightarrow> h0 | Some b \<Rightarrow> h0(b := None)) else Some (r0, h0)) = Some (r1, h1)"
      and r1: "responds t (m_responses sv) (Some (r1, h1))"
    proof (cases "k_now' env > t_timeout_ms t")
      case True
      note lr = late_responds [OF r0 late, of ERR_TIMEOUT "''processing_timeout''"]
      from responds_defined [OF lr] lr True that show ?thesis by auto
    qed (use r0 that in simp)
    from worker_push [OF r1 v w, of "sv_event_fd sv"] obtain h2 q2 vs' where
      k: "(case r1 of None \<Rightarrow> Some (h1, sv_response sv)
        | Some b \<Rightarrow> do { (ret, h, q) \<leftarrow> response_queue_push h1 (sv_response sv) (Some b);
            if ret \<noteq> 0 then Some (h(b := None), q) else do { n \<leftarrow> notify_main_thread (sv_event_fd sv) (k_notify env); Some (h, q) } }) = Some (h2, q2)"
      and v': "response_values n (h2, q2) vs'" "answered t vs vs'" "rq_max_size q2 = n" by blast
    have "worker_handle env a sv = Some (cmd, sv \<lparr> m_tasks := (m_tasks sv)(a := None), m_responses := h2, sv_response := q2 \<rparr>)"
      using 3 t(1) p by (simp add: worker_handle_def Let_def not_less [symmetric] l k)
    then show ?thesis using 3 v' upd [OF v'] by auto
  qed
qed

text \<open>A task handled in time, with memory and room in the queue, is answered.\<close>

lemma worker_handle_exact:
  assumes p: "process_hardware_task (k_hw env) t (m_responses sv) = Some ((Some b, (m_responses sv)(b \<mapsto> r)), cmd)"
    and t: "m_tasks sv a = Some t" "k_now env \<le> t_timeout_ms t" "k_now' env \<le> t_timeout_ms t"
    and v: "response_values n (m_responses sv, sv_response sv) vs" "length vs < n" and b: "m_responses sv b = None" "notified (k_notify env)"
  shows "\<exists>h q. worker_handle env a sv = Some (cmd, sv \<lparr> m_tasks := (m_tasks sv)(a := None), m_responses := h, sv_response := q \<rparr>) \<and>
    response_values n (h, q) (vs @ [response_content r])"
proof -
  from push_response [OF v(1) b(1), of r] v(2) obtain h q where
    "response_queue_push ((m_responses sv)(b \<mapsto> r)) (sv_response sv) (Some b) = Some (0, h, q)" "response_values n (h, q) (vs @ [response_content r])"
    by auto
  moreover obtain m where "notify_main_thread (sv_event_fd sv) (k_notify env) = Some m" using notify_returns [OF b(2)] by blast
  ultimately show ?thesis using p t by (intro exI [of _ h] exI [of _ q]) (simp add: worker_handle_def Let_def not_less [symmetric])
qed

section \<open>Properties\<close>


definition sample_hw :: hw_env where
  "sample_hw = \<lparr> p_parse = always, p_build = always,
     p_err = \<lparr> x_al = always, x_al' = always, x_buf = replicate 128 0,
       x_blk = Some (5, \<lparr> r_slot = 0, r_generation = 0, r_type = 0, r_request_id = 0, r_length = 0, r_payload = replicate 4096 0, r_next_response = None \<rparr>) \<rparr>,
     p_blk = Some (5, \<lparr> r_slot = 0, r_generation = 0, r_type = 0, r_request_id = 0, r_length = 0, r_payload = replicate 4096 0, r_next_response = None \<rparr>),
     p_resp_buf = replicate 256 0, p_msg_in = replicate 128 0, p_now = 0, p_open = (3, 4), p_read = None, p_scan = (\<lambda>_. None), p_write = 0,
     p_aht30 = \<lparr> aht_base = \<lparr> s_state = 0, s_last_control_ms = 0, s_fd = 0 \<rparr>, temperature = NaN, humidity = NaN \<rparr>,
     p_bh1750 = \<lparr> bh_base = \<lparr> s_state = 0, s_last_control_ms = 0, s_fd = 0 \<rparr>, lux = NaN \<rparr>,
     p_ac = \<lparr> ac_base = \<lparr> ac_state = 0, ac_setpoint = Fin 0, ac_fd = 0 \<rparr>, swing = 0, fan_level = 0 \<rparr>, p_led = \<lparr> led_base = \<lparr> ac_state = 0, ac_setpoint = Fin 0, ac_fd = 0 \<rparr>, brightness_percent = 0 \<rparr>,
     p_fan = \<lparr> fan_base = \<lparr> ac_state = 0, ac_setpoint = Fin 0, ac_fd = 0 \<rparr>, speed_rpm = 0 \<rparr> \<rparr>"

lemma sample_hw_ok: "h 5 = None \<Longrightarrow> hw_env_ok sample_hw h" "plenty sample_hw"
  by (simp_all add: sample_hw_def hw_env_ok_def err_env_ok_def block_ok_def plenty_def MAX_PAYLOAD_def)

definition echo_task :: task where
  "echo_task = \<lparr> t_slot = 0, t_task_id = 0, t_generation = 1, t_type = MSG_ECHO, t_request_id = 9,
     t_payload = ascii ''{\"msg\":\"hi\"}'' @ replicate 4084 0, t_timeout_ms = 5000, t_next_task = None, t_length = 12 \<rparr>"

lemma echo_task_ok: "task_ok echo_task" "\<not> overflows env echo_task"
  by (simp_all add: echo_task_def task_ok_def overflows_def MAX_PAYLOAD_def MSG_ECHO_def MSG_SET_ACTUATOR_def)


text \<open>
  C7. An echo request is answered with its own message, cut to 127 bytes and up to a terminating
  zero, when memory is available; if the escaped text does not fit the 256-byte buffer the answer
  is the error \<open>response_too_large\<close>.
\<close>

theorem echo_correct:
  assumes "hw_env_ok env h" and "plenty env"
    and "t_type t = MSG_ECHO" and "peek 0 (t_length t) (t_payload t) = Some (json_text (cJSON_Object ms))"
    and "readable (cJSON_Object ms)" and "depth_ok 0 (cJSON_Object ms)" and "find_member (ascii ''msg'') ms = Some (cJSON_String s)"
  shows "\<exists>a r. process_hardware_task env t h = Some ((Some a, h(a \<mapsto> r)), None) \<and> h a = None \<and>
    (let x = echo_text (take 127 (cstr s)) in
     if length x + 2 \<le> 256 then carries t MSG_RESPONSE x r
     else carries t MSG_ERROR (ascii ''{\"status\":\"error\",\"error_code\":10,\"message\":\"response_too_large\"}'') r)"
proof -
  from assms(2) obtain a b where b: "p_blk env = Some (a, b)" by (auto simp: plenty_def)
  then have "h a = None" using assms(1) by (simp add: hw_env_ok_def block_ok_def)
  moreover from echo_exact [OF assms(1,2) b assms(3-7)] obtain r where
    "process_hardware_task env t h = Some ((Some a, h(a \<mapsto> r)), None)"
    "carries t (answer_type (echo_text (take 127 (cstr s)))) (answer_text (echo_text (take 127 (cstr s)))) r" by blast
  ultimately show ?thesis
    unfolding Let_def by (intro exI [of _ a] exI [of _ r]) (simp add: answer_type_def answer_text_def too_large_text split: if_splits)
qed

lemma sample_payload: "json_text (cJSON_Object [(ascii ''msg'', cJSON_String (ascii ''hi''))]) = ascii ''{\"msg\":\"hi\"}''"
  by (simp add: ascii_def quoted_def cstr_def escape_byte_def word_less_nat_alt)

theorem echo_correct_witness:
  "\<exists>a r. process_hardware_task sample_hw echo_task Map.empty = Some ((Some a, [a \<mapsto> r]), None) \<and>
    carries echo_task MSG_RESPONSE (ascii ''{\"status\":\"ok\",\"msg\":\"hi\"}'') r"
proof -
  have m: "echo_text (take 127 (cstr (ascii ''hi''))) = ascii ''{\"status\":\"ok\",\"msg\":\"hi\"}''"
    by (simp add: echo_text_def ascii_def quoted_def cstr_def escape_byte_def word_less_nat_alt)
  have p: "peek 0 (t_length echo_task) (t_payload echo_task) = Some (json_text (cJSON_Object [(ascii ''msg'', cJSON_String (ascii ''hi''))]))"
    unfolding sample_payload by (simp add: echo_task_def peek_def)
  have r: "readable (cJSON_Object [(ascii ''msg'', cJSON_String (ascii ''hi''))])" "depth_ok 0 (cJSON_Object [(ascii ''msg'', cJSON_String (ascii ''hi''))])"
    by (simp_all add: CJSON_NESTING_LIMIT_def ascii_def)
  from echo_correct [OF sample_hw_ok(1,2) _ p r, of Map.empty "ascii ''hi''"] show ?thesis
    by (simp add: m echo_task_def)
qed


definition sample_work :: work_env where
  "sample_work = \<lparr> k_now = 0, k_now' = 0, k_hw = sample_hw, k_late = p_err sample_hw, k_notify = [Some EINTR, None] \<rparr>"

lemma sample_work_ok: "m_responses sv 5 = None \<Longrightarrow> work_env_ok sample_work sv"
  using sample_hw_ok(1) [of "m_responses sv"] by (simp add: work_env_ok_def sample_work_def notified_def hw_env_ok_def)


end
