(* ===== verification/Gateway.thy ===== *)
theory Gateway
  imports Worker
begin

unbundle bit_operations_syntax

text \<open>
  The threads of the gateway together: the event loop \<open>main_thread\<close>, the workers and
  \<open>signal_thread\<close> (\<open>gateway/src/worker_thread.c\<close>), started by \<open>server_run\<close>
  (\<open>gateway/src/server.c\<close>). The connections are read and written through \<open>io_rd\<close> and \<open>io_tx\<close>, one
  stream for each descriptor. A step of the system is one event of the loop, one pass of
  \<open>reap_client\<close>, a worker taking or handling a task, a signal, or the network.
\<close>

section \<open>The code\<close>

text \<open>Bits of \<open>epoll_event.events\<close>\<close>

definition EV_IN :: u32 where "EV_IN = 0x001"
definition EV_OUT :: u32 where "EV_OUT = 0x004"
definition EV_ERR :: u32 where "EV_ERR = 0x008"
definition EV_HUP :: u32 where "EV_HUP = 0x010"

lemmas ev_consts = EV_IN_def EV_OUT_def EV_ERR_def EV_HUP_def

record epoll_event =
  ev_fd :: int
  ev_events :: u32

record ('r, 'w) io =
  io_rd :: "int \<Rightarrow> 'r reader"
  io_tx :: "int \<Rightarrow> (ssl_error, 'w) sender"

text \<open>The answers of the calls the handlers make during one event.\<close>

record ev_env =
  v_accept :: accept_env
  v_dgram :: rx_result
  v_sent :: int
  v_allocs :: allocations
  v_hs_in :: handshake
  v_now :: u64
  v_now' :: u64
  v_read :: read_env
  v_hs_out :: handshake
  v_now_out :: u64

text \<open>
  One round of the loop over \<open>events\<close> in \<open>main_thread\<close>, with fuel \<open>k\<close> for the loops of the handlers.
  The result has the datagram sent by \<open>handle_discovery\<close>, if any.
\<close>

definition connection_part ::
  "nat \<Rightarrow> ('r, 'w) io \<Rightarrow> ev_env \<Rightarrow> epoll_event \<Rightarrow> 'r \<times> 'w \<times> server \<Rightarrow> (bytes option \<times> 'r \<times> 'w \<times> server) option" where
  "connection_part k io env e st =
     (case st of (r, w, sv) \<Rightarrow> let fd = ev_fd e; ev = ev_events e in do {
        slot \<leftarrow> fd_to_slot (sv_clients sv) fd (int MAX_CLIENTS);
        if slot < 0 then Some (None, r, w, sv)
        else if fd = c_fd (sv_clients sv ! nat slot) \<and> ev AND (EV_HUP OR EV_ERR) \<noteq> 0 then do {
          sv \<leftarrow> drop_client sv (nat slot);
          Some (None, r, w, sv)
        }
        else do {
          (r, sv) \<leftarrow> (if fd = c_fd (sv_clients sv ! nat slot) \<and> ev AND EV_IN \<noteq> 0 then do {
                       (ret, r, sv) \<leftarrow> handle_request_client k (io_rd io fd) (v_hs_in env) (v_now env) (v_now' env)
                                        (v_read env) r sv fd;
                       Some (r, sv)
                     } else Some (r, sv));
          (w, sv) \<leftarrow> (if fd = c_fd (sv_clients sv ! nat slot) \<and> ev AND EV_OUT \<noteq> 0 \<and> c_fd (sv_clients sv ! nat slot) \<ge> 0 then do {
                       (ret, w, sv) \<leftarrow> handle_client_sendable k k (io_tx io fd) (v_hs_out env) (v_now_out env) w sv fd;
                       Some (w, sv)
                     } else Some (w, sv));
          Some (None, r, w, sv)
        }
      })"

definition handle_event ::
  "nat \<Rightarrow> ('r, 'w) io \<Rightarrow> ev_env \<Rightarrow> epoll_event \<Rightarrow> 'r \<times> 'w \<times> server \<Rightarrow> (bytes option \<times> 'r \<times> 'w \<times> server) option" where
  "handle_event k io env e st =
     (case st of (r, w, sv) \<Rightarrow> let fd = ev_fd e; ev = ev_events e in
      if sv_listen_fd sv = fd \<and> ev AND EV_IN \<noteq> 0 then do {
        (ret, sv) \<leftarrow> handle_accept_client (v_accept env) sv;
        Some (None, r, w, sv)
      }
      else if sv_broadcast_fd sv = fd \<and> ev AND EV_IN \<noteq> 0 then
        Some (snd (handle_discovery (v_dgram env) (v_sent env)), r, w, sv)
      else if sv_event_fd sv = fd \<and> ev AND EV_IN \<noteq> 0 then do {
        (ret, sv) \<leftarrow> handle_response_to_client k (v_allocs env) sv;
        Some (None, r, w, sv)
      }
      else connection_part k io env e st)"

fun handle_events ::
  "nat \<Rightarrow> ('r, 'w) io \<Rightarrow> (ev_env \<times> epoll_event) list \<Rightarrow> 'r \<times> 'w \<times> server \<Rightarrow> ('r \<times> 'w \<times> server) option" where
  "handle_events k io [] st = Some st"
| "handle_events k io (x # xs) st = do { (d, st) \<leftarrow> handle_event k io (fst x) (snd x) st; handle_events k io xs st }"

text \<open>
  One round of the loop of \<open>main_thread\<close>: the answer of \<open>epoll_wait\<close>, a timeout being no events, and
  the clock in \<open>reap_client\<close>. The flag tells whether the loop ends.
\<close>

datatype wait_result = Wait_events "(ev_env \<times> epoll_event) list" | Wait_err errno

definition main_round :: "nat \<Rightarrow> ('r, 'w) io \<Rightarrow> wait_result \<Rightarrow> u64 \<Rightarrow> 'r \<times> 'w \<times> server \<Rightarrow> (bool \<times> 'r \<times> 'w \<times> server) option" where
  "main_round k io res now st =
     (let finish = (\<lambda>(r, w, sv). do { (ret, sv) \<leftarrow> reap_client now sv; Some (sv_shutdown sv, r, w, sv) }) in
      case res of
        Wait_err err \<Rightarrow> if err = EINTR then finish st else Some (True, st)
      | Wait_events xs \<Rightarrow> do { st \<leftarrow> handle_events k io xs st; finish st })"

text \<open>\<open>signal_thread\<close>: the answers of \<open>sigwaitinfo\<close>, \<open>None\<close> for a failure; without a further answer it is still waiting.\<close>

definition SIGINT :: nat where "SIGINT = 2"
definition SIGTERM :: nat where "SIGTERM = 15"

fun signal_thread :: "nat option list \<Rightarrow> server \<Rightarrow> bool \<times> server" where
  "signal_thread [] sv = (False, sv)"
| "signal_thread (None # xs) sv = signal_thread xs sv"
| "signal_thread (Some sig_num # xs) sv =
     (if sig_num = SIGTERM \<or> sig_num = SIGINT then (True, snd (server_shutdown sv)) else signal_thread xs sv)"

section \<open>The system\<close>

text \<open>The gateway with its streams and the tasks its workers hold.\<close>

record ('r, 'w) gateway =
  g_in :: 'r
  g_out :: 'w
  g_sv :: server
  g_busy :: "addr list"

definition gstate :: "('r, 'w) gateway \<Rightarrow> 'r \<times> 'w \<times> server" where
  "gstate g = (g_in g, g_out g, g_sv g)"

text \<open>
  What the answers during an event are known to be: fresh addresses for new blocks, blocks of the
  size asked for, descriptors from 0; and fuel for what there is to read, write and deliver.
\<close>

definition ev_env_ok :: "nat \<Rightarrow> (int \<Rightarrow> 'r \<Rightarrow> nat) \<Rightarrow> (int \<Rightarrow> 'w \<Rightarrow> nat) \<Rightarrow> ev_env \<Rightarrow> 'r \<times> 'w \<times> server \<Rightarrow> bool" where
  "ev_env_ok k rwork wwork env st =
     (case st of (r, w, sv) \<Rightarrow> rq_max_size (sv_response sv) + 2 \<le> k \<and> (\<forall>fd. rwork fd r < k) \<and> (\<forall>fd. wwork fd w < k) \<and>
        accept_env_ok (v_accept env) \<and> read_env_ok (v_read env) sv \<and> allocs_ok (v_allocs env) (m_data sv))"

inductive gw_step ::
  "('r, 'w) io \<Rightarrow> (int \<Rightarrow> 'r \<Rightarrow> nat) \<Rightarrow> (int \<Rightarrow> 'w \<Rightarrow> nat) \<Rightarrow> ('r, 'w) gateway \<Rightarrow> ('r, 'w) gateway \<Rightarrow> bool"
  for io rwork wwork where
  event: "ev_env_ok k rwork wwork env (gstate g) \<Longrightarrow> handle_event k io env e (gstate g) = Some (d, r, w, sv) \<Longrightarrow>
    gw_step io rwork wwork g (g \<lparr> g_in := r, g_out := w, g_sv := sv \<rparr>)"
| reap: "reap_client now (g_sv g) = Some (ret, sv) \<Longrightarrow> gw_step io rwork wwork g (g \<lparr> g_sv := sv \<rparr>)"
| take_task: "int (length (g_busy g)) < NUM_WORKERS \<Longrightarrow> worker_take (g_sv g) = Some (Returned (Some a), sv) \<Longrightarrow>
    gw_step io rwork wwork g (g \<lparr> g_sv := sv, g_busy := a # g_busy g \<rparr>)"
| handle_task: "a \<in> set (g_busy g) \<Longrightarrow> work_env_ok env (g_sv g) \<Longrightarrow> worker_handle env a (g_sv g) = Some (cmd, sv) \<Longrightarrow>
    gw_step io rwork wwork g (g \<lparr> g_sv := sv, g_busy := remove1 a (g_busy g) \<rparr>)"
| signal: "signal_thread xs (g_sv g) = (ended, sv) \<Longrightarrow> gw_step io rwork wwork g (g \<lparr> g_sv := sv \<rparr>)"
| network: "gw_step io rwork wwork g (g \<lparr> g_in := r, g_out := w \<rparr>)"

inductive gw_reach ::
  "('r, 'w) io \<Rightarrow> (int \<Rightarrow> 'r \<Rightarrow> nat) \<Rightarrow> (int \<Rightarrow> 'w \<Rightarrow> nat) \<Rightarrow> ('r, 'w) gateway \<Rightarrow> bool"
  for io rwork wwork where
  start: "server_init env fds = Some (0, sv, fds') \<Longrightarrow> gw_reach io rwork wwork \<lparr> g_in = r, g_out = w, g_sv = sv, g_busy = [] \<rparr>"
| step: "gw_reach io rwork wwork g \<Longrightarrow> gw_step io rwork wwork g g' \<Longrightarrow> gw_reach io rwork wwork g'"

section \<open>The task queue in every run\<close>

text \<open>
  Because \<open>push\<close> does not move the tail, the queue is empty; or its head is also its tail, with at
  most one task behind it; or its head is a lone task and the tail is a task that was taken before.
\<close>

definition queue_shape :: "task heap \<Rightarrow> task_queue \<Rightarrow> addr set \<Rightarrow> bool" where
  "queue_shape h q busy =
     (tq_head q = None \<and> tq_tail q = None \<or>
      (\<exists>a t. tq_head q = Some a \<and> tq_tail q = Some a \<and> h a = Some t \<and> a \<notin> busy \<and>
         (\<forall>b. t_next_task t = Some b \<longrightarrow> b \<noteq> a \<and> b \<notin> busy \<and> (\<exists>u. h b = Some u \<and> t_next_task u = None))) \<or>
      (\<exists>a b u. tq_tail q = Some a \<and> tq_head q = Some b \<and> a \<noteq> b \<and> b \<notin> busy \<and> h b = Some u \<and> t_next_task u = None))"

definition tasks_ok :: "task heap \<Rightarrow> bool" where
  "tasks_ok h = (\<forall>a t. h a = Some t \<longrightarrow> task_ok t)"

definition busy_ok :: "task heap \<Rightarrow> addr list \<Rightarrow> bool" where
  "busy_ok h busy = (distinct busy \<and> (\<forall>a \<in> set busy. h a \<noteq> None))"

definition tasks_inv :: "task heap \<Rightarrow> task_queue \<Rightarrow> addr list \<Rightarrow> bool" where
  "tasks_inv h q busy = (queue_shape h q (set busy) \<and> tasks_ok h \<and> busy_ok h busy)"

lemma task_ok_next [simp]: "task_ok (t \<lparr> t_next_task := p \<rparr>) = task_ok t"
  by (simp add: task_ok_def)

lemma push_inv:
  assumes inv: "tasks_inv h q busy" and a: "h a = None" "task_ok t"
    and p: "push (h(a \<mapsto> t)) q (Some a) = Some (ret, h', q')"
  shows "tasks_inv (if ret < 0 then h'(a := None) else h') q' busy"
proof (cases "tq_shutdown q \<or> tq_size q \<ge> tq_max_size q")
  case True
  then have "h' = h(a \<mapsto> t)" "q' = q" "ret < 0" using p by (auto simp: push_def EAGAIN_num_def split: if_splits)
  moreover have "(h(a \<mapsto> t))(a := None) = h" using a(1) by auto
  ultimately show ?thesis using inv by simp
next
  case False
  note i = inv [unfolded tasks_inv_def queue_shape_def tasks_ok_def busy_ok_def]
  have ab: "a \<notin> set busy" using i a(1) by auto
  from i have hb: "\<forall>b \<in> set busy. h b \<noteq> None" by simp
  show ?thesis
  proof (cases "tq_tail q")
    case None
    then have "h' = h(a \<mapsto> t \<lparr> t_next_task := None \<rparr>)" "ret = 0" "tq_head q' = Some a" "tq_tail q' = Some a" using p False by (auto simp: push_def)
    then show ?thesis using i a ab by (auto simp: tasks_inv_def queue_shape_def tasks_ok_def busy_ok_def)
  next
    case (Some z)
    then obtain n where n: "(h(a \<mapsto> t)) z = Some n" "ret = 0" "tq_head q' = tq_head q" "tq_tail q' = Some z"
      and h': "h' = (h(a \<mapsto> t, z \<mapsto> n \<lparr> t_next_task := Some a \<rparr>))(a \<mapsto> (if z = a then n else t) \<lparr> t_next_task := None \<rparr>)"
      using p False by (auto simp: push_def split: bind_splits if_splits)
    have ok: "tasks_ok h'" using i a(2) n(1) by (auto simp: h' tasks_ok_def split: if_splits)
    have busy: "busy_ok h' busy" using i by (auto simp: h' busy_ok_def)
    have "queue_shape h' q' (set busy)"
      using i Some n a(1) ab unfolding queue_shape_def h' by (auto split: if_splits)
    with ok busy n(2) show ?thesis by (simp add: tasks_inv_def)
  qed
qed

lemma pop_inv:
  assumes inv: "tasks_inv h q busy" and p: "pop h q = Some (Returned (Some a), h', q')"
  shows "tasks_inv h' q' (a # busy) \<and> (\<exists>t. h' a = Some t \<and> task_ok t)"
proof -
  note i = inv [unfolded tasks_inv_def queue_shape_def tasks_ok_def busy_ok_def]
  from p obtain t where t: "tq_head q = Some a" "h a = Some t" "h' = h(a \<mapsto> t \<lparr> t_next_task := None \<rparr>)"
    "tq_head q' = t_next_task t" "tq_tail q' = (if t_next_task t = None then None else tq_tail q)"
    by (auto simp: pop_def Let_def split: if_splits bind_splits)
  have "queue_shape h' q' (set (a # busy))" using i t unfolding queue_shape_def by (fastforce split: if_splits)
  moreover have "tasks_ok h'" using i t(2,3) by (auto simp: tasks_ok_def)
  moreover have "busy_ok h' (a # busy)" using i t by (auto simp: busy_ok_def)
  moreover have "task_ok t" using i t(2) by blast
  ultimately show ?thesis using t(3) by (simp add: tasks_inv_def)
qed

lemma pop_defined: "tasks_inv h q busy \<Longrightarrow> pop h q = None \<longleftrightarrow> tq_size q \<noteq> 0 \<and> tq_head q = None"
  by (auto simp: tasks_inv_def queue_shape_def pop_def Let_def split: bind_splits)

lemma free_inv:
  assumes inv: "tasks_inv h q busy" and a: "a \<in> set busy"
  shows "tasks_inv (h(a := None)) q (remove1 a busy)"
proof -
  note i = inv [unfolded tasks_inv_def]
  have "queue_shape (h(a := None)) q (set (remove1 a busy))"
    using i a by (fastforce simp: queue_shape_def busy_ok_def)
  moreover have "tasks_ok (h(a := None))" using i by (simp add: tasks_ok_def)
  moreover have "busy_ok (h(a := None)) (remove1 a busy)" using i by (auto simp: busy_ok_def)
  ultimately show ?thesis by (simp add: tasks_inv_def)
qed

lemma tasks_inv_queue:
  "tq_head q' = tq_head q \<Longrightarrow> tq_tail q' = tq_tail q \<Longrightarrow> tasks_inv h q busy \<Longrightarrow> tasks_inv h q' busy"
  by (simp add: tasks_inv_def queue_shape_def)

section \<open>What the handlers do to the task queue\<close>

definition same_tasks :: "server \<Rightarrow> server \<Rightarrow> bool" where
  "same_tasks sv sv' = (m_tasks sv' = m_tasks sv \<and> sv_tasks sv' = sv_tasks sv)"

definition pushed_task :: "server \<Rightarrow> server \<Rightarrow> bool" where
  "pushed_task sv sv' =
     (\<exists>a t ret h q. m_tasks sv a = None \<and> task_ok t \<and> push ((m_tasks sv)(a \<mapsto> t)) (sv_tasks sv) (Some a) = Some (ret, h, q) \<and>
        m_tasks sv' = (if ret < 0 then h(a := None) else h) \<and> sv_tasks sv' = q)"

lemma same_tasks_refl [simp]: "same_tasks sv sv" and same_tasks_put [simp]: "same_tasks sv (put_client sv i c)"
  and same_tasks_upd [simp]: "same_tasks sv (sv' \<lparr> k_epoll := ep \<rparr>) = same_tasks sv sv'"
    "same_tasks sv (sv' \<lparr> m_data := h \<rparr>) = same_tasks sv sv'"
    "same_tasks sv (sv' \<lparr> sv_clients := cs \<rparr>) = same_tasks sv sv'"
    "same_tasks sv (sv' \<lparr> sv_response := rq \<rparr>) = same_tasks sv sv'"
    "same_tasks sv (sv' \<lparr> m_responses := hr \<rparr>) = same_tasks sv sv'"
  by (simp_all add: same_tasks_def put_client_def)

lemma same_tasks_put' [simp]: "same_tasks sv (put_client sv' i c) = same_tasks sv sv'" "same_tasks (put_client sv i c) sv' = same_tasks sv sv'"
  "pushed_task (put_client sv i c) sv' = pushed_task sv sv'"
  by (simp_all add: same_tasks_def put_client_def pushed_task_def)

lemma same_tasks_trans: "same_tasks sv sv' \<Longrightarrow> same_tasks sv' sv'' \<Longrightarrow> same_tasks sv sv''"
  by (simp add: same_tasks_def)

lemma drop_client_same: "drop_client sv i = Some sv' \<Longrightarrow> same_tasks sv sv'"
  by (auto simp: drop_client_def split: bind_splits)

lemma handshake_same: "tls_try_handshake hs sv i = Some (r, sv') \<Longrightarrow> same_tasks sv sv'"
  by (auto simp: tls_try_handshake_def Let_def drop_client_same split: if_splits option.splits handshake.splits bind_splits)

lemma handle_accept_same: "handle_accept_client env sv = Some (r, sv') \<Longrightarrow> same_tasks sv sv'"
  by (auto simp: handle_accept_client_def Let_def split_beta split: accept_result.splits if_splits bind_splits
      dest!: drop_client_same handshake_same) (simp_all add: same_tasks_def put_client_def)

lemma deliver_same: "deliver_response sv a r ms = Some (sv', ms') \<Longrightarrow> same_tasks sv sv'"
  by (auto simp: deliver_response_def Let_def split_beta split: if_splits bind_splits option.splits)

lemma response_loop_same: "response_loop k sv ms rp = Some sv' \<Longrightarrow> same_tasks sv sv'"
proof (induction k arbitrary: sv ms rp)
  case (Suc k)
  show ?case
  proof (cases rp)
    case None
    with Suc.prems show ?thesis by simp
  next
    case (Some a)
    with Suc.prems obtain r sv1 ms1 rp1 h q where d: "deliver_response sv a r ms = Some (sv1, ms1)"
      and l: "response_loop k (sv1 \<lparr> m_responses := h, sv_response := q \<rparr>) ms1 rp1 = Some sv'"
      by (auto split: bind_splits)
    from Suc.IH [OF l] deliver_same [OF d] show ?thesis by (simp add: same_tasks_def)
  qed
qed simp

lemma handle_response_same: "handle_response_to_client k ms sv = Some (r, sv') \<Longrightarrow> same_tasks sv sv'"
  by (auto simp: handle_response_to_client_def split: bind_splits dest!: response_loop_same) (simp add: same_tasks_def)

lemma handle_sendable_same: "handle_client_sendable f k tx hs now w sv fd = Some (r, w', sv') \<Longrightarrow> same_tasks sv sv'"
  by (auto simp: handle_client_sendable_def Let_def split_beta split: if_splits bind_splits dest!: drop_client_same handshake_same)
    (simp_all add: same_tasks_def put_client_def)

lemma reap_client_same: "reap_client now sv = Some (r, sv') \<Longrightarrow> same_tasks sv sv'"
proof -
  have "reap_loop now sv is = Some sv' \<Longrightarrow> same_tasks sv sv'" for "is"
  proof (induction "is" arbitrary: sv)
    case (Cons i "is")
    then obtain sv1 where "reap_slot now sv i = Some sv1" "reap_loop now sv1 is = Some sv'" by (auto split: bind_splits)
    then show ?case using Cons.IH by (auto simp: reap_slot_def Let_def split: if_splits dest!: drop_client_same intro: same_tasks_trans)
  qed simp
  then show "reap_client now sv = Some (r, sv') \<Longrightarrow> same_tasks sv sv'" by (auto simp: reap_client_def split: bind_splits)
qed

lemma drop_client_shutdown: "drop_client sv i = Some sv' \<Longrightarrow> sv_shutdown sv' = sv_shutdown sv"
  by (auto simp: drop_client_def split: bind_splits)

lemma reap_client_shutdown: "reap_client now sv = Some (r, sv') \<Longrightarrow> sv_shutdown sv' = sv_shutdown sv"
proof -
  have "reap_loop now sv is = Some sv' \<Longrightarrow> sv_shutdown sv' = sv_shutdown sv" for "is"
  proof (induction "is" arbitrary: sv)
    case (Cons i "is")
    then show ?case by (fastforce simp: reap_slot_def Let_def split: if_splits bind_splits dest: drop_client_shutdown)
  qed simp
  then show "reap_client now sv = Some (r, sv') \<Longrightarrow> sv_shutdown sv' = sv_shutdown sv" by (auto simp: reap_client_def split: bind_splits)
qed

lemma build_task_ok:
  assumes b: "build_task h c hdr slot now blk = Some (x, h')" and l: "unat (h_length hdr) \<le> MAX_PAYLOAD"
    and blk: "\<forall>a t. blk = Some (a, t) \<longrightarrow> h a = None \<and> length (t_payload t) = MAX_PAYLOAD"
  shows "x = None \<and> h' = h \<or> (\<exists>a t. x = Some a \<and> h' = h(a \<mapsto> t) \<and> h a = None \<and> task_ok t)"
proof (cases "slot < 0 \<or> blk = None")
  case True
  then show ?thesis using b by (auto simp: build_task_def split: if_splits)
next
  case False
  then obtain a t where a: "blk = Some (a, t)" by auto
  with b False obtain u where "x = Some a" "h' = h(a \<mapsto> u)" "length (t_payload u) = length (t_payload t)" "t_length u = unat (h_length hdr)"
    by (auto simp: build_task_def Let_def poke_def split: if_splits bind_splits)
  then show ?thesis using a blk l by (auto simp: task_ok_def)
qed

lemma accept_frame_tasks:
  assumes acc: "accept_frame env sv i c = Some sv'" and len: "read_frame_ok c" and env: "read_env_ok env sv"
  shows "same_tasks sv sv' \<or> pushed_task sv sv'"
proof -
  from acc len obtain hdr s x h where b: "build_task (m_tasks sv) c hdr s (e_now_task env) (e_task env) = Some (x, h)" "unat (h_length hdr) \<le> MAX_PAYLOAD"
    and r: "x = None \<and> m_tasks sv' = h \<and> sv_tasks sv' = sv_tasks sv \<or>
      (\<exists>a ret h1 q. x = Some a \<and> push h (sv_tasks sv) x = Some (ret, h1, q) \<and> m_tasks sv' = (if ret < 0 then h1(a := None) else h1) \<and> sv_tasks sv' = q)"
    by (auto simp: accept_frame_def read_frame_ok_def Let_def put_client_def split: bind_splits option.splits)
  have blk: "\<forall>a t. e_task env = Some (a, t) \<longrightarrow> m_tasks sv a = None \<and> length (t_payload t) = MAX_PAYLOAD" using env by (simp add: read_env_ok_def)
  from build_task_ok [OF b blk] show ?thesis
  proof (elim disjE exE conjE)
    assume "x = None" "h = m_tasks sv"
    then show ?thesis using r by (simp add: same_tasks_def)
  next
    fix a t assume "x = Some a" "h = (m_tasks sv)(a \<mapsto> t)" "m_tasks sv a = None" "task_ok t"
    with r have "pushed_task sv sv'" unfolding pushed_task_def by blast
    then show ?thesis ..
  qed
qed

lemma queue_error_same: "queue_error sv i c packet n node = Some sv' \<Longrightarrow> same_tasks sv sv'"
  by (auto simp: queue_error_def split: bind_splits)

lemma read_message_tasks:
  assumes rd: "byte_reader rd avail work" "work w < k" and inv: "sv_inv sv" "i < MAX_CLIENTS" "c_alive (sv_clients sv ! i)"
    and m: "client_read_message k rd env w sv i = Some (r, w', sv')" and env: "read_env_ok env sv"
  shows "same_tasks sv sv' \<or> pushed_task sv sv'"
proof -
  have "client_inv (sv_clients sv ! i)" using sv_inv_slot [OF inv(1,2)] inv(3) by (simp add: slot_ok_def)
  from byte_reader.read_loop_post [OF rd this] obtain x w1 c' where loop: "read_loop k rd w (sv_clients sv ! i) = Some (x, w1, c')"
    and post: "read_post avail (sv_clients sv ! i) (pending (sv_clients sv ! i) @ avail w) (x, w1, c')" by auto
  show ?thesis
  proof (cases x)
    case Ret_frame
    note ok = complete_frame_len [OF post [unfolded Ret_frame]]
    from m loop Ret_frame show ?thesis
      by (auto simp: client_read_message_def split: if_splits bind_splits option.splits
          dest!: queue_error_same accept_frame_tasks [OF _ ok env])
  qed (use m loop in \<open>auto simp: client_read_message_def split: if_splits bind_splits option.splits dest!: queue_error_same\<close>)
qed

lemma handle_request_tasks:
  assumes rd: "byte_reader rd avail work" "work w < k" and inv: "sv_inv sv"
    and m: "handle_request_client k rd hs now now' env w sv fd = Some (r, w', sv')" and env: "read_env_ok env sv"
  shows "same_tasks sv sv' \<or> pushed_task sv sv'"
proof (cases "0 \<le> fd \<and> fd_to_slot (sv_clients sv) fd (int MAX_CLIENTS) \<noteq> Some (-1)")
  case False
  then show ?thesis using m by (auto simp: handle_request_client_def split: if_splits)
next
  case True
  with fd_lookup [OF inv] obtain i where i: "i < MAX_CLIENTS"
    and s: "fd_to_slot (sv_clients sv) fd (int MAX_CLIENTS) = Some (int i)" "c_alive (sv_clients sv ! i)" by blast
  let ?ra = "request_allow now now' (c_rate (sv_clients sv ! i))"
  let ?sv = "put_client sv i ((sv_clients sv ! i) \<lparr> c_rate := snd ?ra \<rparr>)"
  have "sv_inv ?sv" "c_alive (sv_clients ?sv ! i)" using rate_put_inv [OF inv i] s(2) i sv_inv_length [OF inv] by (simp_all add: put_client_def)
  moreover have "read_env_ok env ?sv" using env by (simp add: read_env_ok_def put_client_def)
  ultimately have rm: "client_read_message k rd env w ?sv i = Some (r1, w1, sv1) \<Longrightarrow> same_tasks sv sv1 \<or> pushed_task sv sv1" for r1 w1 sv1
    using read_message_tasks [OF rd _ i] by fastforce
  have t: "same_tasks sv s1 \<or> pushed_task sv s1 \<Longrightarrow> same_tasks s1 s2 \<Longrightarrow> same_tasks sv s2 \<or> pushed_task sv s2" for s1 s2
    by (auto simp: same_tasks_def pushed_task_def)
  show ?thesis
  proof (cases "c_tls_handshake_done (sv_clients sv ! i) \<and> fst ?ra")
    case False
    then show ?thesis using True m s
      by (auto simp: handle_request_client_def Let_def split_beta split: if_splits bind_splits dest!: handshake_same)
  next
    case ok: True
    with True m s obtain r1 w1 sv1 where r1: "client_read_message k rd env w ?sv i = Some (r1, w1, sv1)"
      "drop_client sv1 i = Some sv' \<or> sv' = sv1"
      by (auto simp: handle_request_client_def Let_def split_beta split: if_splits bind_splits)
    have "same_tasks sv1 sv'" using r1(2) drop_client_same by auto
    with t [OF rm [OF r1(1)]] show ?thesis by blast
  qed
qed

section \<open>The invariant of the system\<close>

definition gw_inv :: "('r, 'w) gateway \<Rightarrow> bool" where
  "gw_inv g = (sv_inv (g_sv g) \<and> tasks_inv (m_tasks (g_sv g)) (sv_tasks (g_sv g)) (g_busy g))"

lemma same_tasks_inv: "same_tasks sv sv' \<Longrightarrow> tasks_inv (m_tasks sv) (sv_tasks sv) busy \<Longrightarrow> tasks_inv (m_tasks sv') (sv_tasks sv') busy"
  by (simp add: same_tasks_def)

lemma request_tasks_inv:
  "same_tasks sv sv' \<or> pushed_task sv sv' \<Longrightarrow> tasks_inv (m_tasks sv) (sv_tasks sv) busy \<Longrightarrow> tasks_inv (m_tasks sv') (sv_tasks sv') busy"
  using push_inv same_tasks_inv by (fastforce simp: pushed_task_def)

text \<open>The streams of all connections behave as readers and senders do.\<close>

locale network =
  fixes io :: "('r, 'w) io" and avail :: "int \<Rightarrow> 'r \<Rightarrow> bytes" and rwork :: "int \<Rightarrow> 'r \<Rightarrow> nat"
    and again :: "ssl_error \<Rightarrow> bool" and wire :: "int \<Rightarrow> 'w \<Rightarrow> bytes" and wwork :: "int \<Rightarrow> 'w \<Rightarrow> nat"
  assumes reads: "byte_reader (io_rd io fd) (avail fd) (rwork fd)"
    and sends: "byte_sender (io_tx io fd) again (wire fd) (wwork fd)"
begin

text \<open>
  Every event is handled and keeps the invariant, unless the task queue's tail points to a task
  that has been freed.
\<close>

lemma request_part:
  assumes env: "ev_env_ok k rwork wwork env (r, w, sv)" and inv: "sv_inv sv" "tasks_inv (m_tasks sv) (sv_tasks sv) busy"
  shows "(\<exists>ret r' sv'. handle_request_client k (io_rd io fd) (v_hs_in env) (v_now env) (v_now' env) (v_read env) r sv fd = Some (ret, r', sv') \<and>
      sv_inv sv' \<and> tasks_inv (m_tasks sv') (sv_tasks sv') busy) \<or>
    handle_request_client k (io_rd io fd) (v_hs_in env) (v_now env) (v_now' env) (v_read env) r sv fd = None \<and> \<not> tail_ok sv"
proof -
  have e: "rwork fd r < k" "read_env_ok (v_read env) sv" using env by (simp_all add: ev_env_ok_def)
  from handle_request_inv [OF reads e(1) inv(1) e(2)] handle_request_tasks [OF reads e(1) inv(1) _ e(2)] request_tasks_inv [OF _ inv(2)]
  show ?thesis by blast
qed

lemma send_part:
  assumes env: "ev_env_ok k rwork wwork env (r, w, sv0)" and inv: "sv_inv sv" "tasks_inv (m_tasks sv) (sv_tasks sv) busy"
  shows "\<exists>ret w' sv'. handle_client_sendable k k (io_tx io fd) (v_hs_out env) (v_now_out env) w sv fd = Some (ret, w', sv') \<and>
      sv_inv sv' \<and> tasks_inv (m_tasks sv') (sv_tasks sv') busy"
proof -
  have e: "wwork fd w < k" "2 \<le> k" using env by (simp_all add: ev_env_ok_def)
  from handle_sendable_inv [OF sends e inv(1), of "v_hs_out env" "v_now_out env" fd] obtain ret w' sv' where
    "handle_client_sendable k k (io_tx io fd) (v_hs_out env) (v_now_out env) w sv fd = Some (ret, w', sv')" "sv_inv sv'" by blast
  moreover from same_tasks_inv [OF handle_sendable_same [OF this(1)] inv(2)] have "tasks_inv (m_tasks sv') (sv_tasks sv') busy" .
  ultimately show ?thesis by blast
qed

lemma connection_event:
  assumes env: "ev_env_ok k rwork wwork env (r, w, sv)" and inv: "sv_inv sv" "tasks_inv (m_tasks sv) (sv_tasks sv) busy"
  shows "(\<exists>d r' w' sv'. connection_part k io env e (r, w, sv) = Some (d, r', w', sv') \<and> sv_inv sv' \<and> tasks_inv (m_tasks sv') (sv_tasks sv') busy) \<or>
    connection_part k io env e (r, w, sv) = None \<and> \<not> tail_ok sv"
proof -
  obtain slot where s: "fd_to_slot (sv_clients sv) (ev_fd e) (int MAX_CLIENTS) = Some slot" "slot = -1 \<or> 0 \<le> slot \<and> nat slot < MAX_CLIENTS"
    using fd_lookup [OF inv(1), of "ev_fd e"] by (cases "0 \<le> ev_fd e") (auto simp: fd_to_slot_def)
  show ?thesis
  proof (cases "slot = -1")
    case True
    then show ?thesis using s(1) inv by (simp add: connection_part_def)
  next
    case False
    with s have i: "nat slot < MAX_CLIENTS" "\<not> slot < 0" by auto
    let ?fd = "ev_fd e" and ?ev = "ev_events e"
    show ?thesis
    proof (cases "?fd = c_fd (sv_clients sv ! nat slot) \<and> ?ev AND (EV_HUP OR EV_ERR) \<noteq> 0")
      case True
      from drop_client_inv [OF inv(1) i(1)] obtain sv' where d: "drop_client sv (nat slot) = Some sv'" "sv_inv sv'" by blast
      with same_tasks_inv [OF drop_client_same [OF d(1)] inv(2)] True s(1) i(2) show ?thesis by (simp add: connection_part_def Let_def)
    next
      case no_hup: False
      have out: "\<exists>w' sv2. (if ?fd = c_fd (sv_clients sv1 ! nat slot) \<and> ?ev AND EV_OUT \<noteq> 0 \<and> c_fd (sv_clients sv1 ! nat slot) \<ge> 0 then do {
            (ret, w, sv) \<leftarrow> handle_client_sendable k k (io_tx io ?fd) (v_hs_out env) (v_now_out env) w sv1 ?fd;
            Some (w, sv) } else Some (w, sv1)) = Some (w', sv2) \<and> sv_inv sv2 \<and> tasks_inv (m_tasks sv2) (sv_tasks sv2) busy"
        if "sv_inv sv1" "tasks_inv (m_tasks sv1) (sv_tasks sv1) busy" for sv1
        using send_part [OF env that, of ?fd] that by auto
      have fin: "\<exists>d r' w' sv2. (do { (w, sv) \<leftarrow> (if ?fd = c_fd (sv_clients sv1 ! nat slot) \<and> ?ev AND EV_OUT \<noteq> 0 \<and> c_fd (sv_clients sv1 ! nat slot) \<ge> 0 then do {
            (ret, w, sv) \<leftarrow> handle_client_sendable k k (io_tx io ?fd) (v_hs_out env) (v_now_out env) w sv1 ?fd;
            Some (w, sv) } else Some (w, sv1)); Some (None, r1, w, sv) }) = Some (d, r', w', sv2) \<and> sv_inv sv2 \<and> tasks_inv (m_tasks sv2) (sv_tasks sv2) busy"
        if "sv_inv sv1" "tasks_inv (m_tasks sv1) (sv_tasks sv1) busy" for sv1 r1
        using out [OF that] by (elim exE conjE) simp
      have c: "connection_part k io env e (r, w, sv) = do {
          (r1, sv1) \<leftarrow> (if ?fd = c_fd (sv_clients sv ! nat slot) \<and> ?ev AND EV_IN \<noteq> 0 then do {
              (ret, r, sv) \<leftarrow> handle_request_client k (io_rd io ?fd) (v_hs_in env) (v_now env) (v_now' env) (v_read env) r sv ?fd;
              Some (r, sv) } else Some (r, sv));
          (w, sv) \<leftarrow> (if ?fd = c_fd (sv_clients sv1 ! nat slot) \<and> ?ev AND EV_OUT \<noteq> 0 \<and> c_fd (sv_clients sv1 ! nat slot) \<ge> 0 then do {
              (ret, w, sv) \<leftarrow> handle_client_sendable k k (io_tx io ?fd) (v_hs_out env) (v_now_out env) w sv1 ?fd;
              Some (w, sv) } else Some (w, sv1));
          Some (None, r1, w, sv) }"
        unfolding connection_part_def Let_def prod.case s(1) bind.bind_lunit if_not_P [OF i(2)] if_not_P [OF no_hup] by (rule refl)
      show ?thesis
      proof (cases "?fd = c_fd (sv_clients sv ! nat slot) \<and> ?ev AND EV_IN \<noteq> 0")
        case inp: True
        from request_part [OF env inv, of ?fd] show ?thesis
        proof (elim disjE exE conjE)
          fix ret r1 sv1 assume h: "handle_request_client k (io_rd io ?fd) (v_hs_in env) (v_now env) (v_now' env) (v_read env) r sv ?fd = Some (ret, r1, sv1)"
            and "sv_inv sv1" "tasks_inv (m_tasks sv1) (sv_tasks sv1) busy"
          from fin [OF this(2,3), of r1] show ?thesis unfolding c if_P [OF inp] h bind.bind_lunit prod.case by (rule disjI1)
        qed (simp add: c if_P [OF inp])
      next
        case False
        from fin [OF inv, of r] show ?thesis unfolding c if_not_P [OF False] bind.bind_lunit prod.case by (rule disjI1)
      qed
    qed
  qed
qed

lemma event_cases:
  assumes env: "ev_env_ok k rwork wwork env (r, w, sv)" and inv: "sv_inv sv" "tasks_inv (m_tasks sv) (sv_tasks sv) busy"
  shows "(\<exists>d r' w' sv'. handle_event k io env e (r, w, sv) = Some (d, r', w', sv') \<and> sv_inv sv' \<and> tasks_inv (m_tasks sv') (sv_tasks sv') busy) \<or>
    handle_event k io env e (r, w, sv) = None \<and> \<not> tail_ok sv"
proof -
  have k: "rq_max_size (sv_response sv) + 2 \<le> k" "wwork fd w < k" "accept_env_ok (v_accept env)" "allocs_ok (v_allocs env) (m_data sv)" for fd
    using env by (simp_all add: ev_env_ok_def)
  let ?fd = "ev_fd e" and ?ev = "ev_events e"
  consider (listen) "sv_listen_fd sv = ?fd" "?ev AND EV_IN \<noteq> 0"
    | (broadcast) "\<not> (sv_listen_fd sv = ?fd \<and> ?ev AND EV_IN \<noteq> 0)" "sv_broadcast_fd sv = ?fd" "?ev AND EV_IN \<noteq> 0"
    | (notify) "\<not> (sv_listen_fd sv = ?fd \<and> ?ev AND EV_IN \<noteq> 0)" "\<not> (sv_broadcast_fd sv = ?fd \<and> ?ev AND EV_IN \<noteq> 0)"
        "sv_event_fd sv = ?fd" "?ev AND EV_IN \<noteq> 0"
    | (conn) "\<not> (sv_listen_fd sv = ?fd \<and> ?ev AND EV_IN \<noteq> 0)" "\<not> (sv_broadcast_fd sv = ?fd \<and> ?ev AND EV_IN \<noteq> 0)"
        "\<not> (sv_event_fd sv = ?fd \<and> ?ev AND EV_IN \<noteq> 0)" by blast
  then show ?thesis
  proof cases
    case listen
    from handle_accept_inv [OF inv(1) k(3)] obtain x sv' where a: "handle_accept_client (v_accept env) sv = Some (x, sv')" "sv_inv sv'" by blast
    with same_tasks_inv [OF handle_accept_same [OF a(1)] inv(2)] listen show ?thesis by (simp add: handle_event_def)
  next
    case broadcast
    then show ?thesis using inv by (auto simp: handle_event_def Let_def)
  next
    case notify
    from inv(1) obtain vs where vs: "response_values (rq_max_size (sv_response sv)) (m_responses sv, sv_response sv) vs"
      by (auto simp: sv_inv_def responses_ok_values)
    have "length vs + 2 \<le> k" using response_values_length [OF vs] k(1) by simp
    from handle_response_spec [OF inv(1) vs this k(4)] obtain sv' where
      d: "handle_response_to_client k (v_allocs env) sv = Some (0, sv')" "sv_inv sv'" by blast
    with same_tasks_inv [OF handle_response_same [OF d(1)] inv(2)] notify show ?thesis by (auto simp: handle_event_def Let_def)
  next
    case conn
    then have "handle_event k io env e (r, w, sv) = connection_part k io env e (r, w, sv)" by (auto simp: handle_event_def Let_def)
    then show ?thesis using connection_event [OF env inv, of e] by simp
  qed
qed

lemma handle_task_inv:
  assumes inv: "gw_inv g" and a: "a \<in> set (g_busy g)" and env: "work_env_ok env (g_sv g)"
  shows "\<exists>t. m_tasks (g_sv g) a = Some t \<and> task_ok t \<and>
    (if k_now env \<le> t_timeout_ms t \<and> overflows (k_hw env) t then worker_handle env a (g_sv g) = None
     else \<exists>cmd sv'. worker_handle env a (g_sv g) = Some (cmd, sv') \<and> gw_inv (g \<lparr> g_sv := sv', g_busy := remove1 a (g_busy g) \<rparr>))"
proof -
  note i = inv [unfolded gw_inv_def]
  from i a obtain t where t: "m_tasks (g_sv g) a = Some t" "task_ok t" by (auto simp: tasks_inv_def busy_ok_def tasks_ok_def)
  from i obtain vs where v: "response_values (rq_max_size (sv_response (g_sv g))) (m_responses (g_sv g), sv_response (g_sv g)) vs"
    by (auto simp: sv_inv_def responses_ok_values)
  have "gw_inv (g \<lparr> g_sv := sv', g_busy := remove1 a (g_busy g) \<rparr>)" if "sv_inv sv'"
    "sv' = (g_sv g) \<lparr> m_tasks := (m_tasks (g_sv g))(a := None), m_responses := m_responses sv', sv_response := sv_response sv' \<rparr>" for sv'
  proof -
    from that(2) have "m_tasks sv' = (m_tasks (g_sv g))(a := None)" "sv_tasks sv' = sv_tasks (g_sv g)"
      by (metis server.select_convs server.surjective server.update_convs)+
    then show ?thesis using that(1) free_inv [OF _ a] i by (simp add: gw_inv_def)
  qed
  with worker_handle_spec [OF _ t env v] i t show ?thesis by (fastforce split: if_splits)
qed

lemma take_task_inv:
  assumes inv: "gw_inv g" and p: "worker_take (g_sv g) = Some (Returned (Some a), sv)"
  shows "gw_inv (g \<lparr> g_sv := sv, g_busy := a # g_busy g \<rparr>)"
  using inv p pop_inv by (fastforce simp: worker_take_def gw_inv_def sv_inv_def split: bind_splits)

lemma signal_inv: "gw_inv g \<Longrightarrow> signal_thread xs (g_sv g) = (ended, sv) \<Longrightarrow> gw_inv (g \<lparr> g_sv := sv \<rparr>)"
proof (induction xs "g_sv g" rule: signal_thread.induct)
  case (3 sig xs)
  then show ?case
    by (auto simp: gw_inv_def server_shutdown_def task_queue_shutdown_def sv_inv_def split: if_splits intro: tasks_inv_queue)
qed (auto simp: gw_inv_def)

lemma step_inv: "gw_step io rwork wwork g g' \<Longrightarrow> gw_inv g \<Longrightarrow> gw_inv g'"
proof (induction rule: gw_step.induct)
  case (event k env g e d r w sv)
  then have "sv_inv sv \<and> tasks_inv (m_tasks sv) (sv_tasks sv) (g_busy g)"
    using event_cases [of k env "g_in g" "g_out g" "g_sv g" "g_busy g" e] by (auto simp: gstate_def gw_inv_def)
  then show ?case by (simp add: gw_inv_def)
next
  case (reap now g ret sv)
  then show ?case using reap_client_inv [of "g_sv g" now] same_tasks_inv [OF reap_client_same] by (auto simp: gw_inv_def)
next
  case (take_task g a sv)
  then show ?case by (intro take_task_inv)
next
  case (handle_task a g env cmd sv)
  then show ?case using handle_task_inv [of g a env] by (auto split: if_splits)
next
  case (signal xs g ended sv)
  then show ?case by (intro signal_inv)
qed (simp add: gw_inv_def)

lemma start_inv: "server_init env fds = Some (0, sv, fds') \<Longrightarrow> gw_inv \<lparr> g_in = r, g_out = w, g_sv = sv, g_busy = [] \<rparr>"
  using server_init_cases [of env fds] start_state_inv [of "i_now env" sv]
  by (auto simp: gw_inv_def tasks_inv_def queue_shape_def tasks_ok_def busy_ok_def start_state_def)

lemma reach_inv: "gw_reach io rwork wwork g \<Longrightarrow> gw_inv g"
proof (induction rule: gw_reach.induct)
  case (start env fds sv fds' r w)
  then show ?case by (rule start_inv)
next
  case (step g g')
  then show ?case using step_inv by blast
qed

end

text \<open>The streams of a kernel: each descriptor has its own arrivals and its own sink.\<close>

definition conn_recv :: "int \<Rightarrow> (int \<Rightarrow> arrival list) reader" where
  "conn_recv fd r n = (case sock_recv (r fd) n of (x, s) \<Rightarrow> (x, r(fd := s)))"

definition conn_send :: "int \<Rightarrow> (ssl_error, int \<Rightarrow> ssl_error tx_sock) sender" where
  "conn_send fd w bs = (case sock_send SSL_ERROR_WANT_WRITE (w fd) bs of (x, s) \<Rightarrow> (x, w(fd := s)))"

definition conn_io :: "(int \<Rightarrow> arrival list, int \<Rightarrow> ssl_error tx_sock) io" where
  "conn_io = \<lparr> io_rd = conn_recv, io_tx = conn_send \<rparr>"

interpretation kernel: network conn_io "\<lambda>fd r. sock_avail (r fd)" "\<lambda>fd r. sock_work (r fd)"
  "\<lambda>e. e \<noteq> SSL_ERROR_WANT_WRITE" "\<lambda>fd w. tx_wire (w fd)" "\<lambda>fd w. length (tx_plan (w fd))"
proof (rule network.intro)
  fix fd
  have r: "io_rd conn_io fd w n = (x, w') \<longleftrightarrow> (\<exists>s. sock_recv (w fd) n = (x, s) \<and> w' = w(fd := s))" for w n x w'
    by (auto simp: conn_io_def conn_recv_def split: prod.splits)
  show "byte_reader (io_rd conn_io fd) (\<lambda>r. sock_avail (r fd)) (\<lambda>r. sock_work (r fd))"
  proof (unfold_locales, goal_cases)
    case (4 w n e w')
    then show ?case using sock_recv_keep [of "w fd" n e] by (auto simp: r)
  next
    case (5 w n)
    then show ?case using sock_recv_ready [of "w fd" n] by (auto simp: r)
  qed (auto simp: r dest: sock_recv_data sock_recv_progress sock_recv_interrupt)
  have t: "io_tx conn_io fd w bs = (x, w') \<longleftrightarrow> (\<exists>s. sock_send SSL_ERROR_WANT_WRITE (w fd) bs = (x, s) \<and> w' = w(fd := s))" for w bs x w'
    by (auto simp: conn_io_def conn_send_def simp del: sock_send.simps split: prod.splits)
  show "byte_sender (io_tx conn_io fd) (\<lambda>e. e \<noteq> SSL_ERROR_WANT_WRITE) (\<lambda>w. tx_wire (w fd)) (\<lambda>w. length (tx_plan (w fd)))"
    by unfold_locales (auto simp: t simp del: sock_send.simps dest: sock_send_sent sock_send_error)
qed

section \<open>Shutting down\<close>

lemma cleanup_defined:
  assumes "sv_inv sv" and "tasks_inv (m_tasks sv) (sv_tasks sv) []"
  shows "\<exists>sv'. server_cleanup sv = Some (0, sv') \<and> (\<forall>c \<in> set (sv_clients sv'). c_fd c = -1 \<and> \<not> c_alive c) \<and>
    tq_size (sv_tasks sv') = 0 \<and> tq_head (sv_tasks sv') = None"
proof -
  have "set [0..<MAX_CLIENTS] \<subseteq> {..<MAX_CLIENTS}" by (simp add: atLeast0LessThan)
  from close_all_inv [OF assms(1) this] obtain sv1 where
    c: "close_all sv [0..<MAX_CLIENTS] = Some sv1" "sv_inv sv1" "m_tasks sv1 = m_tasks sv" "sv_tasks sv1 = sv_tasks sv"
      "\<forall>i < MAX_CLIENTS. c_fd (sv_clients sv1 ! i) = -1 \<and> \<not> c_alive (sv_clients sv1 ! i)" by auto
  have "\<exists>as. chain t_next_task (m_tasks sv) (tq_head (sv_tasks sv)) as"
  proof -
    from assms(2) consider "tq_head (sv_tasks sv) = None"
      | a t where "tq_head (sv_tasks sv) = Some a" "m_tasks sv a = Some t" "t_next_task t = None"
      | a t b u where "tq_head (sv_tasks sv) = Some a" "m_tasks sv a = Some t" "t_next_task t = Some b" "b \<noteq> a" "m_tasks sv b = Some u" "t_next_task u = None"
    proof (unfold tasks_inv_def queue_shape_def, elim conjE disjE exE, goal_cases)
      case (2 a t)
      then show ?case by (cases "t_next_task t") auto
    qed blast+
    then show ?thesis
    proof cases
      case 1
      then show ?thesis by (intro exI [of _ "[]"]) simp
    next
      case (2 a t)
      then show ?thesis by (intro exI [of _ "[a]"]) simp
    next
      case (3 a t b u)
      then show ?thesis by (intro exI [of _ "[a, b]"]) simp
    qed
  qed
  then obtain h where "free_tasks (m_tasks sv) (tq_head (sv_tasks sv)) = Some h" using free_tasks_chain by blast
  moreover have "\<forall>c \<in> set (sv_clients sv1). c_fd c = -1 \<and> \<not> c_alive c" using c(5) sv_inv_length [OF c(2)] by (auto simp: in_set_conv_nth)
  ultimately show ?thesis using c by (simp add: server_cleanup_def task_queue_destroy_def)
qed

section \<open>From a request to its response\<close>

text \<open>What an accepted frame leaves alone: everything but the reading position and the tasks.\<close>

definition quiet :: "server \<Rightarrow> nat \<Rightarrow> server \<Rightarrow> bool" where
  "quiet sv i sv' = (\<exists>c h q. sv' = (put_client sv i c) \<lparr> m_tasks := h, sv_tasks := q \<rparr> \<and>
     c_head c = c_head (sv_clients sv ! i) \<and> c_tail c = c_tail (sv_clients sv ! i) \<and>
     c_alive c = c_alive (sv_clients sv ! i) \<and> c_generation c = c_generation (sv_clients sv ! i))"

lemma accept_frame_quiet:
  assumes "accept_frame env sv i c = Some sv'" and "same_conn (sv_clients sv ! i) c Ret_frame"
  shows "quiet sv i sv'"
proof -
  from assms(1) obtain h q where "sv' = (put_client sv i ((frame_done c) \<lparr> c_last_active_ms := e_now env \<rparr>)) \<lparr> m_tasks := h, sv_tasks := q \<rparr>"
    by (auto simp: accept_frame_def Let_def split: bind_splits)
  then show ?thesis using same_conn_fields [OF assms(2)] unfolding quiet_def
    by (intro exI [of _ "(frame_done c) \<lparr> c_last_active_ms := e_now env \<rparr>"] exI [of _ h] exI [of _ q]) (simp add: frame_done_def)
qed

lemma read_message_quiet:
  assumes rd: "byte_reader rd avail work" "work w < k" and inv: "sv_inv sv" "i < MAX_CLIENTS" "c_alive (sv_clients sv ! i)"
    and m: "client_read_message k rd env w sv i = Some (r, w', sv')" and new: "\<not> same_tasks sv sv'"
  shows "quiet sv i sv'"
proof -
  have "client_inv (sv_clients sv ! i)" using sv_inv_slot [OF inv(1,2)] inv(3) by (simp add: slot_ok_def)
  from byte_reader.read_loop_post [OF rd this] obtain x w1 c' where loop: "read_loop k rd w (sv_clients sv ! i) = Some (x, w1, c')"
    and post: "read_post avail (sv_clients sv ! i) (pending (sv_clients sv ! i) @ avail w) (x, w1, c')" by auto
  then have sc: "same_conn (sv_clients sv ! i) c' x" by (simp add: read_post_def)
  show ?thesis
  proof (cases x)
    case Ret_frame
    from m loop Ret_frame new have "accept_frame env sv i c' = Some sv'"
      by (auto simp: client_read_message_def split: if_splits bind_splits option.splits dest!: queue_error_same)
    then show ?thesis using accept_frame_quiet sc Ret_frame by blast
  qed (use m loop new in \<open>auto simp: client_read_message_def split: if_splits bind_splits option.splits dest!: queue_error_same\<close>)
qed

lemma handle_request_quiet:
  assumes rd: "byte_reader rd avail work" "work w < k" and sv: "serves sv i fd now now' env"
    and m: "handle_request_client k rd hs now now' env w sv fd = Some (0, w', sv')" and new: "\<not> same_tasks sv sv'"
  shows "quiet sv i sv'"
proof -
  note s = sv [unfolded serves_def]
  let ?c = "sv_clients sv ! i"
  have i: "i < MAX_CLIENTS" "c_alive ?c" "c_fd ?c = fd" using fd_lookup [of sv fd] s by auto
  let ?ra = "request_allow now now' (c_rate ?c)"
  let ?sv = "put_client sv i (?c \<lparr> c_rate := snd ?ra \<rparr>)"
  have L: "length (sv_clients sv) = MAX_CLIENTS" using sv_inv_length s by blast
  have inv1: "sv_inv ?sv" "c_alive (sv_clients ?sv ! i)" using rate_put_inv [of sv i] s i L by (simp_all add: put_client_def)
  from m s i obtain r1 where r1: "client_read_message k rd env w ?sv i = Some (r1, w', sv')"
    by (auto simp: handle_request_client_def Let_def split_beta split: if_splits bind_splits)
  have "\<not> same_tasks ?sv sv'" using new by simp
  from read_message_quiet [OF rd inv1(1) i(1) inv1(2) r1 this] show ?thesis
    using i L by (auto simp: quiet_def put_client_def)
qed

text \<open>A JSON object with a string member \<open>msg\<close>, and a gateway with nothing in its task queue.\<close>

definition echo_payload :: "bytes \<Rightarrow> bytes \<Rightarrow> bool" where
  "echo_payload s pl = (\<exists>ms. pl = json_text (cJSON_Object ms) \<and> readable (cJSON_Object ms) \<and> depth_ok 0 (cJSON_Object ms) \<and>
     find_member (ascii ''msg'') ms = Some (cJSON_String s) \<and> length pl \<le> MAX_PAYLOAD)"

definition idle :: "server \<Rightarrow> bool" where
  "idle sv = (tq_tail (sv_tasks sv) = None \<and> tq_size (sv_tasks sv) = 0 \<and> \<not> tq_shutdown (sv_tasks sv) \<and> 0 < tq_max_size (sv_tasks sv))"

lemma quiet_fields:
  assumes "quiet sv i sv1" and "i < length (sv_clients sv)"
  shows "m_responses sv1 = m_responses sv" "sv_response sv1 = sv_response sv" "m_data sv1 = m_data sv" "sv_event_fd sv1 = sv_event_fd sv"
    "sv_listen_fd sv1 = sv_listen_fd sv" "sv_broadcast_fd sv1 = sv_broadcast_fd sv"
    "c_alive (sv_clients sv1 ! i) = c_alive (sv_clients sv ! i)" "c_generation (sv_clients sv1 ! i) = c_generation (sv_clients sv ! i)"
    "tx_contents (m_data sv1) (sv_clients sv1 ! i) ms = tx_contents (m_data sv) (sv_clients sv ! i) ms"
proof -
  from assms(1) obtain c h q where c: "sv1 = (put_client sv i c) \<lparr> m_tasks := h, sv_tasks := q \<rparr>" "c_head c = c_head (sv_clients sv ! i)"
    "c_tail c = c_tail (sv_clients sv ! i)" "c_alive c = c_alive (sv_clients sv ! i)" "c_generation c = c_generation (sv_clients sv ! i)"
    unfolding quiet_def by blast
  then show "m_responses sv1 = m_responses sv" "sv_response sv1 = sv_response sv" "m_data sv1 = m_data sv" "sv_event_fd sv1 = sv_event_fd sv"
    "sv_listen_fd sv1 = sv_listen_fd sv" "sv_broadcast_fd sv1 = sv_broadcast_fd sv"
    "c_alive (sv_clients sv1 ! i) = c_alive (sv_clients sv ! i)" "c_generation (sv_clients sv1 ! i) = c_generation (sv_clients sv ! i)"
    "tx_contents (m_data sv1) (sv_clients sv1 ! i) ms = tx_contents (m_data sv) (sv_clients sv ! i) ms"
    using assms(2) tx_contents_cong [OF c(2,3)] by (simp_all add: put_client_def)
qed

lemma responses_ok_append:
  assumes "responses_ok h q" and "response_values n (h, q) vs" and "response_values n (h', q') (vs @ [response_content x])" and "response_ok x"
  shows "responses_ok h' q'"
proof -
  from assms(1) obtain us where us: "response_values (rq_max_size q) (h, q) us" "\<forall>u \<in> set us. response_ok u" by (auto simp: responses_ok_values)
  with assms(2) have "us = vs" by (auto simp: response_values_def dest: response_holds_unique)
  moreover have "response_ok (response_content x)" using assms(4) by (simp add: response_ok_def response_content_def)
  moreover have "rq_max_size q' = n" using assms(3) by (auto simp: response_values_def)
  ultimately show ?thesis using us(2) assms(3) unfolding responses_ok_values by (intro exI [of _ "vs @ [response_content x]"]) auto
qed

context network
begin

lemma request_accepted:
  assumes sv: "serves sv i fd (v_now env) (v_now' env) (v_read env)" and k: "rwork fd r < k" and idle: "idle sv"
    and blk: "e_task (v_read env) = Some (a, b)" and st: "pending (sv_clients sv ! i) = []" "avail fd r = wire_frame ty rid pl @ later"
    and rq: "ty \<in> request_types" "length pl \<le> MAX_PAYLOAD" and fd: "fd \<notin> {sv_listen_fd sv, sv_broadcast_fd sv, sv_event_fd sv}"
  shows "\<exists>r' sv1 t. handle_event k io env \<lparr> ev_fd = fd, ev_events = EV_IN \<rparr> (r, w, sv) = Some (None, r', w, sv1) \<and> sv_inv sv1 \<and> quiet sv i sv1 \<and>
    m_tasks sv1 a = Some t \<and> task_of (v_read env) sv i ty rid pl t \<and> tq_head (sv_tasks sv1) = Some a \<and> tq_size (sv_tasks sv1) = 1 \<and>
    pending (sv_clients sv1 ! i) @ avail fd r' = later"
proof -
  note nr = next_request_wire [OF rq, of rid later]
  from handle_request_stream [OF reads k sv refl, of "v_hs_in env"] obtain x r' sv1 where
    h: "handle_request_client k (io_rd io fd) (v_hs_in env) (v_now env) (v_now' env) (v_read env) r sv fd = Some (x, r', sv1)" "sv_inv sv1"
    "request_outcome (v_read env) sv i (Request ty rid pl) (x = 0) sv1"
    "if x = 0 then pending (sv_clients sv1 ! i) @ avail fd r' = later else x = -1 \<and> c_fd (sv_clients sv1 ! i) = -1"
    unfolding st append_Nil nr by (auto simp: length_wire_frame)
  have x: "x = 0" and tq: "task_queued (v_read env) sv i ty rid pl sv1" using h(3) by (simp_all add: request_outcome_def)
  have new: "\<not> same_tasks sv sv1" "tq_size (sv_tasks sv1) = 1" "tq_head (sv_tasks sv1) = Some a"
    "\<exists>t. m_tasks sv1 a = Some t \<and> task_of (v_read env) sv i ty rid pl t"
    using tq idle blk by (auto simp: task_queued_def idle_def same_tasks_def)
  have "quiet sv i sv1" using handle_request_quiet [OF reads k sv h(1) [unfolded x] new(1)] .
  moreover have "handle_event k io env \<lparr> ev_fd = fd, ev_events = EV_IN \<rparr> (r, w, sv) = Some (None, r', w, sv1)"
  proof -
    have s: "fd_to_slot (sv_clients sv) fd (int MAX_CLIENTS) = Some (int i)" "c_fd (sv_clients sv ! i) = fd"
      using sv fd_lookup [of sv fd] by (auto simp: serves_def)
    have "EV_IN AND (EV_HUP OR EV_ERR) = 0" "EV_IN AND EV_OUT = 0" "EV_IN AND EV_IN \<noteq> 0" by (simp_all add: ev_consts)
    then show ?thesis using fd s h(1) by (simp add: handle_event_def connection_part_def Let_def)
  qed
  ultimately show ?thesis using h(2,4) x new by auto
qed

lemma take_accepted:
  assumes "m_tasks sv a = Some t" and "tq_head (sv_tasks sv) = Some a" and "tq_size (sv_tasks sv) = 1"
  shows "\<exists>q. worker_take sv = Some (Returned (Some a), sv \<lparr> m_tasks := (m_tasks sv)(a \<mapsto> t \<lparr> t_next_task := None \<rparr>), sv_tasks := q \<rparr>)"
  using assms by (auto simp: worker_take_def pop_def Let_def)

lemma response_delivered:
  assumes inv: "sv_inv sv" and v: "response_values n (m_responses sv, sv_response sv) (vs @ [x])" and k: "n + 2 \<le> k"
    and al: "allocs_ok (v_allocs env) (m_data sv)" "allocs_suffice (v_allocs env) (Suc (length vs))"
    and x: "response_valid (sv_clients sv) x" "r_slot x = int i" and ms: "tx_contents (m_data sv) (sv_clients sv ! i) ms"
    and fd: "sv_event_fd sv \<notin> {sv_listen_fd sv, sv_broadcast_fd sv}"
  shows "\<exists>sv'. handle_event k io env \<lparr> ev_fd = sv_event_fd sv, ev_events = EV_IN \<rparr> (r, w, sv) = Some (None, r, w, sv') \<and> sv_inv sv' \<and>
    tx_contents (m_data sv') (sv_clients sv' ! i) (ms @ concat (map (\<lambda>y. news_of (sv_clients sv) y i) vs) @ [response_frame x])"
proof -
  have "length (vs @ [x]) + 2 \<le> k" using response_values_length [OF v] k by simp
  from handle_response_spec [OF inv v this al(1)] al(2) obtain sv' where
    h: "handle_response_to_client k (v_allocs env) sv = Some (0, sv')" "sv_inv sv'"
      "delivers sv sv' (\<lambda>i. concat (map (\<lambda>r. news_of (sv_clients sv) r i) (vs @ [x])))" by auto
  have i: "i < MAX_CLIENTS" using x by (simp add: response_valid_def)
  have "handle_event k io env \<lparr> ev_fd = sv_event_fd sv, ev_events = EV_IN \<rparr> (r, w, sv) = Some (None, r, w, sv')"
    using fd h(1) by (auto simp: handle_event_def Let_def ev_consts)
  moreover have "tx_contents (m_data sv') (sv_clients sv' ! i) (ms @ concat (map (\<lambda>y. news_of (sv_clients sv) y i) vs) @ [response_frame x])"
  proof -
    have "news_of (sv_clients sv) x i = [response_frame x]" using x by (simp add: news_of_def)
    moreover have "tx_contents (m_data sv') (sv_clients sv' ! i) (ms @ concat (map (\<lambda>r. news_of (sv_clients sv) r i) (vs @ [x])))"
      using h(3) i ms unfolding delivers_def by blast
    ultimately show ?thesis by simp
  qed
  ultimately show ?thesis using h(2) by blast
qed

lemma echo_answered:
  assumes sv: "serves sv i fd (v_now e1) (v_now' e1) (v_read e1)" and idle: "idle sv" and k: "rwork fd r < k" "n + 2 \<le> k"
    and st: "pending (sv_clients sv ! i) = []" "avail fd r = wire_frame MSG_ECHO rid pl @ later" and pl: "echo_payload s pl"
    and fds: "distinct [fd, sv_listen_fd sv, sv_broadcast_fd sv, sv_event_fd sv]"
    and mem: "e_task (v_read e1) \<noteq> None" "plenty (k_hw e2)" "allocs_suffice (v_allocs e3) (Suc (length vs))"
    and env: "work_env_ok e2 sv" "allocs_ok (v_allocs e3) (m_data sv)"
    and time: "k_now e2 \<le> e_now_task (v_read e1) + REQUEST_TIMEOUT_MS" "k_now' e2 \<le> e_now_task (v_read e1) + REQUEST_TIMEOUT_MS"
    and v: "response_values n (m_responses sv, sv_response sv) vs" "length vs < n" and ms: "tx_contents (m_data sv) (sv_clients sv ! i) ms"
  shows "\<exists>r' sv1 a sv2 sv3 sv4. handle_event k io e1 \<lparr> ev_fd = fd, ev_events = EV_IN \<rparr> (r, w, sv) = Some (None, r', w, sv1) \<and>
    pending (sv_clients sv1 ! i) @ avail fd r' = later \<and>
    worker_take sv1 = Some (Returned (Some a), sv2) \<and> worker_handle e2 a sv2 = Some (None, sv3) \<and>
    handle_event k io e3 \<lparr> ev_fd = sv_event_fd sv, ev_events = EV_IN \<rparr> (r', w, sv3) = Some (None, r', w, sv4) \<and> sv_inv sv4 \<and>
    tx_contents (m_data sv4) (sv_clients sv4 ! i) (ms @ concat (map (\<lambda>y. news_of (sv_clients sv3) y i) vs) @
      [wire_frame (answer_type (echo_text (take 127 (cstr s)))) rid (answer_text (echo_text (take 127 (cstr s))))])"
proof -
  let ?x = "echo_text (take 127 (cstr s))"
  from mem(1) obtain a b where blk: "e_task (v_read e1) = Some (a, b)" by auto
  have i: "i < MAX_CLIENTS" "c_alive (sv_clients sv ! i)" using sv fd_lookup [of sv fd] by (auto simp: serves_def)
  have L: "i < length (sv_clients sv)" using sv i sv_inv_length by (auto simp: serves_def)
  obtain os where js: "pl = json_text (cJSON_Object os)" "readable (cJSON_Object os)" "depth_ok 0 (cJSON_Object os)"
    "find_member (ascii ''msg'') os = Some (cJSON_String s)" "length pl \<le> MAX_PAYLOAD" using pl by (auto simp: echo_payload_def)
  from request_accepted [OF sv k(1) idle blk st _ js(5), of w] fds obtain r' sv1 t where
    h1: "handle_event k io e1 \<lparr> ev_fd = fd, ev_events = EV_IN \<rparr> (r, w, sv) = Some (None, r', w, sv1)" "sv_inv sv1" "quiet sv i sv1"
      "m_tasks sv1 a = Some t" "tq_head (sv_tasks sv1) = Some a" "tq_size (sv_tasks sv1) = 1" "pending (sv_clients sv1 ! i) @ avail fd r' = later"
    and t: "task_of (v_read e1) sv i MSG_ECHO rid pl t" by (auto simp: request_types_def)
  note q = quiet_fields [OF h1(3) L]
  let ?t = "t \<lparr> t_next_task := None \<rparr>"
  from take_accepted [OF h1(4-6)] obtain q2 where
    h2: "worker_take sv1 = Some (Returned (Some a), sv1 \<lparr> m_tasks := (m_tasks sv1)(a \<mapsto> ?t), sv_tasks := q2 \<rparr>)" (is "_ = Some (_, ?sv2)") by blast
  obtain ad bl where bl: "p_blk (k_hw e2) = Some (ad, bl)" using mem(2) by (auto simp: plenty_def)
  have hw: "hw_env_ok (k_hw e2) (m_responses ?sv2)" "m_responses ?sv2 ad = None" "notified (k_notify e2)"
    using env(1) bl q by (simp_all add: work_env_ok_def hw_env_ok_def block_ok_def)
  have pk: "peek 0 (t_length ?t) (t_payload ?t) = Some (json_text (cJSON_Object os))" "t_type ?t = MSG_ECHO" using t js(1,5) by (auto simp: task_of_def peek_def)
  from echo_exact [OF hw(1) mem(2) bl pk(2,1) js(2-4)] obtain rs where
    p: "process_hardware_task (k_hw e2) ?t (m_responses ?sv2) = Some ((Some ad, (m_responses ?sv2)(ad \<mapsto> rs)), None)"
    and c: "carries ?t (answer_type ?x) (answer_text ?x) rs" by blast
  have tm: "m_tasks ?sv2 a = Some ?t" "k_now e2 \<le> t_timeout_ms ?t" "k_now' e2 \<le> t_timeout_ms ?t" using time t by (simp_all add: task_of_def)
  have v2: "response_values n (m_responses ?sv2, sv_response ?sv2) vs" using v(1) q by simp
  from worker_handle_exact [OF p tm v2 v(2) hw(2,3)] obtain h3 q3 where
    h3: "worker_handle e2 a ?sv2 = Some (None, ?sv2 \<lparr> m_tasks := (m_tasks ?sv2)(a := None), m_responses := h3, sv_response := q3 \<rparr>)" (is "_ = Some (None, ?sv3)")
    and v3: "response_values n (h3, q3) (vs @ [response_content rs])" by blast
  let ?y = "response_content rs"
  have y: "r_slot ?y = int i" "response_valid (sv_clients ?sv3) ?y" "response_frame ?y = wire_frame (answer_type ?x) rid (answer_text ?x)"
    using c t i q by (simp_all add: carries_def task_of_def response_valid_def response_frame_def response_content_def)
  have "responses_ok (m_responses sv1) (sv_response sv1)" using h1(2) by (simp add: sv_inv_def)
  from responses_ok_append [OF this _ v3] v(1) q carries_ok [OF c] have "responses_ok h3 q3" by simp
  then have inv3: "sv_inv ?sv3" using h1(2) by (simp add: sv_inv_def)
  from response_delivered [where sv = ?sv3 and env = e3 and r = r' and w = w, OF inv3 _ k(2) _ mem(3) y(2,1), of ms] v3 env(2) ms q fds obtain sv4 where
    h4: "handle_event k io e3 \<lparr> ev_fd = sv_event_fd sv, ev_events = EV_IN \<rparr> (r', w, ?sv3) = Some (None, r', w, sv4)" "sv_inv sv4"
      "tx_contents (m_data sv4) (sv_clients sv4 ! i) (ms @ concat (map (\<lambda>y. news_of (sv_clients ?sv3) y i) vs) @ [response_frame ?y])" by auto
  show ?thesis using h1(1,7) h2 h3 h4 unfolding y(3) by blast
qed

end

section \<open>Properties\<close>


definition sample_init :: init_env where
  "sample_init = \<lparr> i_tcp = (3, 0, 0, 0, 0, 0), i_udp = (4, 0, 0, 0), i_eventfd = 5, i_epollfd = 6, i_tls_ctx = Some 0,
     i_epoll_ok = (True, True, True), i_now = (\<lambda>i. 0) \<rparr>"


text \<open>
  C5. Delivery. \<open>handle_response_to_client\<close> empties the response queue and appends to the transmit queue of
  every slot exactly the frames of the responses addressed to it, in their order, dropping those for
  slots that are closed or have been reused since; with too little memory it delivers fewer but
  never anything else, and the invariant is kept.
\<close>

theorem handle_response_correct:
  assumes "sv_inv sv" and "response_values n (m_responses sv, sv_response sv) vs" and "length vs + 2 \<le> k" and "allocs_ok ms (m_data sv)"
  shows "\<exists>sv' m. handle_response_to_client k ms sv = Some (0, sv') \<and> sv_inv sv' \<and>
    rq_size (sv_response sv') = 0 \<and> delivers sv sv' m \<and>
    (allocs_suffice ms (length vs) \<longrightarrow> m = (\<lambda>i. concat (map (\<lambda>r. news_of (sv_clients sv) r i) vs)))"
  using handle_response_spec [OF assms] .

theorem handle_response_correct_witness:
  "\<exists>sv'. handle_response_to_client 2 [] sample_server = Some (0, sv') \<and> sv_inv sv'"
proof -
  have "response_values TASK_QUEUE_MAX (m_responses sample_server, sv_response sample_server) []"
    by (simp add: sample_server_conn response_values_def response_holds_def linked_fifo_def sample_server_def start_server_def put_client_def)
  from handle_response_correct [OF sample_server_inv(1) this, of 2 "[]"] show ?thesis by (auto simp: allocs_ok_def)
qed

text \<open>
  C2. Whatever the clients send, however the threads interleave and whichever allocations fail,
  every state the gateway reaches from \<open>server_init\<close> satisfies its invariant: transmit queues and
  the response queue are well-formed and share no nodes, every live client is between two reads
  of a frame, every allocated task has its payload within bounds, the workers hold distinct
  allocated tasks that are no longer in the queue, and the task queue has one of three shapes.
\<close>

theorem gateway_invariant:
  assumes "network io avail rwork again wire wwork" and "gw_reach io rwork wwork g"
  shows "gw_inv g"
  using network.reach_inv [OF assms] .

lemma sample_init_ok: "\<exists>sv fds. server_init sample_init {} = Some (0, sv, fds) \<and> start_state (\<lambda>i. 0) sv"
  using server_init_cases [of sample_init "{}"]
  by (auto simp: sample_init_def init_succeeds_def init_fds_def setup_tcp_def setup_udp_def setup_eventfd_def setup_epoll_def Let_def)

definition quiet_net :: "int \<Rightarrow> ssl_error tx_sock" where
  "quiet_net fd = \<lparr> tx_plan = [], tx_wire = [] \<rparr>"

definition sample_gateway :: "server \<Rightarrow> (int \<Rightarrow> arrival list, int \<Rightarrow> ssl_error tx_sock) gateway" where
  "sample_gateway sv = \<lparr> g_in = (\<lambda>fd. []), g_out = quiet_net, g_sv = sv, g_busy = [] \<rparr>"

abbreviation kernel_reach :: "(int \<Rightarrow> arrival list, int \<Rightarrow> ssl_error tx_sock) gateway \<Rightarrow> bool" where
  "kernel_reach \<equiv> gw_reach conn_io (\<lambda>fd r. sock_work (r fd)) (\<lambda>fd w. length (tx_plan (w fd)))"

lemma sample_reach: "\<exists>sv. kernel_reach (sample_gateway sv) \<and> start_state (\<lambda>i. 0) sv"
  using sample_init_ok gw_reach.start by (fastforce simp: sample_gateway_def)

theorem gateway_invariant_witness: "\<exists>g. kernel_reach g \<and> gw_inv g"
  using sample_reach gateway_invariant [OF kernel.network_axioms] by blast





text \<open>
  C3. An echo request is answered. The frame of the request has arrived at an idle gateway on a served
  connection; the event loop reads it, a worker takes the task and handles it within the deadline,
  and the event loop delivers what the response queue holds. With memory for each of these steps, the
  connection's transmit queue then ends in the frame that carries the same request id and
  the object \<open>{"status":"ok","msg":...}\<close> with the message cut to 127 bytes (or the error \<open>response_too_large\<close>), and what
  followed the request on the stream is still to be read.
\<close>

theorem echo_end_to_end:
  assumes "network io avail rwork again wire wwork"
    and "serves sv i fd (v_now e1) (v_now' e1) (v_read e1)" and "idle sv" and "rwork fd r < k" and "n + 2 \<le> k"
    and "pending (sv_clients sv ! i) = []" and "avail fd r = wire_frame MSG_ECHO rid pl @ later" and "echo_payload s pl"
    and "distinct [fd, sv_listen_fd sv, sv_broadcast_fd sv, sv_event_fd sv]"
    and "e_task (v_read e1) \<noteq> None" and "plenty (k_hw e2)" and "allocs_suffice (v_allocs e3) (Suc (length vs))"
    and "work_env_ok e2 sv" and "allocs_ok (v_allocs e3) (m_data sv)"
    and "k_now e2 \<le> e_now_task (v_read e1) + REQUEST_TIMEOUT_MS" and "k_now' e2 \<le> e_now_task (v_read e1) + REQUEST_TIMEOUT_MS"
    and "response_values n (m_responses sv, sv_response sv) vs" and "length vs < n" and "tx_contents (m_data sv) (sv_clients sv ! i) ms"
  shows "\<exists>r' sv1 a sv2 sv3 sv4. handle_event k io e1 \<lparr> ev_fd = fd, ev_events = EV_IN \<rparr> (r, w, sv) = Some (None, r', w, sv1) \<and>
    pending (sv_clients sv1 ! i) @ avail fd r' = later \<and>
    worker_take sv1 = Some (Returned (Some a), sv2) \<and> worker_handle e2 a sv2 = Some (None, sv3) \<and>
    handle_event k io e3 \<lparr> ev_fd = sv_event_fd sv, ev_events = EV_IN \<rparr> (r', w, sv3) = Some (None, r', w, sv4) \<and> sv_inv sv4 \<and>
    tx_contents (m_data sv4) (sv_clients sv4 ! i) (ms @ concat (map (\<lambda>y. news_of (sv_clients sv3) y i) vs) @
      [wire_frame (answer_type (echo_text (take 127 (cstr s)))) rid (answer_text (echo_text (take 127 (cstr s))))])"
  using network.echo_answered [OF assms] .

definition sample_event :: "read_env \<Rightarrow> allocations \<Rightarrow> ev_env" where
  "sample_event env ms = \<lparr> v_accept = \<lparr> a_accept = Accept_err EAGAIN, a_now = 0, a_now_rate = 0, a_epoll_ok = True, a_ssl = None, a_set_fd = True,
       a_handshake = Hs_done \<rparr>, v_dgram = RxEof, v_sent = 0, v_allocs = ms, v_hs_in = Hs_done, v_now = 0, v_now' = 0, v_read = env,
     v_hs_out = Hs_done, v_now_out = 0 \<rparr>"

theorem echo_end_to_end_witness:
  "\<exists>r' sv1 a sv2 sv3 sv4.
    handle_event 2000 conn_io (sample_event sample_env []) \<lparr> ev_fd = 7, ev_events = EV_IN \<rparr>
      ((\<lambda>fd. []) (7 := [Chunk (wire_frame MSG_ECHO 9 (ascii ''{\"msg\":\"hi\"}''))]), quiet_net, sample_server) = Some (None, r', quiet_net, sv1) \<and>
    worker_take sv1 = Some (Returned (Some a), sv2) \<and> worker_handle sample_work a sv2 = Some (None, sv3) \<and>
    handle_event 2000 conn_io (sample_event sample_env [(Some (\<lambda>n. replicate n 0), Some 1)])
      \<lparr> ev_fd = 5, ev_events = EV_IN \<rparr> (r', quiet_net, sv3) = Some (None, r', quiet_net, sv4) \<and>
    tx_contents (m_data sv4) (sv_clients sv4 ! 0) [wire_frame MSG_RESPONSE 9 (ascii ''{\"status\":\"ok\",\"msg\":\"hi\"}'')]"
proof -
  let ?pl = "ascii ''{\"msg\":\"hi\"}''" and ?e1 = "sample_event sample_env []" and ?e3 = "sample_event sample_env [(Some (\<lambda>n. replicate n 0), Some 1)]"
  let ?r = "(\<lambda>fd. []) (7 := [Chunk (wire_frame MSG_ECHO 9 ?pl)]) :: int \<Rightarrow> arrival list"
  have sv: "serves sample_server 0 7 (v_now ?e1) (v_now' ?e1) (v_read ?e1)" using sample_serves by (simp add: sample_event_def)
  have fds: "distinct [7, sv_listen_fd sample_server, sv_broadcast_fd sample_server, sv_event_fd sample_server]"
    and idle: "idle sample_server" and q: "sv_response sample_server = \<lparr> rq_head = None, rq_tail = None, rq_size = 0, rq_max_size = TASK_QUEUE_MAX \<rparr>"
    and ev: "sv_event_fd sample_server = 5"
    by (simp_all add: sample_server_def start_server_def put_client_def idle_def TASK_QUEUE_MAX_def)
  have pl: "echo_payload (ascii ''hi'') ?pl"
    unfolding echo_payload_def using sample_payload
    by (intro exI [of _ "[(ascii ''msg'', cJSON_String (ascii ''hi''))]"]) (simp add: CJSON_NESTING_LIMIT_def MAX_PAYLOAD_def ascii_def)
  have vs: "response_values TASK_QUEUE_MAX (m_responses sample_server, sv_response sample_server) []"
    by (simp add: q sample_server_conn response_values_def response_holds_def linked_fifo_def)
  have ms: "tx_contents (m_data sample_server) (sv_clients sample_server ! 0) []"
    by (simp add: sample_server_conn tx_contents_def tx_queue_def linked_fifo_def sample_conn_def client_open_def)
  have m: "echo_text (take 127 (cstr (ascii ''hi''))) = ascii ''{\"status\":\"ok\",\"msg\":\"hi\"}''"
    by (simp add: echo_text_def ascii_def quoted_def cstr_def escape_byte_def word_less_nat_alt)
  have "answer_type (ascii ''{\"status\":\"ok\",\"msg\":\"hi\"}'') = MSG_RESPONSE" "answer_text (ascii ''{\"status\":\"ok\",\"msg\":\"hi\"}'') = ascii ''{\"status\":\"ok\",\"msg\":\"hi\"}''"
    by (simp_all add: answer_type_def answer_text_def)
  moreover have "work_env_ok sample_work sample_server" by (intro sample_work_ok) (simp add: sample_server_conn)
  moreover have "allocs_ok (v_allocs ?e3) (m_data sample_server)" "allocs_suffice (v_allocs ?e3) (Suc (length []))"
    by (simp_all add: sample_event_def allocs_ok_def allocs_suffice_def sample_server_conn)
  moreover have "e_task (v_read ?e1) \<noteq> None" "plenty (k_hw sample_work)" using sample_hw_ok(2) by (simp_all add: sample_event_def sample_env_def sample_work_def)
  ultimately show ?thesis
    using echo_end_to_end [OF kernel.network_axioms sv idle _ _ _ _ pl fds, where k = 2000 and n = TASK_QUEUE_MAX and r = ?r and ?e2.0 = sample_work
      and ?e3.0 = ?e3 and vs = "[]" and ms = "[]" and rid = 9 and later = "[]" and w = quiet_net] vs ms
    by (auto simp: sample_server_conn m ev TASK_QUEUE_MAX_def sample_work_def)
qed

end
