(* ===== verification/Uds_Message.thy ===== *)
theory Uds_Message
  imports Prelude
begin

unbundle bit_operations_syntax

text \<open>
  The frames of the control plane (\<open>unix-domain-socket-control-plane/common/common.h\<close>). Both
  programs send the memory of \<open>struct header_message\<close> as it is, so the model keeps the header as
  its 24 bytes on x86-64: four little-endian fields and four bytes of padding.
\<close>

section \<open>Integers in memory\<close>

fun le_bytes :: "nat \<Rightarrow> nat \<Rightarrow> bytes" where
  "le_bytes 0 x = []"
| "le_bytes (Suc n) x = word_of_nat x # le_bytes n (x div 256)"

fun le_value :: "bytes \<Rightarrow> nat" where
  "le_value [] = 0"
| "le_value (b # bs) = unat b + 256 * le_value bs"

lemma length_le_bytes [simp]: "length (le_bytes n x) = n"
  by (induction n arbitrary: x) auto

lemma le_value_bytes [codec_simps]: "x < 256 ^ n \<Longrightarrow> le_value (le_bytes n x) = x"
proof (induction n arbitrary: x)
  case (Suc n)
  then have "x div 256 < 256 ^ n" by (simp add: div_less_iff_less_mult mult.commute)
  from Suc.IH [OF this] show ?case by (simp add: unat_of_nat)
qed simp

lemma le_value_word: "LENGTH('a::len) \<le> 8 * n \<Longrightarrow> word_of_nat (le_value (le_bytes n (unat w))) = (w :: 'a word)"
proof -
  assume "LENGTH('a) \<le> 8 * n"
  then have "(2 :: nat) ^ LENGTH('a) \<le> 2 ^ (8 * n)" by (rule power_increasing) simp
  then have "unat w < 2 ^ (8 * n)" using unsigned_less less_le_trans by blast
  then have "unat w < 256 ^ n" by (simp add: power_mult)
  then show ?thesis by (simp add: codec_simps)
qed

section \<open>The code\<close>

definition MAX_PAYLOAD_SIZE :: nat where "MAX_PAYLOAD_SIZE = 2048"
definition SIZEOF_HEADER :: nat where "SIZEOF_HEADER = 24"
definition SIZEOF_CHECKSUM :: nat where "SIZEOF_CHECKSUM = 4"

lemmas frame_consts = MAX_PAYLOAD_SIZE_def SIZEOF_HEADER_def SIZEOF_CHECKSUM_def

datatype command = GET_STATUS | SET_STATUS | GET_DATA | GET_CONFIG | SET_CONFIG | SEND_CONTROL
  | SHUTDOWN_PEER | ACK | NACK | IDENTIFY

datatype priority = LOW | MEDIUM | HIGH

fun command_num :: "command \<Rightarrow> nat" where
  "command_num GET_STATUS = 0" | "command_num SET_STATUS = 1" | "command_num GET_DATA = 2"
| "command_num GET_CONFIG = 3" | "command_num SET_CONFIG = 4" | "command_num SEND_CONTROL = 5"
| "command_num SHUTDOWN_PEER = 6" | "command_num ACK = 7" | "command_num NACK = 8" | "command_num IDENTIFY = 9"

fun priority_num :: "priority \<Rightarrow> nat" where
  "priority_num LOW = 0" | "priority_num MEDIUM = 1" | "priority_num HIGH = 2"

text \<open>A \<open>switch\<close> over a received field: the enumerator with that value, or the default branch.\<close>

definition command_of :: "u32 \<Rightarrow> command option" where
  "command_of x = find (\<lambda>c. word_of_nat (command_num c) = x)
     [GET_STATUS, SET_STATUS, GET_DATA, GET_CONFIG, SET_CONFIG, SEND_CONTROL, SHUTDOWN_PEER, ACK, NACK, IDENTIFY]"

definition priority_of :: "u32 \<Rightarrow> priority option" where
  "priority_of x = find (\<lambda>p. word_of_nat (priority_num p) = x) [HIGH, MEDIUM, LOW]"

record message_control =
  mc_header :: bytes
  mc_message :: bytes
  mc_checksum :: bytes

definition hdr_cmd :: "message_control \<Rightarrow> u32" where
  "hdr_cmd m = word_of_nat (le_value (take 4 (mc_header m)))"

definition hdr_pri :: "message_control \<Rightarrow> u32" where
  "hdr_pri m = word_of_nat (le_value (take 4 (drop 4 (mc_header m))))"

definition hdr_number_packet :: "message_control \<Rightarrow> u64" where
  "hdr_number_packet m = word_of_nat (le_value (take 8 (drop 8 (mc_header m))))"

definition hdr_length :: "message_control \<Rightarrow> int" where
  "hdr_length m = sint (word_of_nat (le_value (take 4 (drop 16 (mc_header m)))) :: 32 word)"

definition checksum :: "message_control \<Rightarrow> u32" where
  "checksum m = word_of_nat (le_value (mc_checksum m))"

lemma fold_carry_value:
  "unat ((s AND 0xFFFF) + drop_bit 16 s :: u32) = unat s mod 65536 + unat s div 65536"
proof -
  have a: "s AND 0xFFFF = take_bit 16 s" by (simp add: take_bit_eq_mask mask_eq_exp_minus_1)
  have "unat s < 2 ^ LENGTH(32)" by (rule unsigned_less)
  then have "unat s div 65536 < 65536" by (simp add: div_less_iff_less_mult)
  moreover have "unat s mod 65536 < 65536" by simp
  ultimately have "unat s mod 65536 + unat s div 65536 < 4294967296" by linarith
  then show ?thesis
    by (simp add: a unat_word_ariths unsigned_take_bit_eq unsigned_drop_bit_eq take_bit_eq_mod drop_bit_eq_div)
qed

lemma fold_carry_high: "drop_bit 16 s \<noteq> 0 \<longleftrightarrow> 65536 \<le> unat s" for s :: u32
proof -
  have "drop_bit 16 s = 0 \<longleftrightarrow> unat (drop_bit 16 s) = 0" by (simp add: unsigned_eq_0_iff)
  also have "\<dots> \<longleftrightarrow> unat s div 65536 = 0" 
  proof -
    have "unat s < 2 ^ LENGTH(32)" by (rule unsigned_less)
    then show ?thesis by (simp only: unsigned_drop_bit_eq) (simp add: drop_bit_eq_div take_bit_nat_eq_self)
  qed
  finally show ?thesis by (simp add: div_eq_0_iff not_less)
qed

text \<open>The loop that folds the carries of the 32-bit sum back into 16 bits.\<close>

function fold_carry :: "u32 \<Rightarrow> u32" where
  "fold_carry s = (if drop_bit 16 s \<noteq> 0 then fold_carry ((s AND 0xFFFF) + drop_bit 16 s) else s)"
  by pat_completeness auto

termination
proof (relation "measure unat")
  fix s :: u32 assume "drop_bit 16 s \<noteq> 0"
  then have "65536 \<le> unat s" by (simp only: fold_carry_high)
  then have "1 \<le> unat s div 65536" by (simp add: Suc_le_eq div_greater_zero_iff)
  then have "unat s mod 65536 + unat s div 65536 < unat s"
    using div_mult_mod_eq [of "unat s" 65536] by linarith
  then show "((s AND 0xFFFF) + drop_bit 16 s, s) \<in> measure unat" by (simp only: in_measure fold_carry_value)
qed simp

declare fold_carry.simps [simp del]

definition payload_part :: "message_control \<Rightarrow> bytes" where
  "payload_part m = take (nat (min (hdr_length m) (int MAX_PAYLOAD_SIZE))) (mc_message m)"

definition calculate_checksum :: "message_control \<Rightarrow> u32" where
  "calculate_checksum m =
     (let sum = foldl (\<lambda>sum b. sum + ucast b) 0 (mc_header m);
          sum = foldl (\<lambda>sum b. sum + ucast b) sum (payload_part m)
      in NOT (fold_carry sum))"

definition build_message ::
  "bytes option \<Rightarrow> command \<Rightarrow> priority \<Rightarrow> message_control \<Rightarrow> u64 \<Rightarrow> int \<times> message_control" where
  "build_message payload cmd pri message num_packet =
     (case payload of
        None \<Rightarrow> (-1, message)
      | Some s \<Rightarrow>
          let len = length (cstr s);
              len = (if len \<ge> MAX_PAYLOAD_SIZE then MAX_PAYLOAD_SIZE - 1 else len);
              header = le_bytes 4 (command_num cmd) @ le_bytes 4 (priority_num pri) @ le_bytes 8 (unat num_packet) @
                le_bytes 4 len @ replicate 4 0;
              message = \<lparr> mc_header = header, mc_message = take len (cstr s) @ 0 # replicate (MAX_PAYLOAD_SIZE - len - 1) 0,
                mc_checksum = replicate 4 0 \<rparr>
          in (0, message \<lparr> mc_checksum := le_bytes 4 (unat (calculate_checksum message)) \<rparr>))"

definition build_ack :: "u64 \<Rightarrow> message_control \<Rightarrow> int \<times> message_control" where
  "build_ack number_ack message = build_message (Some (ascii ''ACK'')) ACK LOW message number_ack"

definition build_nack :: "u64 \<Rightarrow> message_control \<Rightarrow> int \<times> message_control" where
  "build_nack number_nack message = build_message (Some (ascii ''NACK'')) NACK LOW message number_nack"

text \<open>
  \<open>send_framed_message\<close>: the loop over \<open>send\<close> repeats on \<open>EINTR\<close>, returns -1 on another error and
  1 when nothing was taken. A frame has at least 28 bytes, so the answer of the loop is unambiguous.
\<close>

definition send_framed_message ::
  "nat \<Rightarrow> (errno, 'w) sender \<Rightarrow> 'w \<Rightarrow> message_control \<Rightarrow> (int \<times> 'w) option" where
  "send_framed_message k tx w m =
     (let payload_len = (if hdr_length m < 0 \<or> hdr_length m > int MAX_PAYLOAD_SIZE then 0 else nat (hdr_length m));
          wire_size = SIZEOF_HEADER + payload_len + SIZEOF_CHECKSUM
      in do {
        payload \<leftarrow> peek 0 payload_len (mc_message m);
        let buf = mc_header m @ payload @ mc_checksum m;
        (r, w) \<leftarrow> send_all k tx (\<lambda>e sent. if e = EINTR then None else Some (-1)) w buf wire_size 0;
        Some (if r = int wire_size then 0 else r, w)
      })"

text \<open>One blocking \<open>recv\<close> of \<open>recv_framed_message\<close> with \<open>MSG_WAITALL\<close> into a field of \<open>n\<close> bytes.\<close>

definition recv_field :: "'w reader \<Rightarrow> 'w \<Rightarrow> nat \<Rightarrow> bytes \<Rightarrow> (int \<times> bytes \<times> 'w) option" where
  "recv_field rd w n field =
     (case rd w n of
        (RxErr e, w) \<Rightarrow> Some (-1, field, w)
      | (RxEof, w) \<Rightarrow> Some (1, field, w)
      | (RxData bs, w) \<Rightarrow> do {
          field \<leftarrow> poke 0 bs field;
          Some (if length bs \<noteq> n then -1 else 0, field, w)
        })"

definition recv_framed_message :: "'w reader \<Rightarrow> 'w \<Rightarrow> (int \<times> message_control \<times> 'w) option" where
  "recv_framed_message rd w =
     (let m = \<lparr> mc_header = replicate SIZEOF_HEADER 0, mc_message = replicate MAX_PAYLOAD_SIZE 0,
                mc_checksum = replicate SIZEOF_CHECKSUM 0 \<rparr>
      in do {
        (ret, header, w) \<leftarrow> recv_field rd w SIZEOF_HEADER (mc_header m);
        let m = m \<lparr> mc_header := header \<rparr>;
        if ret \<noteq> 0 then Some (ret, m, w)
        else if hdr_length m < 0 \<or> hdr_length m > int MAX_PAYLOAD_SIZE then Some (-1, m, w)
        else do {
          (ret, payload, w) \<leftarrow> (if hdr_length m > 0 then recv_field rd w (nat (hdr_length m)) (mc_message m)
                               else Some (0, mc_message m, w));
          let m = m \<lparr> mc_message := payload \<rparr>;
          if ret \<noteq> 0 then Some (ret, m, w)
          else do {
            (ret, sum, w) \<leftarrow> recv_field rd w SIZEOF_CHECKSUM (mc_checksum m);
            Some (ret, m \<lparr> mc_checksum := sum \<rparr>, w)
          }
        }
      })"

section \<open>The checksum\<close>

text \<open>Folding the carries is reduction modulo 65535, with 65535 instead of 0 for a positive sum.\<close>

definition end_around :: "nat \<Rightarrow> nat" where
  "end_around n = (if n = 0 then 0 else (n - 1) mod 65535 + 1)"

lemma end_around_fold: "65536 \<le> n \<Longrightarrow> end_around (n mod 65536 + n div 65536) = end_around n"
proof -
  assume n: "65536 \<le> n"
  let ?q = "n div 65536" and ?r = "n mod 65536"
  have q: "1 \<le> ?q" using n by (simp add: Suc_le_eq div_greater_zero_iff)
  have "n = 65536 * ?q + ?r" by simp
  then have "n - 1 = (?r + ?q - 1) + 65535 * ?q" using q by linarith
  then have "(n - 1) mod 65535 = (?r + ?q - 1) mod 65535" by (metis mod_mult_self2)
  then show ?thesis using n q by (simp add: end_around_def)
qed

lemma end_around_small: "n < 65536 \<Longrightarrow> end_around n = n"
  by (auto simp: end_around_def)

lemma fold_carry_unat: "unat (fold_carry s) = end_around (unat s)"
proof (induction s rule: fold_carry.induct)
  case (1 s)
  show ?case
  proof (cases "drop_bit 16 s \<noteq> 0")
    case True
    then have "65536 \<le> unat s" by (simp only: fold_carry_high)
    with True "1.IH" show ?thesis
      by (simp add: fold_carry.simps [of s] fold_carry_value end_around_fold)
  next
    case False
    then have "unat s < 65536" using fold_carry_high [of s] by simp
    with False show ?thesis by (simp add: fold_carry.simps [of s] end_around_small)
  qed
qed

lemma end_around_inj: "end_around a = end_around b \<Longrightarrow> a \<le> b \<Longrightarrow> b < a + 65535 \<Longrightarrow> a = b"
proof -
  assume e: "end_around a = end_around b" and l: "a \<le> b" "b < a + 65535"
  show ?thesis
  proof (cases "a = 0")
    case True
    then show ?thesis using e by (auto simp: end_around_def split: if_splits)
  next
    case False
    then have "(a - 1) mod 65535 = (b - 1) mod 65535" using e l by (simp add: end_around_def)
    then have "65535 dvd (b - 1) - (a - 1)" using mod_eq_dvd_iff_nat [of "a - 1" "b - 1" 65535] l by simp
    then have "65535 dvd b - a" using False by simp
    moreover have "b - a < 65535" using l by simp
    ultimately have "b - a = 0" by (metis dvd_imp_le linorder_not_less neq0_conv)
    then show ?thesis using l by simp
  qed
qed

text \<open>The sum that is folded, as a number: no wrap-around on the sizes of a frame.\<close>

definition byte_sum :: "bytes \<Rightarrow> nat" where "byte_sum bs = sum_list (map unat bs)"

lemma byte_sum_append [simp]: "byte_sum (xs @ ys) = byte_sum xs + byte_sum ys"
  by (simp add: byte_sum_def)

lemma byte_sum_bound: "byte_sum bs \<le> 255 * length bs"
proof (induction bs)
  case (Cons b bs)
  have "unat b < 2 ^ LENGTH(8)" by (rule unsigned_less)
  with Cons show ?case by (simp add: byte_sum_def)
qed (simp add: byte_sum_def)

lemma sum_loop: "unat s + 255 * length bs < 2 ^ 32 \<Longrightarrow>
  unat (foldl (\<lambda>sum b. sum + ucast b) s bs :: u32) = unat s + byte_sum bs"
proof (induction bs arbitrary: s)
  case (Cons b bs)
  have "unat b < 2 ^ LENGTH(8)" by (rule unsigned_less)
  then have b: "unat (ucast b :: u32) = unat b" "unat b < 256"
    by (simp_all add: unsigned_ucast_eq take_bit_nat_eq_self)
  then have "unat (s + ucast b) = unat s + unat b"
    using Cons.prems by (simp add: unat_word_ariths)
  with Cons.IH [of "s + ucast b"] Cons.prems b show ?case by (simp add: byte_sum_def)
qed (simp add: byte_sum_def)

definition summed :: "message_control \<Rightarrow> nat" where
  "summed m = byte_sum (mc_header m @ payload_part m)"

lemma payload_part_length: "length (payload_part m) \<le> MAX_PAYLOAD_SIZE"
  by (simp add: payload_part_def min_def frame_consts) linarith

lemma checksum_value:
  assumes "length (mc_header m) = SIZEOF_HEADER"
  shows "unat (NOT (calculate_checksum m)) = end_around (summed m)"
proof -
  have l: "length (payload_part m) \<le> 2048" using payload_part_length [of m] by (simp add: frame_consts)
  have h: "unat (foldl (\<lambda>sum b. sum + ucast b) 0 (mc_header m) :: u32) = byte_sum (mc_header m)"
    using sum_loop [of 0 "mc_header m"] assms by (simp add: frame_consts)
  have "unat (foldl (\<lambda>sum b. sum + ucast b) (foldl (\<lambda>sum b. sum + ucast b) 0 (mc_header m)) (payload_part m) :: u32) =
      byte_sum (mc_header m) + byte_sum (payload_part m)"
    using h l byte_sum_bound [of "mc_header m"] assms by (subst sum_loop) (simp_all add: frame_consts)
  then show ?thesis by (simp add: calculate_checksum_def Let_def fold_carry_unat summed_def)
qed

text \<open>Two frames whose byte sums differ by less than 65535 have different checksums.\<close>

lemma checksum_differs:
  assumes "length (mc_header m) = SIZEOF_HEADER" and "length (mc_header m') = SIZEOF_HEADER"
    and "summed m \<noteq> summed m'" and "summed m < summed m' + 65535" and "summed m' < summed m + 65535"
  shows "calculate_checksum m \<noteq> calculate_checksum m'"
proof
  assume "calculate_checksum m = calculate_checksum m'"
  then have "end_around (summed m) = end_around (summed m')" using assms(1,2) by (simp flip: checksum_value)
  with end_around_inj [of "summed m" "summed m'"] end_around_inj [of "summed m'" "summed m"] assms(3-5)
  show False by (cases "summed m \<le> summed m'") auto
qed

section \<open>Frames\<close>

definition message_ok :: "message_control \<Rightarrow> bool" where
  "message_ok m =
     (length (mc_header m) = SIZEOF_HEADER \<and> length (mc_message m) = MAX_PAYLOAD_SIZE \<and> length (mc_checksum m) = SIZEOF_CHECKSUM)"

definition frame :: "message_control \<Rightarrow> bytes" where
  "frame m = mc_header m @ payload_part m @ mc_checksum m"

text \<open>What a sender of the programs puts into a message.\<close>

definition built :: "bytes \<Rightarrow> command \<Rightarrow> priority \<Rightarrow> u64 \<Rightarrow> message_control \<Rightarrow> bool" where
  "built payload cmd pri num m =
     (message_ok m \<and> hdr_cmd m = word_of_nat (command_num cmd) \<and> hdr_pri m = word_of_nat (priority_num pri) \<and>
      hdr_number_packet m = num \<and> hdr_length m = int (length (take 2047 (cstr payload))) \<and>
      payload_part m = take 2047 (cstr payload) \<and> checksum m = calculate_checksum m)"

lemma enum_bounds: "command_num cmd < 10" "priority_num pri < 3"
  by (cases cmd; simp) (cases pri; simp)

lemma checksum_stored: "calculate_checksum (m \<lparr> mc_checksum := bs \<rparr>) = calculate_checksum m"
  by (simp add: calculate_checksum_def payload_part_def hdr_length_def)

lemma build_message_built:
  "fst (build_message (Some payload) cmd pri message num) = 0 \<and>
   built payload cmd pri num (snd (build_message (Some payload) cmd pri message num))"
proof -
  let ?p = "take 2047 (cstr payload)"
  let ?h = "le_bytes 4 (command_num cmd) @ le_bytes 4 (priority_num pri) @ le_bytes 8 (unat num) @ le_bytes 4 (length ?p) @ replicate 4 0"
  let ?m = "\<lparr> mc_header = ?h, mc_message = ?p @ 0 # replicate (2048 - length ?p - 1) 0, mc_checksum = replicate 4 0 \<rparr>"
  have b: "build_message (Some payload) cmd pri message num = (0, ?m \<lparr> mc_checksum := le_bytes 4 (unat (calculate_checksum ?m)) \<rparr>)"
    by (cases "length (cstr payload) \<ge> 2048") (simp_all add: build_message_def frame_consts Let_def min_def)
  have l: "length ?p \<le> 2047" by simp
  have v: "sint (word_of_nat (length ?p) :: 32 word) = int (length ?p)"
    using l by (simp add: signed_of_nat signed_take_bit_int_eq_self)
  let ?m' = "?m \<lparr> mc_checksum := le_bytes 4 (unat (calculate_checksum ?m)) \<rparr>"
  have len: "hdr_length ?m' = int (length ?p)"
    using l v by (simp add: hdr_length_def le_value_bytes del: length_take)
  have "message_ok ?m'" using l by (simp add: message_ok_def frame_consts)
  moreover have "hdr_cmd ?m' = word_of_nat (command_num cmd)"
    using enum_bounds(1) [of cmd] by (simp add: hdr_cmd_def le_value_bytes)
  moreover have "hdr_pri ?m' = word_of_nat (priority_num pri)"
    using enum_bounds(2) [of pri] by (simp add: hdr_pri_def le_value_bytes)
  moreover have "hdr_number_packet ?m' = num" by (simp add: hdr_number_packet_def le_value_word)
  moreover have "payload_part ?m' = ?p" unfolding payload_part_def len using l by (simp add: frame_consts min_def)
  moreover have "checksum ?m' = calculate_checksum ?m'"
    unfolding checksum_stored by (simp add: checksum_def le_value_word)
  ultimately show ?thesis unfolding built_def b using len by simp
qed

lemma command_of_num: "command_of (word_of_nat (command_num c)) = Some c"
  by (cases c) (simp_all add: command_of_def)

lemma priority_of_num: "priority_of (word_of_nat (priority_num p)) = Some p"
  by (cases p) (simp_all add: priority_of_def)

end
