(* ===== verification/Ring.thy ===== *)
theory Ring
  imports Linked_Nodes
begin

text \<open>
  Ring buffers in an array: the programs of the repository keep their queues as an array with a
  \<open>head\<close> index for the next write and a \<open>tail\<close> index for the next read, both taken modulo the
  size of the array. \<open>ring n buf head tail xs\<close> says that the array \<open>buf\<close> holds the queue \<open>xs\<close>.
\<close>

definition ring :: "nat \<Rightarrow> 'a list \<Rightarrow> nat \<Rightarrow> nat \<Rightarrow> 'a list \<Rightarrow> bool" where
  "ring n buf hd_ix tl_ix xs =
     (0 < n \<and> length buf = n \<and> tl_ix < n \<and> length xs \<le> n \<and> hd_ix = (tl_ix + length xs) mod n \<and>
      (\<forall>i < length xs. buf ! ((tl_ix + i) mod n) = xs ! i))"

lemma ring_bounds [ring_simps]:
  assumes "ring n buf h t xs"
  shows "h < n" and "t < n" and "length buf = n" and "length xs \<le> n" and "0 < n"
  using assms by (auto simp: ring_def)

lemma ring_empty: "0 < n \<Longrightarrow> length buf = n \<Longrightarrow> i < n \<Longrightarrow> ring n buf i i []"
  by (simp add: ring_def)

text \<open>Two offsets below the size of the array address two different cells.\<close>

lemma ring_slot_inj:
  assumes "i < n" and "j < n" and "(t + i) mod n = (t + j) mod n"
  shows "i = (j :: nat)"
  using assms
proof (induction i j rule: linorder_wlog)
  case (le i j)
  then have "n dvd (t + j) - (t + i)" using mod_eq_dvd_iff_nat [of "t + i" "t + j" n] by simp
  then have "n dvd j - i" by simp
  then show ?case using le by (metis diff_is_0_eq le_antisym less_imp_diff_less linorder_not_less dvd_imp_le neq0_conv)
qed (simp add: eq_commute)

lemma ring_put:
  assumes r: "ring n buf h t xs" and room: "length xs < n"
  shows "ring n (buf[h := x]) (Suc h mod n) t (xs @ [x])"
proof -
  have h: "h = (t + length xs) mod n" using r by (simp add: ring_def)
  have "buf[h := x] ! ((t + i) mod n) = (xs @ [x]) ! i" if "i < length (xs @ [x])" for i
  proof (cases "i = length xs")
    case True
    then show ?thesis using r h by (simp add: ring_def)
  next
    case False
    with that have i: "i < length xs" by simp
    then have "(t + i) mod n \<noteq> h" using ring_slot_inj [of i n "length xs" t] room h by auto
    then show ?thesis using r i by (simp add: ring_def nth_append)
  qed
  moreover have "Suc h mod n = (t + length (xs @ [x])) mod n" by (simp add: h mod_Suc_eq)
  ultimately show ?thesis using r room by (auto simp: ring_def)
qed

lemma ring_get:
  assumes r: "ring n buf h t (x # xs)"
  shows "buf ! t = x" and "ring n buf h (Suc t mod n) xs"
proof -
  have z: "\<forall>i < Suc (length xs). buf ! ((t + i) mod n) = (x # xs) ! i" and t: "t < n" using r by (simp_all add: ring_def)
  then show "buf ! t = x" by (auto dest: spec [of _ 0])
  have "buf ! ((Suc t mod n + i) mod n) = xs ! i" if "i < length xs" for i
    using z [rule_format, of "Suc i"] that by (simp add: mod_simps)
  moreover have "h = (Suc t mod n + length xs) mod n" using r by (simp add: ring_def mod_simps)
  ultimately show "ring n buf h (Suc t mod n) xs" using r by (auto simp: ring_def)
qed

lemma ring_full_head: "ring n buf h t xs \<Longrightarrow> length xs = n \<Longrightarrow> h = t"
  by (simp add: ring_def)

text \<open>The write index of a ring that is not full.\<close>

lemma ring_head_value:
  assumes r: "ring n buf h t xs" and l: "length xs < n"
  shows "h = (if t + length xs < n then t + length xs else t + length xs - n)"
proof -
  have "h = (t + length xs) mod n" and "t < n" using r by (simp_all add: ring_def)
  then show ?thesis using l by (simp add: le_mod_geq not_less)
qed

text \<open>Cells outside the queue do not matter, so a cell of the queue may be replaced in place.\<close>

lemma ring_update_front:
  assumes r: "ring n buf h t (x # xs)"
  shows "ring n (buf[t := y]) h t (y # xs)"
proof -
  have t: "t < n" "length buf = n" "length (x # xs) \<le> n" using r by (simp_all add: ring_def)
  have "buf[t := y] ! ((t + i) mod n) = (y # xs) ! i" if "i < length (y # xs)" for i
  proof (cases i)
    case 0
    then show ?thesis using t by simp
  next
    case (Suc j)
    then have "(t + i) mod n \<noteq> (t + 0) mod n" using ring_slot_inj [of i n 0 t] that t by force
    then have "(t + i) mod n \<noteq> t" using t by simp
    moreover have "buf ! ((t + i) mod n) = (x # xs) ! i" using r that unfolding ring_def by simp
    ultimately show ?thesis using Suc by simp
  qed
  then show ?thesis using r by (simp add: ring_def)
qed

lemma ring_set: "ring n buf h t xs \<Longrightarrow> set xs \<subseteq> set buf"
  by (auto simp: ring_def in_set_conv_nth) (metis length_greater_0_conv mod_less_divisor)

end
