(* ===== verification/Uds_Client.thy ===== *)
theory Uds_Client
  imports Uds_Message Ring
begin

unbundle bit_operations_syntax

text \<open>
  One connection of the control-plane server (\<open>unix-domain-socket-control-plane/gatewayd/server.h\<close>):
  the ring of outgoing messages, the reader of frames, and the sender of one message. The socket
  calls are the parameters \<open>rd\<close> and \<open>tx\<close>. The reader holds the connection's lock around its
  updates and releases it around \<open>recv\<close>; between these only other threads' flags change.
\<close>

section \<open>The code\<close>

definition NUM_PACKET_TO_SEND :: nat where "NUM_PACKET_TO_SEND = 16"
definition WIRE_BUF_SIZE :: nat where "WIRE_BUF_SIZE = SIZEOF_HEADER + MAX_PAYLOAD_SIZE + SIZEOF_CHECKSUM"

datatype rx_stage = READ_HEADER | READ_PAYLOAD | READ_CHECKSUM

record outgoing =
  o_msg :: message_control
  o_wire_buf :: bytes
  o_bytes_sent :: nat

text \<open>\<open>session\<close> points into the session table of the server: an index of it, or NULL.\<close>

record client =
  c_fd :: int
  c_connected :: bool
  c_connection_id :: u64
  c_generation :: u64
  c_session :: "nat option"
  c_stage :: rx_stage
  c_message :: message_control
  c_bytes_read :: nat
  c_pending_close :: bool
  c_pending_task :: nat
  c_last_active :: u64
  c_connected_at :: u64
  c_packet_sent :: u64
  c_packet_received :: u64
  c_send_queue :: "outgoing list"
  c_send_head :: nat
  c_send_tail :: nat
  c_send_count :: nat

text \<open>The memory that \<open>memset\<close> leaves.\<close>

definition zero_message :: message_control where
  "zero_message = \<lparr> mc_header = replicate SIZEOF_HEADER 0, mc_message = replicate MAX_PAYLOAD_SIZE 0, mc_checksum = replicate SIZEOF_CHECKSUM 0 \<rparr>"

definition zero_outgoing :: outgoing where
  "zero_outgoing = \<lparr> o_msg = zero_message, o_wire_buf = replicate WIRE_BUF_SIZE 0, o_bytes_sent = 0 \<rparr>"

definition zero_client :: client where
  "zero_client = \<lparr> c_fd = 0, c_connected = False, c_connection_id = 0, c_generation = 0, c_session = None,
     c_stage = READ_HEADER, c_message = zero_message, c_bytes_read = 0, c_pending_close = False, c_pending_task = 0,
     c_last_active = 0, c_connected_at = 0, c_packet_sent = 0, c_packet_received = 0,
     c_send_queue = replicate NUM_PACKET_TO_SEND zero_outgoing, c_send_head = 0, c_send_tail = 0, c_send_count = 0 \<rparr>"

definition init_client :: "u64 \<Rightarrow> u64 \<Rightarrow> u64 \<Rightarrow> u64 \<Rightarrow> client" where
  "init_client connection_id generation now now' =
     zero_client \<lparr> c_connection_id := connection_id, c_generation := generation, c_connected_at := now, c_last_active := now',
       c_stage := READ_HEADER, c_bytes_read := 0, c_packet_received := 0, c_packet_sent := 0,
       c_send_count := 0, c_send_head := 0, c_send_tail := 0 \<rparr>"

definition queue_client :: "client \<Rightarrow> message_control \<Rightarrow> (int \<times> client) option" where
  "queue_client client send_message =
     (let client = (if c_send_count client = 16
                    then client \<lparr> c_send_tail := (c_send_tail client + 1) mod 16, c_send_count := c_send_count client - 1 \<rparr>
                    else client);
          i = c_send_head client
      in if i \<ge> length (c_send_queue client) then None
         else Some (0, client \<lparr>
           c_send_queue := (c_send_queue client)[i := (c_send_queue client ! i) \<lparr> o_msg := send_message, o_bytes_sent := 0 \<rparr>],
           c_send_head := (i + 1) mod 16, c_send_count := c_send_count client + 1 \<rparr>))"

definition advance_send_queue :: "client \<Rightarrow> client" where
  "advance_send_queue client =
     client \<lparr> c_send_tail := (c_send_tail client + 1) mod NUM_PACKET_TO_SEND, c_send_count := c_send_count client - 1 \<rparr>"

definition dequeue_client :: "client \<Rightarrow> message_control \<Rightarrow> (int \<times> message_control \<times> client) option" where
  "dequeue_client client send_message =
     (if c_send_count client = 0 then Some (-1, send_message, client)
      else if c_send_tail client \<ge> length (c_send_queue client) then None
      else Some (0, o_msg (c_send_queue client ! c_send_tail client), advance_send_queue client))"

text \<open>
  The loop of \<open>send_message_chunk\<close> from \<open>offset\<close> on: the return value it leads to, with the offset
  that is stored when the socket would block. The result is undefined when the fuel runs out.
\<close>

fun send_chunk_loop ::
  "nat \<Rightarrow> (errno, 'w) sender \<Rightarrow> 'w \<Rightarrow> bytes \<Rightarrow> nat \<Rightarrow> nat \<Rightarrow> (int \<times> nat \<times> 'w) option" where
  "send_chunk_loop 0 tx w buf len offset = None"
| "send_chunk_loop (Suc k) tx w buf len offset =
     (if offset < len then do {
        bs \<leftarrow> peek offset (len - offset) buf;
        case tx w bs of
          (TxErr EINTR, w) \<Rightarrow> send_chunk_loop k tx w buf len offset
        | (TxErr EAGAIN, w) \<Rightarrow> Some (0, offset, w)
        | (TxErr EOTHER, w) \<Rightarrow> Some (-1, offset, w)
        | (Sent n, w) \<Rightarrow> if n = 0 then Some (-1, offset, w) else send_chunk_loop k tx w buf len (offset + n)
      } else Some (1, offset, w))"

definition put_front :: "client \<Rightarrow> outgoing \<Rightarrow> client" where
  "put_front client out = client \<lparr> c_send_queue := (c_send_queue client)[c_send_tail client := out] \<rparr>"

definition fill_wire_buf :: "outgoing \<Rightarrow> outgoing option" where
  "fill_wire_buf out = do {
     payload \<leftarrow> peek 0 (nat (hdr_length (o_msg out))) (mc_message (o_msg out));
     buf \<leftarrow> poke 0 (mc_header (o_msg out) @ payload @ mc_checksum (o_msg out)) (o_wire_buf out);
     Some (out \<lparr> o_wire_buf := buf \<rparr>)
   }"

definition send_message_chunk :: "nat \<Rightarrow> (errno, 'w) sender \<Rightarrow> 'w \<Rightarrow> client \<Rightarrow> (int \<times> 'w \<times> client) option" where
  "send_message_chunk k tx w client =
     (if c_send_count client = 0 then Some (1, w, client)
      else if c_send_tail client \<ge> length (c_send_queue client) then None
      else do {
        let out = c_send_queue client ! c_send_tail client;
        let total = SIZEOF_HEADER + nat (hdr_length (o_msg out)) + SIZEOF_CHECKSUM;
        out \<leftarrow> (if o_bytes_sent out = 0 then fill_wire_buf out else Some out);
        (r, offset, w) \<leftarrow> send_chunk_loop k tx w (o_wire_buf out) total (o_bytes_sent out);
        if r = 1 then Some (1, w, advance_send_queue (put_front client out))
        else if r = 0 then Some (0, w, put_front client (out \<lparr> o_bytes_sent := offset \<rparr>))
        else Some (r, w, put_front client out)
      })"

definition calculate_length_packet :: "message_control option \<Rightarrow> int" where
  "calculate_length_packet message =
     (case message of
        None \<Rightarrow> -1
      | Some m \<Rightarrow> if hdr_length m < 0 \<or> hdr_length m > int MAX_PAYLOAD_SIZE then -1
                  else int SIZEOF_HEADER + hdr_length m + int SIZEOF_CHECKSUM)"

text \<open>
  \<open>read_stage\<close>. Its three branches receive into the header, the payload and the checksum; what they
  share is written once: \<open>stage_size\<close> is the size of the field and \<open>store_stage\<close> the bytes received.
  The loop leaves as soon as \<open>frames_processed\<close> is no longer 0, so its bound is never reached.
\<close>

definition stage_size :: "client \<Rightarrow> nat" where
  "stage_size client =
     (case c_stage client of
        READ_HEADER \<Rightarrow> SIZEOF_HEADER
      | READ_PAYLOAD \<Rightarrow> nat (hdr_length (c_message client))
      | READ_CHECKSUM \<Rightarrow> SIZEOF_CHECKSUM)"

definition store_stage :: "client \<Rightarrow> bytes \<Rightarrow> client option" where
  "store_stage client bs =
     (let m = c_message client; i = c_bytes_read client in do {
        m \<leftarrow> (case c_stage client of
               READ_HEADER \<Rightarrow> map_option (\<lambda>x. m \<lparr> mc_header := x \<rparr>) (poke i bs (mc_header m))
             | READ_PAYLOAD \<Rightarrow> map_option (\<lambda>x. m \<lparr> mc_message := x \<rparr>) (poke i bs (mc_message m))
             | READ_CHECKSUM \<Rightarrow> map_option (\<lambda>x. m \<lparr> mc_checksum := x \<rparr>) (poke i bs (mc_checksum m)));
        Some (client \<lparr> c_message := m, c_bytes_read := i + length bs \<rparr>)
      })"

definition finish_frame :: "client \<Rightarrow> int \<times> client" where
  "finish_frame client =
     (let ok = (calculate_checksum (c_message client) = checksum (c_message client));
          client = client \<lparr> c_bytes_read := 0, c_stage := READ_HEADER \<rparr>
      in if ok then (1, client \<lparr> c_pending_task := c_pending_task client + 1, c_packet_received := c_packet_received client + 1 \<rparr>)
         else (2, client))"

fun read_stage :: "nat \<Rightarrow> 'w reader \<Rightarrow> 'w \<Rightarrow> client \<Rightarrow> (int \<times> 'w \<times> client) option" where
  "read_stage 0 rd w client = None"
| "read_stage (Suc k) rd w client =
     (if c_pending_close client then Some (-1, w, client)
      else case rd w (stage_size client - c_bytes_read client) of
        (RxErr EINTR, w) \<Rightarrow> read_stage k rd w client
      | (RxErr EAGAIN, w) \<Rightarrow> Some (0, w, client)
      | (RxErr EOTHER, w) \<Rightarrow> Some (-1, w, client \<lparr> c_pending_close := True \<rparr>)
      | (RxEof, w) \<Rightarrow> Some (-1, w, client \<lparr> c_pending_close := True \<rparr>)
      | (RxData bs, w) \<Rightarrow> do {
          client \<leftarrow> store_stage client bs;
          if c_bytes_read client < stage_size client then Some (0, w, client)
          else case c_stage client of
            READ_HEADER \<Rightarrow>
              let len = hdr_length (c_message client) in
              if len < 0 \<or> len > int MAX_PAYLOAD_SIZE then Some (-1, w, client \<lparr> c_pending_close := True \<rparr>)
              else read_stage k rd w (client \<lparr> c_bytes_read := 0, c_stage := (if len = 0 then READ_CHECKSUM else READ_PAYLOAD) \<rparr>)
          | READ_PAYLOAD \<Rightarrow> read_stage k rd w (client \<lparr> c_bytes_read := 0, c_stage := READ_CHECKSUM \<rparr>)
          | READ_CHECKSUM \<Rightarrow> (case finish_frame client of (r, client) \<Rightarrow> Some (r, w, client))
        })"

declare read_stage.simps(2) [simp del] send_chunk_loop.simps(2) [simp del]

section \<open>Reading a frame\<close>

text \<open>The bytes of the current frame that have arrived, and the invariant between calls.\<close>

definition rx_bytes :: "client \<Rightarrow> bytes" where
  "rx_bytes c =
     (let m = c_message c; i = c_bytes_read c in
      case c_stage c of
        READ_HEADER \<Rightarrow> take i (mc_header m)
      | READ_PAYLOAD \<Rightarrow> mc_header m @ take i (mc_message m)
      | READ_CHECKSUM \<Rightarrow> mc_header m @ payload_part m @ take i (mc_checksum m))"

definition length_ok :: "message_control \<Rightarrow> bool" where
  "length_ok m = (0 \<le> hdr_length m \<and> hdr_length m \<le> int MAX_PAYLOAD_SIZE)"

definition rx_inv :: "client \<Rightarrow> bool" where
  "rx_inv c =
     (message_ok (c_message c) \<and>
      (c_pending_close c \<or> c_bytes_read c < stage_size c \<and> (c_stage c = READ_HEADER \<or> length_ok (c_message c))))"

text \<open>What reading leaves alone.\<close>

definition same_conn :: "client \<Rightarrow> client \<Rightarrow> bool" where
  "same_conn c c' =
     (c_fd c' = c_fd c \<and> c_connected c' = c_connected c \<and> c_connection_id c' = c_connection_id c \<and>
      c_generation c' = c_generation c \<and> c_session c' = c_session c \<and> c_send_queue c' = c_send_queue c \<and>
      c_send_head c' = c_send_head c \<and> c_send_tail c' = c_send_tail c \<and> c_send_count c' = c_send_count c)"

definition read_result :: "client \<Rightarrow> bytes \<Rightarrow> int \<Rightarrow> client \<Rightarrow> bool" where
  "read_result c got r c' =
     (same_conn c c' \<and> rx_inv c' \<and>
      (r = 0 \<and> rx_bytes c' = rx_bytes c @ got \<and> \<not> c_pending_close c' \<and> c_pending_task c' = c_pending_task c
       \<or> r = -1 \<and> c_pending_close c' \<and> c_pending_task c' = c_pending_task c
       \<or> (r = 1 \<or> r = 2) \<and> frame (c_message c') = rx_bytes c @ got \<and> length_ok (c_message c') \<and> \<not> c_pending_close c' \<and>
         c_stage c' = READ_HEADER \<and> c_bytes_read c' = 0 \<and>
         (r = 1 \<longleftrightarrow> calculate_checksum (c_message c') = checksum (c_message c')) \<and>
         c_pending_task c' = c_pending_task c + (if r = 1 then 1 else 0)))"

lemma stage_size_message: "message_ok (c_message c) \<Longrightarrow> c_stage c = READ_HEADER \<or> length_ok (c_message c) \<Longrightarrow> stage_size c \<le> 2048"
  by (auto simp: stage_size_def length_ok_def frame_consts split: rx_stage.splits)

lemma store_stage_ok:
  assumes inv: "rx_inv c" "\<not> c_pending_close c" and bs: "length bs \<le> stage_size c - c_bytes_read c"
  shows "\<exists>c'. store_stage c bs = Some c' \<and> same_conn c c' \<and> message_ok (c_message c') \<and> c_stage c' = c_stage c \<and>
    c_bytes_read c' = c_bytes_read c + length bs \<and> rx_bytes c' = rx_bytes c @ bs \<and>
    (c_stage c = READ_HEADER \<or> stage_size c' = stage_size c \<and> length_ok (c_message c')) \<and>
    c_pending_close c' = c_pending_close c \<and> c_pending_task c' = c_pending_task c"
proof -
  let ?m = "c_message c" and ?i = "c_bytes_read c"
  have m: "message_ok ?m" and l: "c_stage c = READ_HEADER \<or> length_ok ?m" and i: "?i + length bs \<le> stage_size c"
    using assms by (auto simp: rx_inv_def)
  show ?thesis
  proof (cases "c_stage c")
    case READ_HEADER
    let ?f = "take ?i (mc_header ?m) @ bs @ drop (?i + length bs) (mc_header ?m)"
    have "store_stage c bs = Some (c \<lparr> c_message := ?m \<lparr> mc_header := ?f \<rparr>, c_bytes_read := ?i + length bs \<rparr>)"
      using READ_HEADER i m by (simp add: store_stage_def Let_def poke_def stage_size_def message_ok_def)
    then show ?thesis using READ_HEADER i m
      by (auto simp: same_conn_def message_ok_def rx_bytes_def Let_def stage_size_def frame_consts)
  next
    case READ_PAYLOAD
    let ?f = "take ?i (mc_message ?m) @ bs @ drop (?i + length bs) (mc_message ?m)"
    have "nat (hdr_length ?m) \<le> 2048" using READ_PAYLOAD l unfolding length_ok_def frame_consts by auto
    then have b: "?i + length bs \<le> 2048" using READ_PAYLOAD i by (simp add: stage_size_def)
    then have "store_stage c bs = Some (c \<lparr> c_message := ?m \<lparr> mc_message := ?f \<rparr>, c_bytes_read := ?i + length bs \<rparr>)"
      using READ_PAYLOAD m by (simp add: store_stage_def Let_def poke_def message_ok_def frame_consts)
    then show ?thesis using READ_PAYLOAD b m l
      by (auto simp: same_conn_def message_ok_def rx_bytes_def Let_def stage_size_def length_ok_def hdr_length_def frame_consts)
  next
    case READ_CHECKSUM
    let ?f = "take ?i (mc_checksum ?m) @ bs @ drop (?i + length bs) (mc_checksum ?m)"
    have "store_stage c bs = Some (c \<lparr> c_message := ?m \<lparr> mc_checksum := ?f \<rparr>, c_bytes_read := ?i + length bs \<rparr>)"
      using READ_CHECKSUM i m by (simp add: store_stage_def Let_def poke_def stage_size_def message_ok_def)
    then show ?thesis using READ_CHECKSUM i m l
      by (auto simp: same_conn_def message_ok_def rx_bytes_def Let_def stage_size_def length_ok_def hdr_length_def payload_part_def frame_consts)
  qed
qed

text \<open>A field that is complete: the next stage continues the same frame.\<close>

lemma next_stage:
  assumes m: "message_ok (c_message c)" and full: "c_bytes_read c = stage_size c"
  shows "c_stage c = READ_HEADER \<Longrightarrow> length_ok (c_message c) \<Longrightarrow> s = (if hdr_length (c_message c) = 0 then READ_CHECKSUM else READ_PAYLOAD) \<Longrightarrow>
      rx_bytes (c \<lparr> c_bytes_read := 0, c_stage := s \<rparr>) = rx_bytes c \<and> rx_inv (c \<lparr> c_bytes_read := 0, c_stage := s \<rparr>)"
    and "c_stage c = READ_PAYLOAD \<Longrightarrow> length_ok (c_message c) \<Longrightarrow>
      rx_bytes (c \<lparr> c_bytes_read := 0, c_stage := READ_CHECKSUM \<rparr>) = rx_bytes c \<and> rx_inv (c \<lparr> c_bytes_read := 0, c_stage := READ_CHECKSUM \<rparr>)"
    and "c_stage c = READ_CHECKSUM \<Longrightarrow> length_ok (c_message c) \<Longrightarrow> frame (c_message c) = rx_bytes c"
  using assms
  by (auto simp: rx_bytes_def Let_def rx_inv_def stage_size_def message_ok_def length_ok_def frame_def payload_part_def frame_consts)

lemma same_conn_refl [simp]: "same_conn c c"
  by (simp add: same_conn_def)

lemma same_conn_trans: "same_conn a b \<Longrightarrow> same_conn b c \<Longrightarrow> same_conn a c"
  by (simp add: same_conn_def)

lemma same_conn_update [simp]:
  "same_conn c (c' \<lparr> c_bytes_read := i \<rparr>) = same_conn c c'" "same_conn c (c' \<lparr> c_stage := s \<rparr>) = same_conn c c'"
  "same_conn c (c' \<lparr> c_pending_close := b \<rparr>) = same_conn c c'" "same_conn c (c' \<lparr> c_pending_task := n \<rparr>) = same_conn c c'"
  "same_conn c (c' \<lparr> c_packet_received := p \<rparr>) = same_conn c c'"
  by (simp_all add: same_conn_def)

lemma finish_frame_result:
  assumes "message_ok (c_message c)" "length_ok (c_message c)" "frame (c_message c) = rx_bytes c0 @ got" "same_conn c0 c"
    and "\<not> c_pending_close c" "c_pending_task c = c_pending_task c0" "finish_frame c = (r, c')"
  shows "read_result c0 got r c'"
  using assms
  by (auto simp: finish_frame_def read_result_def rx_inv_def stage_size_def frame_consts Let_def split: if_splits)

text \<open>Later parts of a frame: a result for the continuation is one for the whole.\<close>

lemma read_result_continue:
  assumes "read_result c1 got' r c'" "same_conn c c1" "rx_bytes c1 = rx_bytes c @ got" "c_pending_task c1 = c_pending_task c"
  shows "read_result c (got @ got') r c'"
  using assms same_conn_trans [of c c1 c'] by (auto simp: read_result_def)

lemma read_result_close:
  "same_conn c c1 \<Longrightarrow> message_ok (c_message c1) \<Longrightarrow> c_pending_task c1 = c_pending_task c \<Longrightarrow> read_result c got (-1) (c1 \<lparr> c_pending_close := True \<rparr>)"
  by (simp add: read_result_def rx_inv_def)

lemma read_result_wait:
  "rx_inv c \<Longrightarrow> \<not> c_pending_close c \<Longrightarrow> read_result c [] 0 c"
  by (simp add: read_result_def)

text \<open>What a prefix of the stream tells: a whole frame, or a header with a length out of range.\<close>

definition len_field :: "bytes \<Rightarrow> int" where
  "len_field bs = sint (word_of_nat (le_value (take 4 (drop 16 bs))) :: 32 word)"

definition bad_length :: "bytes \<Rightarrow> bool" where
  "bad_length bs = (24 \<le> length bs \<and> \<not> (0 \<le> len_field bs \<and> len_field bs \<le> 2048))"

definition whole_frame :: "bytes \<Rightarrow> bool" where
  "whole_frame bs = (24 \<le> length bs \<and> 0 \<le> len_field bs \<and> len_field bs \<le> 2048 \<and> 28 + nat (len_field bs) \<le> length bs)"

lemma len_field_header: "length (mc_header m) = 24 \<Longrightarrow> len_field (mc_header m @ bs) = hdr_length m"
  by (simp add: len_field_def hdr_length_def)

lemma len_field_take: "len_field (take 24 bs) = len_field bs"
  by (simp add: len_field_def take_drop)

lemma payload_part_ok: "message_ok m \<Longrightarrow> length_ok m \<Longrightarrow> length (payload_part m) = nat (hdr_length m)"
  by (auto simp: payload_part_def message_ok_def length_ok_def frame_consts)

lemma frame_whole: "message_ok m \<Longrightarrow> length_ok m \<Longrightarrow> whole_frame (frame m @ rest)"
  using payload_part_ok [of m]
  by (simp add: whole_frame_def frame_def len_field_header message_ok_def length_ok_def frame_consts)

lemma rx_not_whole:
  assumes "rx_inv c" and "\<not> c_pending_close c"
  shows "\<not> whole_frame (rx_bytes c) \<and> \<not> bad_length (rx_bytes c)"
proof (cases "c_stage c")
  case READ_HEADER
  then show ?thesis using assms by (simp add: rx_bytes_def Let_def rx_inv_def stage_size_def whole_frame_def bad_length_def frame_consts)
next
  case READ_PAYLOAD
  then show ?thesis using assms
    by (auto simp: rx_bytes_def Let_def rx_inv_def stage_size_def whole_frame_def bad_length_def len_field_header message_ok_def length_ok_def frame_consts)
next
  case READ_CHECKSUM
  then show ?thesis using assms payload_part_ok [of "c_message c"]
    by (auto simp: rx_bytes_def Let_def rx_inv_def stage_size_def whole_frame_def bad_length_def len_field_header message_ok_def length_ok_def frame_consts)
qed

lemma frame_unique:
  assumes "message_ok m" "length_ok m" "message_ok m'" "length_ok m'" "frame m @ xs = frame m' @ ys"
  shows "mc_header m = mc_header m'" and "payload_part m = payload_part m'" and "mc_checksum m = mc_checksum m'" and "xs = ys"
proof -
  have h: "mc_header m = mc_header m'" and t: "payload_part m @ mc_checksum m @ xs = payload_part m' @ mc_checksum m' @ ys"
    using assms by (auto simp: frame_def message_ok_def)
  then have "length (payload_part m) = length (payload_part m')"
    using payload_part_ok assms(1-4) by (simp add: hdr_length_def)
  with t have p: "payload_part m = payload_part m'" "mc_checksum m @ xs = mc_checksum m' @ ys" by auto
  with assms(1,3) show "mc_header m = mc_header m'" "payload_part m = payload_part m'" "mc_checksum m = mc_checksum m'" "xs = ys"
    using h by (auto simp: message_ok_def)
qed

context byte_reader
begin

text \<open>
  With enough fuel \<open>read_stage\<close> returns: it waits for the rest of the frame, closes the connection, or
  has read exactly the bytes of one frame, valid (1) or with a wrong checksum (2).
\<close>

definition read_world :: "client \<Rightarrow> bytes \<Rightarrow> int \<Rightarrow> 'w \<Rightarrow> 'w \<Rightarrow> bool" where
  "read_world c got r w w' =
     (avail w = got @ avail w' \<and>
      (\<not> c_pending_close c \<and> avail w \<noteq> [] \<longrightarrow> got \<noteq> []) \<and>
      (r = 0 \<and> avail w' \<noteq> [] \<longrightarrow> work w' \<le> work w) \<and>
      (r = -1 \<longrightarrow> c_pending_close c \<or> bad_length (rx_bytes c @ got) \<or> avail w' = [] \<and> \<not> whole_frame (rx_bytes c @ got)))"

lemma read_blocked:
  assumes "rx_inv c" "\<not> c_pending_close c" "0 < n" "rd w n = (RxErr e, w') \<or> rd w n = (RxEof, w')" "e \<noteq> EINTR"
  shows "avail w' = avail w \<and> avail w = []" "read_world c [] 0 w w'" "read_world c [] (-1) w w'"
proof -
  have "avail w = []" using rd_ready [OF _ assms(3)] assms(4,5) by (metis Pair_inject rx_result.distinct(1,3,5) rx_result.inject(2))
  with rd_keep [OF assms(4)] show "avail w' = avail w \<and> avail w = []" by simp
  with rx_not_whole [OF assms(1,2)] show "read_world c [] 0 w w'" "read_world c [] (-1) w w'" by (auto simp: read_world_def)
qed

lemma read_world_continue:
  assumes "read_world c1 got' r w1 w'" "rd w n = (RxData bs, w1)" "0 < n" "rx_bytes c1 = rx_bytes c @ bs" "c_pending_close c1 = c_pending_close c"
  shows "read_world c (bs @ got') r w w'"
proof -
  from assms(1) have a: "avail w1 = got' @ avail w'"
    and z: "r = 0 \<and> avail w' \<noteq> [] \<longrightarrow> work w' \<le> work w1"
    and f: "r = -1 \<longrightarrow> c_pending_close c1 \<or> bad_length (rx_bytes c1 @ got') \<or> avail w' = [] \<and> \<not> whole_frame (rx_bytes c1 @ got')"
    unfolding read_world_def by blast+
  have "avail w = (bs @ got') @ avail w'" using rd_data [OF assms(2)] a by simp
  moreover have p: "bs \<noteq> []" "work w1 < work w" using rd_progress [OF assms(3,2)] by blast+
  moreover have "r = 0 \<and> avail w' \<noteq> [] \<longrightarrow> work w' \<le> work w" using z p(2) by linarith
  ultimately show ?thesis unfolding read_world_def using f [unfolded assms(4,5) append_assoc] by blast
qed

lemma read_world_data:
  assumes "rd w n = (RxData bs, w1)" "0 < n" "r = -1 \<longrightarrow> bad_length (rx_bytes c @ bs)"
  shows "read_world c bs r w w1"
  using assms(3) rd_data [OF assms(1)] rd_progress [OF assms(2,1)] by (auto simp: read_world_def)

lemma read_stage_data:
  assumes IH: "\<And>w c. work w < k \<Longrightarrow> rx_inv c \<Longrightarrow>
      \<exists>r w' c' got. read_stage k rd w c = Some (r, w', c') \<and> read_world c got r w w' \<and> read_result c got r c'"
    and w: "work w < Suc k" and inv: "rx_inv c" "\<not> c_pending_close c"
    and d: "rd w (stage_size c - c_bytes_read c) = (RxData bs, w1)"
  shows "\<exists>r w' c' got. read_stage (Suc k) rd w c = Some (r, w', c') \<and> read_world c got r w w' \<and> read_result c got r c'"
proof -
  let ?n = "stage_size c - c_bytes_read c"
  have n: "0 < ?n" using inv by (auto simp: rx_inv_def)
  have w1: "work w1 < k" and bs: "length bs \<le> ?n" using rd_data [OF d] rd_progress [OF n d] w by auto
  obtain c1 where c1: "store_stage c bs = Some c1" "same_conn c c1" "message_ok (c_message c1)" "c_stage c1 = c_stage c"
      "c_bytes_read c1 = c_bytes_read c + length bs" "rx_bytes c1 = rx_bytes c @ bs"
      "c_stage c = READ_HEADER \<or> stage_size c1 = stage_size c \<and> length_ok (c_message c1)"
      "\<not> c_pending_close c1" "c_pending_task c1 = c_pending_task c"
    using store_stage_ok [OF inv bs] inv(2) by blast
  have size: "stage_size c1 = stage_size c" using c1(4,7) by (auto simp: stage_size_def)
  have go: "\<exists>r w' c' got. read_stage k rd w1 c2 = Some (r, w', c') \<and> read_world c got r w w' \<and> read_result c got r c'"
    if "c2 = c1 \<lparr> c_bytes_read := 0, c_stage := s \<rparr>" "rx_bytes c2 = rx_bytes c1 \<and> rx_inv c2" for c2 s
  proof -
    from IH [OF w1, of c2] that obtain r w' c' got where
      r: "read_stage k rd w1 c2 = Some (r, w', c')" "read_world c2 got r w1 w'" "read_result c2 got r c'" by blast
    have "read_world c (bs @ got) r w w'" using read_world_continue [OF r(2) d n] that c1 inv(2) by simp
    moreover have "read_result c (bs @ got) r c'" using read_result_continue [OF r(3)] that c1 by simp
    ultimately show ?thesis using r(1) by blast
  qed
  have eq: "read_stage (Suc k) rd w c = (if c_bytes_read c1 < stage_size c1 then Some (0, w1, c1) else case c_stage c1 of
      READ_HEADER \<Rightarrow> let len = hdr_length (c_message c1) in
        if len < 0 \<or> len > int MAX_PAYLOAD_SIZE then Some (-1, w1, c1 \<lparr> c_pending_close := True \<rparr>)
        else read_stage k rd w1 (c1 \<lparr> c_bytes_read := 0, c_stage := (if len = 0 then READ_CHECKSUM else READ_PAYLOAD) \<rparr>)
    | READ_PAYLOAD \<Rightarrow> read_stage k rd w1 (c1 \<lparr> c_bytes_read := 0, c_stage := READ_CHECKSUM \<rparr>)
    | READ_CHECKSUM \<Rightarrow> (case finish_frame c1 of (r, client) \<Rightarrow> Some (r, w1, client)))"
    using inv(2) d c1(1) by (simp add: read_stage.simps(2))
  show ?thesis
  proof (cases "c_bytes_read c1 < stage_size c1")
    case True
    then have "rx_inv c1" using c1 by (auto simp: rx_inv_def)
    with c1 have "read_result c bs 0 c1" by (simp add: read_result_def)
    moreover have "read_world c bs 0 w w1" using read_world_data [OF d n, of 0 c] by simp
    moreover have "read_stage (Suc k) rd w c = Some (0, w1, c1)" using True eq by simp
    ultimately show ?thesis by blast
  next
    case False
    have full: "c_bytes_read c1 = stage_size c1" using False bs size c1(5) inv by (auto simp: rx_inv_def)
    note nx = next_stage [OF c1(3) full]
    show ?thesis
    proof (cases "c_stage c1")
      case READ_HEADER
      show ?thesis
      proof (cases "length_ok (c_message c1)")
        case True
        then have "read_stage (Suc k) rd w c = read_stage k rd w1 (c1 \<lparr> c_bytes_read := 0,
            c_stage := (if hdr_length (c_message c1) = 0 then READ_CHECKSUM else READ_PAYLOAD) \<rparr>)"
          using eq READ_HEADER False by (simp add: length_ok_def Let_def)
        with go [OF refl nx(1) [OF READ_HEADER True refl]] show ?thesis by simp
      next
        case bad: False
        have "rx_bytes c1 = mc_header (c_message c1)" "length (mc_header (c_message c1)) = 24"
          using READ_HEADER full c1(3) by (auto simp: rx_bytes_def Let_def stage_size_def message_ok_def frame_consts)
        then have "bad_length (rx_bytes c1)" using bad len_field_header [of "c_message c1" "[]"]
          by (auto simp: bad_length_def length_ok_def frame_consts)
        then have "read_world c bs (-1) w w1" using read_world_data [OF d n, of "-1" c] c1(6) by simp
        moreover have "read_stage (Suc k) rd w c = Some (-1, w1, c1 \<lparr> c_pending_close := True \<rparr>)"
          using eq READ_HEADER False bad by (auto simp: length_ok_def Let_def)
        ultimately show ?thesis using read_result_close [OF c1(2,3,9)] by blast
      qed
    next
      case READ_PAYLOAD
      then have "length_ok (c_message c1)" using c1(4,7) by simp
      from go [OF refl nx(2) [OF READ_PAYLOAD this]] show ?thesis using eq READ_PAYLOAD False by simp
    next
      case READ_CHECKSUM
      then have ok: "length_ok (c_message c1)" using c1(4,7) by simp
      obtain r c' where f: "finish_frame c1 = (r, c')" by fastforce
      then have "r \<noteq> -1" by (auto simp: finish_frame_def Let_def split: if_splits)
      then have "read_world c bs r w w1" using read_world_data [OF d n] by simp
      moreover have "read_result c bs r c'"
        using finish_frame_result [OF c1(3) ok _ c1(2,8,9) f] nx(3) [OF READ_CHECKSUM ok] c1(6) by simp
      moreover have "read_stage (Suc k) rd w c = Some (r, w1, c')" using eq READ_CHECKSUM False f by simp
      ultimately show ?thesis by blast
    qed
  qed
qed

lemma read_stage_result:
  assumes "work w < k" and "rx_inv c"
  shows "\<exists>r w' c' got. read_stage k rd w c = Some (r, w', c') \<and> read_world c got r w w' \<and> read_result c got r c'"
  using assms
proof (induction k arbitrary: w c)
  case (Suc k)
  show ?case
  proof (cases "c_pending_close c")
    case True
    then have "read_stage (Suc k) rd w c = Some (-1, w, c)" "read_world c [] (-1) w w" "read_result c [] (-1) c"
      using Suc.prems by (simp_all add: read_stage.simps(2) read_result_def rx_inv_def read_world_def)
    then show ?thesis by blast
  next
    case op: False
    let ?n = "stage_size c - c_bytes_read c"
    have n: "0 < ?n" and m: "message_ok (c_message c)" using Suc.prems(2) op by (auto simp: rx_inv_def)
    obtain x w1 where x: "rd w ?n = (x, w1)" by fastforce
    note blocked = read_blocked [OF Suc.prems(2) op n]
    have close: "read_result c [] (-1) (c \<lparr> c_pending_close := True \<rparr>)" using read_result_close m by simp
    consider bs where "x = RxData bs" | "x = RxErr EINTR" | "x = RxErr EAGAIN" | "x = RxErr EOTHER" | "x = RxEof"
      by (cases x; simp; rename_tac e; case_tac e; simp)
    then show ?thesis
    proof cases
      case 1
      then have d: "rd w ?n = (RxData bs, w1)" using x by simp
      show ?thesis by (rule read_stage_data [OF Suc.IH Suc.prems op d])
    next
      case 2
      then have i: "work w1 < work w" "avail w1 = avail w" using x rd_interrupt [of w ?n w1] rd_keep [of w ?n EINTR w1] by simp_all
      then have "work w1 < k" using Suc.prems(1) by simp
      from Suc.IH [OF this Suc.prems(2)] obtain r w' c' got where
        r: "read_stage k rd w1 c = Some (r, w', c')" "read_world c got r w1 w'" "read_result c got r c'" by blast
      have "read_world c got r w w'" using r(2) i(1) unfolding read_world_def i(2) by force
      moreover have "read_stage (Suc k) rd w c = Some (r, w', c')" using x 2 op r(1) by (simp add: read_stage.simps(2))
      ultimately show ?thesis using r(3) by blast
    next
      case 3
      then have "read_stage (Suc k) rd w c = Some (0, w1, c)" using x op by (simp add: read_stage.simps(2))
      moreover have "read_world c [] 0 w w1" using blocked(2) [of w EAGAIN w1] x 3 by simp
      ultimately show ?thesis using read_result_wait [OF Suc.prems(2) op] by blast
    next
      case 4
      then have "read_stage (Suc k) rd w c = Some (-1, w1, c \<lparr> c_pending_close := True \<rparr>)" using x op by (simp add: read_stage.simps(2))
      moreover have "read_world c [] (-1) w w1" using blocked(3) [of w EOTHER w1] x 4 by simp
      ultimately show ?thesis using close by blast
    next
      case 5
      then have "read_stage (Suc k) rd w c = Some (-1, w1, c \<lparr> c_pending_close := True \<rparr>)" using x op by (simp add: read_stage.simps(2))
      moreover have "read_world c [] (-1) w w1" using blocked(3) [of w EOTHER w1] x 5 by simp
      ultimately show ?thesis using close by blast
    qed
  qed
qed simp

end

section \<open>Receiving and sending whole frames\<close>

text \<open>A call of \<open>read_stage\<close> for every readiness event, until a call has more to say than to wait.\<close>

fun read_calls :: "nat \<Rightarrow> nat \<Rightarrow> 'w reader \<Rightarrow> 'w \<Rightarrow> client \<Rightarrow> (int \<times> 'w \<times> client) option" where
  "read_calls 0 k rd w c = None"
| "read_calls (Suc j) k rd w c = do {
     (r, w, c) \<leftarrow> read_stage k rd w c;
     if r = 0 then read_calls j k rd w c else Some (r, w, c)
   }"

context byte_reader
begin

text \<open>Once the bytes of a frame have arrived, in whatever portions, it is read exactly and nothing after it.\<close>

lemma read_calls_frame:
  assumes "work w < k" "rx_inv c" "\<not> c_pending_close c" "rx_bytes c @ avail w = frame m @ rest" "message_ok m" "length_ok m"
    and "length (avail w) < j"
  shows "\<exists>r w' c'. read_calls j k rd w c = Some (r, w', c') \<and> avail w' = rest \<and> same_conn c c' \<and> rx_inv c' \<and> \<not> c_pending_close c' \<and>
    mc_header (c_message c') = mc_header m \<and> payload_part (c_message c') = payload_part m \<and> mc_checksum (c_message c') = mc_checksum m \<and>
    (if calculate_checksum m = checksum m then r = 1 \<and> c_pending_task c' = c_pending_task c + 1
     else r = 2 \<and> c_pending_task c' = c_pending_task c)"
  using assms
proof (induction j arbitrary: w c)
  case (Suc j)
  from read_stage_result [OF Suc.prems(1,2)] obtain r w' c' got where
    r: "read_stage k rd w c = Some (r, w', c')" "read_world c got r w w'" "read_result c got r c'" by blast
  have av: "avail w = got @ avail w'" using r(2) by (simp add: read_world_def)
  have st: "(rx_bytes c @ got) @ avail w' = frame m @ rest" using Suc.prems(4) av by simp
  have ne: "avail w \<noteq> []"
    using rx_not_whole [OF Suc.prems(2,3)] frame_whole [OF Suc.prems(5,6), of rest] Suc.prems(4) by auto
  have got: "got \<noteq> []" using r(2) ne Suc.prems(3) unfolding read_world_def by blast
  have "r \<noteq> -1"
  proof
    assume "r = -1"
    then consider "bad_length (rx_bytes c @ got)" | "avail w' = []" "\<not> whole_frame (rx_bytes c @ got)"
      using r(2) Suc.prems(3) unfolding read_world_def by blast
    then show False
    proof cases
      case 1
      then have "take 24 (rx_bytes c @ got) = take 24 ((rx_bytes c @ got) @ avail w')" by (simp add: bad_length_def)
      also have "\<dots> = mc_header m" unfolding st using Suc.prems(5) by (simp add: frame_def message_ok_def frame_consts)
      finally have "take 24 (rx_bytes c @ got) = mc_header m" .
      then have "len_field (rx_bytes c @ got) = len_field (mc_header m)" by (metis len_field_take)
      then show ?thesis using 1 len_field_header [of m "[]"] Suc.prems(5,6)
        by (auto simp: bad_length_def message_ok_def length_ok_def frame_consts)
    next
      case 2
      then show ?thesis using st frame_whole [OF Suc.prems(5,6), of rest] by simp
    qed
  qed
  show ?case
  proof (cases "r = 0")
    case True
    then have z: "rx_bytes c' = rx_bytes c @ got" "\<not> c_pending_close c'" "same_conn c c'" "rx_inv c'" "c_pending_task c' = c_pending_task c"
      using r(3) by (auto simp: read_result_def)
    have ne': "avail w' \<noteq> []"
      using rx_not_whole [OF z(4,2)] frame_whole [OF Suc.prems(5,6), of rest] st z(1) by auto
    then have "work w' < k" using r(2) True Suc.prems(1) unfolding read_world_def by force
    moreover have "length (avail w') < j" using av got Suc.prems(7) by (cases got) auto
    ultimately show ?thesis
      using Suc.IH [of w' c'] z st Suc.prems(5,6) r(1) True same_conn_trans [OF z(3)] by fastforce
  next
    case False
    then have z: "r = 1 \<or> r = 2" "frame (c_message c') = rx_bytes c @ got" "length_ok (c_message c')" "\<not> c_pending_close c'"
      "r = 1 \<longleftrightarrow> calculate_checksum (c_message c') = checksum (c_message c')" "c_pending_task c' = c_pending_task c + (if r = 1 then 1 else 0)"
      "same_conn c c'" "rx_inv c'"
      using r(3) \<open>r \<noteq> -1\<close> by (auto simp: read_result_def)
    have ok: "message_ok (c_message c')" using z(8) by (simp add: rx_inv_def)
    note u = frame_unique [OF ok z(3) Suc.prems(5,6), of "avail w'" rest, unfolded z(2), OF st]
    have "calculate_checksum (c_message c') = calculate_checksum m" "checksum (c_message c') = checksum m"
      using u by (simp_all add: calculate_checksum_def checksum_def)
    then show ?thesis using r(1) False z u by auto
  qed
qed simp

end

text \<open>
  The queue of outgoing messages: \<open>outs\<close> are the messages in the ring, of which only the first may be
  partly sent, and \<open>out_stream\<close> is what is still to be sent.
\<close>

definition out_ok :: "outgoing \<Rightarrow> bool" where
  "out_ok x = (message_ok (o_msg x) \<and> length_ok (o_msg x) \<and> o_bytes_sent x < length (frame (o_msg x)) \<and>
     (0 < o_bytes_sent x \<longrightarrow> take (length (frame (o_msg x))) (o_wire_buf x) = frame (o_msg x)))"

definition tx_inv :: "client \<Rightarrow> outgoing list \<Rightarrow> bool" where
  "tx_inv c outs =
     (ring 16 (c_send_queue c) (c_send_head c) (c_send_tail c) outs \<and> c_send_count c = length outs \<and>
      (\<forall>x \<in> set (c_send_queue c). length (o_wire_buf x) = WIRE_BUF_SIZE) \<and>
      (\<forall>x \<in> set outs. out_ok x) \<and> (\<forall>x \<in> set (tl outs). o_bytes_sent x = 0))"

fun out_stream :: "outgoing list \<Rightarrow> bytes" where
  "out_stream [] = []"
| "out_stream (x # xs) = drop (o_bytes_sent x) (frame (o_msg x)) @ concat (map (\<lambda>y. frame (o_msg y)) xs)"

lemma frame_length: "message_ok m \<Longrightarrow> length_ok m \<Longrightarrow> length (frame m) = 28 + nat (hdr_length m)"
  using payload_part_ok [of m] by (simp add: frame_def message_ok_def frame_consts)

lemma out_stream_whole: "\<forall>x \<in> set xs. o_bytes_sent x = 0 \<Longrightarrow> out_stream xs = concat (map (\<lambda>y. frame (o_msg y)) xs)"
  by (cases xs) simp_all

text \<open>What sending leaves alone.\<close>

definition same_read :: "client \<Rightarrow> client \<Rightarrow> bool" where
  "same_read c c' =
     (c_fd c' = c_fd c \<and> c_connected c' = c_connected c \<and> c_connection_id c' = c_connection_id c \<and>
      c_generation c' = c_generation c \<and> c_session c' = c_session c \<and> c_stage c' = c_stage c \<and> c_message c' = c_message c \<and>
      c_bytes_read c' = c_bytes_read c \<and> c_pending_close c' = c_pending_close c \<and> c_pending_task c' = c_pending_task c)"

lemma same_read_put: "same_read c (put_front c x)" "same_read c (advance_send_queue c)" "same_read c (advance_send_queue (put_front c x))"
  by (simp_all add: same_read_def put_front_def advance_send_queue_def)

text \<open>\<open>queue_client\<close> appends the message and, when the ring is full, first drops the oldest.\<close>

definition kept_outs :: "outgoing list \<Rightarrow> outgoing list" where
  "kept_outs outs = (if length outs = 16 then tl outs else outs)"

lemma queue_client_inv:
  assumes inv: "tx_inv c outs" and m: "message_ok m" "length_ok m"
  shows "\<exists>c' x. queue_client c m = Some (0, c') \<and> same_read c c' \<and> tx_inv c' (kept_outs outs @ [x]) \<and> o_msg x = m \<and> o_bytes_sent x = 0"
proof -
  let ?q = "c_send_queue c" and ?h = "c_send_head c"
  let ?x = "(?q ! ?h) \<lparr> o_msg := m, o_bytes_sent := 0 \<rparr>"
  let ?t = "if length outs = 16 then Suc (c_send_tail c) mod 16 else c_send_tail c"
  have r: "ring 16 ?q ?h (c_send_tail c) outs" and cnt: "c_send_count c = length outs" using inv by (simp_all add: tx_inv_def)
  have h: "?h < length ?q" "length ?q = 16" "length outs \<le> 16" using ring_bounds [OF r] by simp_all
  have k: "ring 16 ?q ?h ?t (kept_outs outs)"
    using r ring_get(2) [of 16 ?q ?h "c_send_tail c" "hd outs" "tl outs"] by (cases outs) (auto simp: kept_outs_def)
  have l: "length (kept_outs outs) < 16" using h(3) by (cases outs) (auto simp: kept_outs_def)
  have set: "set (kept_outs outs) \<subseteq> set outs" "set (tl (kept_outs outs)) \<subseteq> set (tl outs)"
    by (cases outs; cases "tl outs"; auto simp: kept_outs_def)+
  have cells: "\<forall>x \<in> set ?q. length (o_wire_buf x) = WIRE_BUF_SIZE" using inv by (simp add: tx_inv_def)
  have x: "out_ok ?x" "length (o_wire_buf ?x) = WIRE_BUF_SIZE"
    using m frame_length [OF m] cells nth_mem [OF h(1)] by (simp_all add: out_ok_def)
  have old: "\<forall>x \<in> set (kept_outs outs). out_ok x" "\<forall>x \<in> set (tl (kept_outs outs)). o_bytes_sent x = 0"
    using inv set by (auto simp: tx_inv_def)
  have tl: "\<forall>x \<in> set (tl (kept_outs outs @ [?x])). o_bytes_sent x = 0" using old(2) by (cases "kept_outs outs") auto
  let ?n = "length (kept_outs outs) + 1"
  let ?c = "c \<lparr> c_send_queue := ?q[?h := ?x], c_send_head := Suc ?h mod 16, c_send_tail := ?t, c_send_count := ?n \<rparr>"
  have "queue_client c m = Some (0, ?c)"
    using h cnt by (simp add: queue_client_def kept_outs_def Let_def)
  moreover have "tx_inv ?c (kept_outs outs @ [?x])"
    using ring_put [OF k l, of ?x] old(1) tl x cells set_update_subset_insert [of ?q ?h ?x] unfolding tx_inv_def by auto
  moreover have "same_read c ?c" by (simp add: same_read_def)
  ultimately show ?thesis by (intro exI [of _ ?c] exI [of _ ?x]) simp
qed

lemma tx_inv_front:
  assumes inv: "tx_inv c (x # xs)" and y: "out_ok y" "length (o_wire_buf y) = WIRE_BUF_SIZE"
  shows "tx_inv (put_front c y) (y # xs)"
  using assms ring_update_front [of 16 "c_send_queue c" "c_send_head c" "c_send_tail c" x xs y] set_update_subset_insert [of "c_send_queue c" "c_send_tail c" y]
  by (auto simp: tx_inv_def put_front_def)

lemma tx_inv_advance:
  assumes inv: "tx_inv c (x # xs)"
  shows "tx_inv (advance_send_queue c) xs"
  using assms ring_get(2) [of 16 "c_send_queue c" "c_send_head c" "c_send_tail c" x xs]
  by (cases xs) (auto simp: tx_inv_def advance_send_queue_def NUM_PACKET_TO_SEND_def)

lemma fill_wire_buf_ok:
  assumes "message_ok (o_msg x)" "length_ok (o_msg x)" "length (o_wire_buf x) = WIRE_BUF_SIZE"
  shows "\<exists>b. fill_wire_buf x = Some (x \<lparr> o_wire_buf := b \<rparr>) \<and> length b = WIRE_BUF_SIZE \<and> take (length (frame (o_msg x))) b = frame (o_msg x)"
proof -
  let ?m = "o_msg x"
  have l: "nat (hdr_length ?m) \<le> 2048" using assms(2) unfolding length_ok_def frame_consts by auto
  then have p: "peek 0 (nat (hdr_length ?m)) (mc_message ?m) = Some (payload_part ?m)"
    using assms(1,2) by (auto simp: peek_def payload_part_def message_ok_def length_ok_def frame_consts min_def)
  have f: "length (frame ?m) \<le> WIRE_BUF_SIZE" using frame_length [OF assms(1,2)] l by (simp add: WIRE_BUF_SIZE_def frame_consts)
  then have "poke 0 (frame ?m) (o_wire_buf x) = Some (frame ?m @ drop (length (frame ?m)) (o_wire_buf x))"
    using assms(3) by (simp add: poke_def)
  then have "fill_wire_buf x = Some (x \<lparr> o_wire_buf := frame ?m @ drop (length (frame ?m)) (o_wire_buf x) \<rparr>)"
    using p by (simp add: fill_wire_buf_def frame_def)
  then show ?thesis using f assms(3) by (intro exI [of _ "frame ?m @ drop (length (frame ?m)) (o_wire_buf x)"]) simp
qed

text \<open>A socket written to with \<open>send\<close>: an interrupted call can be tried again.\<close>

locale stream_sender = byte_sender tx again wire work
  for tx :: "(errno, 'w) sender" and again :: "errno \<Rightarrow> bool" and wire :: "'w \<Rightarrow> bytes" and work :: "'w \<Rightarrow> nat" +
  assumes again_EINTR: "again EINTR"
begin

lemma send_chunk_loop_result:
  assumes "work w < k" and "len \<le> length buf" and "offset \<le> len"
  shows "\<exists>r n w'. send_chunk_loop k tx w buf len offset = Some (r, n, w') \<and> offset \<le> n \<and> n \<le> len \<and>
    wire w' = wire w @ take (n - offset) (drop offset buf) \<and> (r = 1 \<and> n = len \<or> (r = 0 \<or> r = -1) \<and> n < len)"
  using assms
proof (induction k arbitrary: w offset)
  case (Suc k)
  show ?case
  proof (cases "offset < len")
    case False
    then show ?thesis using Suc.prems by (simp add: send_chunk_loop.simps(2))
  next
    case True
    let ?bs = "take (len - offset) (drop offset buf)"
    have p: "peek offset (len - offset) buf = Some ?bs" "length ?bs = len - offset" using True Suc.prems by (simp_all add: peek_def)
    obtain x w1 where x: "tx w ?bs = (x, w1)" by fastforce
    note eq = send_chunk_loop.simps(2) [of k tx w buf len offset]
    consider n where "x = Sent n" | "x = TxErr EINTR" | "x = TxErr EAGAIN" | "x = TxErr EOTHER"
      by (cases x; simp; rename_tac e; case_tac e; simp)
    then show ?thesis
    proof cases
      case 1
      from tx_sent [OF x [unfolded 1]] p have n: "n \<le> len - offset" "wire w1 = wire w @ take n ?bs" "0 < n \<longrightarrow> work w1 < work w" by auto
      show ?thesis
      proof (cases "n = 0")
        case True
        then have "send_chunk_loop (Suc k) tx w buf len offset = Some (-1, offset, w1)" using eq \<open>offset < len\<close> p x 1 by simp
        then show ?thesis using n True \<open>offset < len\<close> by simp
      next
        case False
        then have "work w1 < k" "offset + n \<le> len" using n Suc.prems(1) True by auto
        from Suc.IH [OF this(1) Suc.prems(2) this(2)] obtain r j w' where
          j: "send_chunk_loop k tx w1 buf len (offset + n) = Some (r, j, w')" "offset + n \<le> j" "j \<le> len"
            "wire w' = wire w1 @ take (j - (offset + n)) (drop (offset + n) buf)" "r = 1 \<and> j = len \<or> (r = 0 \<or> r = -1) \<and> j < len" by blast
        have "take n ?bs @ take (j - (offset + n)) (drop (offset + n) buf) = take (j - offset) (drop offset buf)"
          using j(2) n(1) take_add [of n "j - offset - n" "drop offset buf"] by (simp add: min_absorb1 add.commute)
        then have "wire w' = wire w @ take (j - offset) (drop offset buf)" using j(4) n(2) by simp
        moreover have "send_chunk_loop (Suc k) tx w buf len offset = Some (r, j, w')" using eq True p x 1 False j(1) by simp
        moreover have "offset \<le> j" using j(2) by simp
        ultimately show ?thesis using j(3,5) by blast
      qed
    next
      case 2
      from tx_error [OF x [unfolded 2]] again_EINTR have w1: "wire w1 = wire w" "work w1 < work w" by auto
      then have "work w1 < k" using Suc.prems(1) by simp
      moreover have "send_chunk_loop (Suc k) tx w buf len offset = send_chunk_loop k tx w1 buf len offset" using eq True p x 2 by simp
      ultimately show ?thesis using Suc.IH [OF _ Suc.prems(2,3), of w1] w1(1) by simp
    next
      case 3
      then show ?thesis using tx_error [OF x [unfolded 3]] eq True p x by simp
    next
      case 4
      then show ?thesis using tx_error [OF x [unfolded 4]] eq True p x by simp
    qed
  qed
qed simp

text \<open>
  One call of \<open>send_message_chunk\<close>: what has been sent and what is still to be sent make up the same
  stream as before, unless the connection fails, which loses the rest of the message being sent.
\<close>

definition chunk_done :: "'w \<Rightarrow> 'w \<Rightarrow> outgoing \<Rightarrow> outgoing list \<Rightarrow> int \<Rightarrow> client \<Rightarrow> bool" where
  "chunk_done w w' x xs r c' =
     (r = 1 \<and> tx_inv c' xs \<and> wire w' @ out_stream xs = wire w @ out_stream (x # xs)
      \<or> r = 0 \<and> (\<exists>y. tx_inv c' (y # xs) \<and> o_msg y = o_msg x \<and> wire w' @ out_stream (y # xs) = wire w @ out_stream (x # xs))
      \<or> r = -1 \<and> (\<exists>y n. tx_inv c' (y # xs) \<and> n < length (frame (o_msg x)) - o_bytes_sent x \<and>
                   wire w' = wire w @ take n (drop (o_bytes_sent x) (frame (o_msg x)))))"

lemma send_message_chunk_result:
  assumes "work w < k" and inv: "tx_inv c (x # xs)"
  shows "\<exists>r w' c'. send_message_chunk k tx w c = Some (r, w', c') \<and> same_read c c' \<and> chunk_done w w' x xs r c'"
proof -
  have ring: "ring 16 (c_send_queue c) (c_send_head c) (c_send_tail c) (x # xs)" and cnt: "c_send_count c = Suc (length xs)"
    and ok: "message_ok (o_msg x)" "length_ok (o_msg x)" "out_ok x" and later: "\<forall>y \<in> set xs. o_bytes_sent y = 0"
    using inv by (auto simp: tx_inv_def out_ok_def)
  have fx: "c_send_queue c ! c_send_tail c = x" by (rule ring_get(1) [OF ring])
  have tl: "c_send_tail c < length (c_send_queue c)" using ring_bounds [OF ring] by simp
  with inv fx nth_mem [OF tl] have wb: "length (o_wire_buf x) = WIRE_BUF_SIZE" by (auto simp: tx_inv_def)
  let ?m = "o_msg x" and ?len = "24 + nat (hdr_length (o_msg x)) + 4" and ?s = "o_bytes_sent x"
  have len: "length (frame ?m) = ?len" "?s < ?len" using frame_length [OF ok(1,2)] ok(3) by (simp_all add: out_ok_def)
  obtain b where b: "(if ?s = 0 then fill_wire_buf x else Some x) = Some (x \<lparr> o_wire_buf := b \<rparr>)" "length b = WIRE_BUF_SIZE" "take ?len b = frame ?m"
  proof (cases "?s = 0")
    case True
    with fill_wire_buf_ok [OF ok(1,2) wb] that len(1) show ?thesis by auto
  next
    case False
    then have "take ?len (o_wire_buf x) = frame ?m" using ok(3) len(1) by (simp add: out_ok_def)
    then show ?thesis using that [of "o_wire_buf x"] wb False by simp
  qed
  have lb: "?len \<le> length b" using arg_cong [OF b(3), of length] len(1) by (simp add: min_def split: if_splits)
  from send_chunk_loop_result [OF assms(1) lb less_imp_le [OF len(2)]] obtain r n w' where
    l: "send_chunk_loop k tx w b ?len ?s = Some (r, n, w')" "?s \<le> n" "n \<le> ?len" "wire w' = wire w @ take (n - ?s) (drop ?s b)"
      "r = 1 \<and> n = ?len \<or> (r = 0 \<or> r = -1) \<and> n < ?len" by blast
  have sd: "take (n - ?s) (drop ?s b) = take (n - ?s) (drop ?s (frame ?m))"
    using l(2,3) unfolding b(3) [symmetric] by (simp add: drop_take min_def)
  let ?y = "x \<lparr> o_wire_buf := b \<rparr>"
  have oky: "out_ok (?y \<lparr> o_bytes_sent := i \<rparr>)" if "i < ?len" for i using ok(1,2) len(1) b(3) that by (simp add: out_ok_def)
  have y: "tx_inv (put_front c ?y) (?y # xs)" using tx_inv_front [OF inv _ , of ?y] oky [OF len(2)] b(2) by simp
  have eq: "send_message_chunk k tx w c =
     (if r = 1 then Some (1, w', advance_send_queue (put_front c ?y))
      else if r = 0 then Some (0, w', put_front c (?y \<lparr> o_bytes_sent := n \<rparr>)) else Some (r, w', put_front c ?y))"
    using cnt tl fx b(1) l(1) by (simp add: send_message_chunk_def frame_consts)
  from l(5) consider (sent) "r = 1" "n = ?len" | (wait) "r = 0" "n < ?len" | (fail) "r = -1" "n < ?len" by blast
  then show ?thesis
  proof cases
    case sent
    have "wire w' @ out_stream xs = wire w @ out_stream (x # xs)"
      using l(4) sd sent(2) len(1) out_stream_whole [OF later] by simp
    with tx_inv_advance [OF y] have "chunk_done w w' x xs 1 (advance_send_queue (put_front c ?y))" by (simp add: chunk_done_def)
    moreover have "send_message_chunk k tx w c = Some (1, w', advance_send_queue (put_front c ?y))" using eq sent(1) by simp
    ultimately show ?thesis using same_read_put(3) by blast
  next
    case wait
    let ?z = "?y \<lparr> o_bytes_sent := n \<rparr>"
    have "tx_inv (put_front c ?z) (?z # xs)" using tx_inv_front [OF inv oky [OF wait(2)]] b(2) by simp
    moreover have "take (n - ?s) (drop ?s (frame ?m)) @ drop n (frame ?m) = drop ?s (frame ?m)"
      using append_take_drop_id [of "n - ?s" "drop ?s (frame ?m)"] l(2) by simp
    then have "wire w' @ out_stream (?z # xs) = wire w @ out_stream (x # xs)" using l(4) sd by simp
    ultimately have "\<exists>y. tx_inv (put_front c ?z) (y # xs) \<and> o_msg y = ?m \<and> wire w' @ out_stream (y # xs) = wire w @ out_stream (x # xs)"
      by (intro exI [of _ ?z]) simp
    then have "chunk_done w w' x xs 0 (put_front c ?z)" by (simp add: chunk_done_def)
    moreover have "send_message_chunk k tx w c = Some (0, w', put_front c ?z)" using eq wait(1) by simp
    ultimately show ?thesis using same_read_put(1) by blast
  next
    case fail
    have "n - ?s < length (frame ?m) - ?s" using fail(2) l(2) len by simp
    with y l(4) [unfolded sd] have "\<exists>y n. tx_inv (put_front c ?y) (y # xs) \<and> n < length (frame ?m) - ?s \<and>
        wire w' = wire w @ take n (drop ?s (frame ?m))" by blast
    then have "chunk_done w w' x xs (-1) (put_front c ?y)" by (simp add: chunk_done_def)
    moreover have "send_message_chunk k tx w c = Some (-1, w', put_front c ?y)" using eq fail(1) by simp
    ultimately show ?thesis using same_read_put(1) by blast
  qed
qed

end

interpretation out_sock: stream_sender "sock_send EAGAIN" "\<lambda>e. e \<noteq> EAGAIN" tx_wire "\<lambda>s. length (tx_plan s)"
  by unfold_locales simp

section \<open>Frames over a socket\<close>

lemma fresh_rx: "rx_inv c \<Longrightarrow> \<not> c_pending_close c \<Longrightarrow> c_stage c = READ_HEADER \<Longrightarrow> c_bytes_read c = 0 \<Longrightarrow> rx_bytes c = []"
  by (simp add: rx_bytes_def Let_def)

lemma built_length_ok: "built p cmd pri num m \<Longrightarrow> length_ok m"
  by (simp add: built_def length_ok_def frame_consts)

text \<open>A changed byte of the payload changes the sum by less than 256.\<close>

lemma byte_sum_update:
  assumes "i < length bs" and "b \<noteq> bs ! i"
  shows "byte_sum (bs[i := b]) \<noteq> byte_sum bs \<and> byte_sum (bs[i := b]) < byte_sum bs + 256 \<and> byte_sum bs < byte_sum (bs[i := b]) + 256"
proof -
  have s: "bs = take i bs @ bs ! i # drop (Suc i) bs" using assms(1) by (simp add: id_take_nth_drop)
  have u: "bs[i := b] = take i bs @ b # drop (Suc i) bs" using assms(1) by (simp add: upd_conv_take_nth_drop)
  have "unat b < 2 ^ LENGTH(8)" "unat (bs ! i) < 2 ^ LENGTH(8)" by (rule unsigned_less)+
  moreover have "unat b \<noteq> unat (bs ! i)" using assms(2) word_unat_eq_iff by blast
  moreover have "byte_sum (bs[i := b]) + unat (bs ! i) = byte_sum bs + unat b"
    by (subst (2) s, subst u) (simp add: byte_sum_def)
  ultimately show ?thesis by auto
qed

lemma payload_damage:
  assumes m: "built p cmd pri num m" and i: "i < length (payload_part m)" "b \<noteq> payload_part m ! i"
  defines "m' \<equiv> m \<lparr> mc_message := (mc_message m)[i := b] \<rparr>"
  shows "message_ok m'" and "length_ok m'" and "payload_part m' = (payload_part m)[i := b]" and "calculate_checksum m' \<noteq> checksum m'"
proof -
  have ok: "message_ok m" and sum: "checksum m = calculate_checksum m" using m by (simp_all add: built_def)
  show ok': "message_ok m'" "length_ok m'" using ok built_length_ok [OF m] by (simp_all add: m'_def message_ok_def length_ok_def hdr_length_def)
  show p: "payload_part m' = (payload_part m)[i := b]" by (simp add: m'_def payload_part_def hdr_length_def take_update_swap)
  note d = byte_sum_update [OF i]
  have "summed m' \<noteq> summed m" "summed m' < summed m + 65535" "summed m < summed m' + 65535"
    using d by (auto simp: summed_def p) (auto simp: m'_def)
  then have "calculate_checksum m' \<noteq> calculate_checksum m"
    using checksum_differs [of m' m] ok ok'(1) by (simp add: message_ok_def)
  then show "calculate_checksum m' \<noteq> checksum m'" using sum by (simp add: m'_def checksum_def)
qed

text \<open>
  C15. A message built by a sender of the control plane reaches the server unchanged: once its frame is
  in the socket, in whatever portions it arrived, calls of \<open>read_stage\<close> end with 1 and with the command, the
  priority, the packet number and the payload that were sent, and leave the bytes after the frame
  unread. If a byte of the payload was changed on the way, they end with 2, the NACK answer.
\<close>

theorem uds_frame_roundtrip:
  assumes "m = snd (build_message (Some s) cmd pri m0 num)"
    and "rx_inv c" and "\<not> c_pending_close c" and "c_stage c = READ_HEADER" and "c_bytes_read c = 0"
    and "sock_work w < k" and "length (sock_avail w) < j"
  shows "(sock_avail w = frame m @ rest \<longrightarrow>
      (\<exists>w' c'. read_calls j k sock_recv w c = Some (1, w', c') \<and> sock_avail w' = rest \<and> c_pending_task c' = c_pending_task c + 1 \<and>
        hdr_cmd (c_message c') = word_of_nat (command_num cmd) \<and> hdr_pri (c_message c') = word_of_nat (priority_num pri) \<and>
        hdr_number_packet (c_message c') = num \<and> payload_part (c_message c') = take 2047 (cstr s))) \<and>
    (sock_avail w = mc_header m @ (payload_part m)[i := b] @ mc_checksum m @ rest \<and> i < length (payload_part m) \<and> b \<noteq> payload_part m ! i \<longrightarrow>
      (\<exists>w' c'. read_calls j k sock_recv w c = Some (2, w', c') \<and> sock_avail w' = rest \<and> c_pending_task c' = c_pending_task c \<and>
        hdr_number_packet (c_message c') = num))"
proof (intro conjI impI, goal_cases)
  have b: "built s cmd pri num m" using assms(1) build_message_built by simp
  then have ok: "message_ok m" "length_ok m" "calculate_checksum m = checksum m" using built_length_ok by (simp_all add: built_def)
  note rx = fresh_rx [OF assms(2-5)]
  {
    case 1
    then have "rx_bytes c @ sock_avail w = frame m @ rest" using rx by simp
    from sock.read_calls_frame [OF assms(6,2,3) this ok(1,2) assms(7)] ok(3) obtain w' c' where
      r: "read_calls j k sock_recv w c = Some (1, w', c')" "sock_avail w' = rest" "c_pending_task c' = c_pending_task c + 1"
        "mc_header (c_message c') = mc_header m" "payload_part (c_message c') = payload_part m" by auto
    then show ?case using b by (simp add: built_def hdr_cmd_def hdr_pri_def hdr_number_packet_def)
  next
    case 2
    then have i: "i < length (payload_part m)" "b \<noteq> payload_part m ! i" by simp_all
    let ?m = "m \<lparr> mc_message := (mc_message m)[i := b] \<rparr>"
    note d = payload_damage [OF b i]
    have "rx_bytes c @ sock_avail w = frame ?m @ rest" using rx 2 d(3) by (simp add: frame_def)
    from sock.read_calls_frame [OF assms(6,2,3) this d(1,2) assms(7)] d(4) obtain w' c' where
      r: "read_calls j k sock_recv w c = Some (2, w', c')" "sock_avail w' = rest" "c_pending_task c' = c_pending_task c"
        "mc_header (c_message c') = mc_header m" by auto
    then show ?case using b by (simp add: built_def hdr_number_packet_def)
  }
qed

definition sample_frame :: message_control where
  "sample_frame = snd (build_message (Some (ascii ''hi'')) GET_STATUS HIGH zero_message 7)"

lemma sample_frame_length: "length (frame sample_frame) = 30" "length (payload_part sample_frame) = 2"
proof -
  have b: "built (ascii ''hi'') GET_STATUS HIGH 7 sample_frame" unfolding sample_frame_def using build_message_built by blast
  then have "payload_part sample_frame = ascii ''hi''" by (simp add: built_def cstr_def ascii_def)
  then show "length (payload_part sample_frame) = 2" "length (frame sample_frame) = 30"
    using b by (simp_all add: frame_def built_def message_ok_def frame_consts)
qed

lemma zero_client_fresh: "rx_inv zero_client" "\<not> c_pending_close zero_client" "c_stage zero_client = READ_HEADER" "c_bytes_read zero_client = 0"
  by (simp_all add: rx_inv_def zero_client_def zero_message_def message_ok_def stage_size_def frame_consts)

theorem uds_frame_roundtrip_witness:
  "\<exists>w' c'. read_calls 100 100 sock_recv [Chunk (take 5 (frame sample_frame)), Interrupt, Chunk (drop 5 (frame sample_frame)), Chunk [1, 2]] zero_client = Some (1, w', c') \<and>
     sock_avail w' = [1, 2] \<and> hdr_cmd (c_message c') = 0 \<and> hdr_pri (c_message c') = 2 \<and> hdr_number_packet (c_message c') = 7 \<and>
     payload_part (c_message c') = ascii ''hi''"
proof -
  let ?w = "[Chunk (take 5 (frame sample_frame)), Interrupt, Chunk (drop 5 (frame sample_frame)), Chunk [1, 2]]"
  have w: "sock_avail ?w = frame sample_frame @ [1, 2]" by (simp flip: append_assoc)
  have l: "sock_work ?w < 100" "length (sock_avail ?w) < 100" unfolding w by (simp_all add: sample_frame_length)
  from conjunct1 [OF uds_frame_roundtrip [OF sample_frame_def zero_client_fresh l], THEN mp, OF w] show ?thesis
    by (auto simp: cstr_def ascii_def)
qed

end
