(* ===== verification/Uds_Server.thy ===== *)
theory Uds_Server
  imports Uds_Client
begin

unbundle bit_operations_syntax

text \<open>
  The control-plane server (\<open>unix-domain-socket-control-plane/gatewayd/server.h\<close> and \<open>server.c\<close>,
  in the epoll build the sources select): the session table, the three task queues, the handlers of
  the I/O thread, the tasks of the workers and the signal thread. The descriptors that are open and
  the ones registered with epoll are part of the state (\<open>k_open\<close>, \<open>k_epoll\<close>).
\<close>

section \<open>The code\<close>

definition CAPACITY :: nat where "CAPACITY = 1024"
definition FD_SETSIZE :: nat where "FD_SETSIZE = 1024"
definition MAX_SESSIONS :: nat where "MAX_SESSIONS = 256"
definition SESSION_TOKEN_LEN :: nat where "SESSION_TOKEN_LEN = 64"

lemmas server_consts = CAPACITY_def FD_SETSIZE_def MAX_SESSIONS_def SESSION_TOKEN_LEN_def

record client_session =
  s_in_use :: bool
  s_token :: bytes
  s_client_id :: u64
  s_packets_in_total :: u64
  s_packets_out_total :: u64
  s_first_seen_ms :: u64
  s_last_seen_ms :: u64
  s_reconnect_count :: int

record session_table =
  st_sessions :: "client_session list"
  st_next_persistent_id :: u64

record task =
  t_fd :: int
  t_client_generation :: u64
  t_connection_id :: u64
  t_message :: message_control

record message_queue =
  mq_tasks :: "task list"
  mq_head :: nat
  mq_tail :: nat
  mq_count :: nat

record server =
  sv_listen_fd :: int
  sv_max_fd :: int
  sv_clients :: "client list"
  sv_table :: session_table
  sv_next_client_id :: u64
  sv_num_clients :: nat
  sv_high :: message_queue
  sv_medium :: message_queue
  sv_low :: message_queue
  sv_shutdown :: bool
  k_open :: "int list"
  k_epoll :: "int list"

subsection \<open>Start\<close>

definition zero_session :: client_session where
  "zero_session = \<lparr> s_in_use = False, s_token = replicate SESSION_TOKEN_LEN 0, s_client_id = 0, s_packets_in_total = 0,
     s_packets_out_total = 0, s_first_seen_ms = 0, s_last_seen_ms = 0, s_reconnect_count = 0 \<rparr>"

definition init_session_table :: session_table where
  "init_session_table = \<lparr> st_sessions = replicate MAX_SESSIONS zero_session, st_next_persistent_id = 0 \<rparr>"

definition zero_task :: task where
  "zero_task = \<lparr> t_fd = 0, t_client_generation = 0, t_connection_id = 0, t_message = zero_message \<rparr>"

definition init_message_queue :: message_queue where
  "init_message_queue = \<lparr> mq_tasks = replicate CAPACITY zero_task, mq_head = 0, mq_tail = 0, mq_count = 0 \<rparr>"

text \<open>\<open>main\<close> allocates the server with \<open>calloc\<close>, runs \<open>init_server\<close> and registers the listening socket.\<close>

definition init_server :: "int \<Rightarrow> server" where
  "init_server listen_fd =
     \<lparr> sv_listen_fd = listen_fd, sv_max_fd = -1, sv_clients = replicate FD_SETSIZE zero_client, sv_table = init_session_table,
       sv_next_client_id = 0, sv_num_clients = 0, sv_high = init_message_queue, sv_medium = init_message_queue,
       sv_low = init_message_queue, sv_shutdown = False, k_open = [listen_fd], k_epoll = [listen_fd] \<rparr>"

subsection \<open>Sessions\<close>

definition same_token :: "bytes \<Rightarrow> bytes \<Rightarrow> bool" where
  "same_token a b = (take SESSION_TOKEN_LEN (cstr a) = take SESSION_TOKEN_LEN (cstr b))"

text \<open>
  The loop looks for the session with the token and remembers the first free slot on its way. The
  result is the index of the session, or NULL, and whether it was resumed.
\<close>

definition session_lookup_or_create ::
  "session_table \<Rightarrow> bytes \<Rightarrow> u64 \<Rightarrow> ((nat option \<times> bool) \<times> session_table) option" where
  "session_lookup_or_create table token now =
     (let ss = st_sessions table in do {
        i \<leftarrow> scan (\<lambda>t. s_in_use t \<and> same_token token (s_token t)) ss 0 MAX_SESSIONS;
        if i \<ge> 0 then
          let t = ss ! nat i;
              t = t \<lparr> s_last_seen_ms := now, s_reconnect_count := sint (word_of_int (s_reconnect_count t + 1) :: 32 word) \<rparr>
          in Some ((Some (nat i), True), table \<lparr> st_sessions := ss[nat i := t] \<rparr>)
        else do {
          f \<leftarrow> scan (\<lambda>t. \<not> s_in_use t) ss 0 MAX_SESSIONS;
          if f < 0 then Some ((None, False), table)
          else
            let id = st_next_persistent_id table + 1;
                token_len = length (take (SESSION_TOKEN_LEN - 1) (cstr token));
                t = zero_session \<lparr> s_in_use := True, s_first_seen_ms := now, s_last_seen_ms := now, s_reconnect_count := 1,
                      s_client_id := id, s_token := take token_len token @ replicate (SESSION_TOKEN_LEN - token_len) 0 \<rparr>
            in Some ((Some (nat f), False), \<lparr> st_sessions = ss[nat f := t], st_next_persistent_id = id \<rparr>)
        }
      })"

subsection \<open>Task queues\<close>

text \<open>The queue a pointer to one of the three queues of the server denotes.\<close>

fun queue_of :: "server \<Rightarrow> priority \<Rightarrow> message_queue" where
  "queue_of sv HIGH = sv_high sv"
| "queue_of sv MEDIUM = sv_medium sv"
| "queue_of sv LOW = sv_low sv"

fun put_queue :: "server \<Rightarrow> priority \<Rightarrow> message_queue \<Rightarrow> server" where
  "put_queue sv HIGH q = sv \<lparr> sv_high := q \<rparr>"
| "put_queue sv MEDIUM q = sv \<lparr> sv_medium := q \<rparr>"
| "put_queue sv LOW q = sv \<lparr> sv_low := q \<rparr>"

definition enqueue_task :: "message_queue \<Rightarrow> task \<Rightarrow> (bool \<times> message_queue) option" where
  "enqueue_task queue task =
     (if mq_count queue \<ge> CAPACITY then Some (False, queue)
      else if mq_head queue \<ge> length (mq_tasks queue) then None
      else Some (True, queue \<lparr> mq_tasks := (mq_tasks queue)[mq_head queue := task],
             mq_head := (mq_head queue + 1) mod CAPACITY, mq_count := mq_count queue + 1 \<rparr>))"

definition try_enqueue_task :: "server \<Rightarrow> priority option \<Rightarrow> task \<Rightarrow> (bool \<times> server) option" where
  "try_enqueue_task sv queue task =
     (if sv_shutdown sv then Some (False, sv)
      else case queue of
        None \<Rightarrow> None
      | Some p \<Rightarrow> do {
          (ok, q) \<leftarrow> enqueue_task (queue_of sv p) task;
          Some (ok, put_queue sv p q)
        })"

definition try_dequeue_task_locked :: "message_queue \<Rightarrow> (task option \<times> message_queue) option" where
  "try_dequeue_task_locked queue =
     (if mq_count queue = 0 then Some (None, queue)
      else if mq_tail queue \<ge> length (mq_tasks queue) then None
      else Some (Some (mq_tasks queue ! mq_tail queue),
             queue \<lparr> mq_tail := (mq_tail queue + 1) mod CAPACITY, mq_count := mq_count queue - 1 \<rparr>))"

subsection \<open>Connections\<close>

definition put_client :: "server \<Rightarrow> nat \<Rightarrow> client \<Rightarrow> server" where
  "put_client sv i c = sv \<lparr> sv_clients := (sv_clients sv)[i := c] \<rparr>"

text \<open>One answer of \<open>accept4\<close>, with the clock and whether \<open>epoll_ctl\<close> succeeds.\<close>

datatype accept_answer = Accepted int u64 u64 bool | Accept_err errno

definition accept_one :: "int \<Rightarrow> u64 \<Rightarrow> u64 \<Rightarrow> bool \<Rightarrow> server \<Rightarrow> server option" where
  "accept_one new_fd now now' added sv =
     (if new_fd \<ge> int FD_SETSIZE then Some sv
      else if nat new_fd \<ge> length (sv_clients sv) \<or> new_fd < 0 then None
      else
        let slot = sv_clients sv ! nat new_fd;
            connection_id = sv_next_client_id sv + 1;
            c = (init_client connection_id (c_generation slot + 1) now now') \<lparr> c_fd := new_fd, c_connected := True \<rparr>;
            sv = (put_client sv (nat new_fd) c) \<lparr> sv_next_client_id := connection_id, sv_num_clients := sv_num_clients sv + 1 \<rparr>
        in if \<not> added then Some sv
           else Some (sv \<lparr> k_open := new_fd # k_open sv, k_epoll := new_fd # k_epoll sv,
                           sv_max_fd := max new_fd (sv_max_fd sv) \<rparr>))"

fun handle_accept :: "accept_answer list \<Rightarrow> server \<Rightarrow> (int \<times> server) option" where
  "handle_accept [] sv = Some (0, sv)"
| "handle_accept (Accept_err err # as) sv = Some (if err = EAGAIN \<or> err = EINTR then 0 else -1, sv)"
| "handle_accept (Accepted new_fd now now' added # as) sv = do { sv \<leftarrow> accept_one new_fd now now' added sv; handle_accept as sv }"

definition reply_client :: "server \<Rightarrow> nat \<Rightarrow> bytes \<Rightarrow> command \<Rightarrow> u64 \<Rightarrow> server option" where
  "reply_client sv i payload cmd num = do {
     (ret, c) \<leftarrow> queue_client (sv_clients sv ! i) (snd (build_message (Some payload) cmd LOW zero_message num));
     Some (put_client sv i c)
   }"

text \<open>One iteration of the loop of \<open>handle_client_readable\<close>, for the event of descriptor \<open>fd\<close>.\<close>

definition handle_frame :: "server \<Rightarrow> nat \<Rightarrow> server option" where
  "handle_frame sv i =
     (let c = sv_clients sv ! i;
          t = \<lparr> t_fd = int i, t_client_generation = c_generation c, t_connection_id = c_connection_id c, t_message = c_message c \<rparr>;
          q = priority_of (hdr_pri (t_message t))
      in do {
        (ok, sv) \<leftarrow> try_enqueue_task sv q t;
        if ok then Some sv
        else
          let c = sv_clients sv ! i;
              c = (if c_pending_task c > 0 then c \<lparr> c_pending_task := c_pending_task c - 1 \<rparr> else c)
          in reply_client (put_client sv i c) i (ascii ''SERVER BUSY'') NACK (hdr_number_packet (t_message t))
      })"

definition readable_event ::
  "nat \<Rightarrow> (int \<Rightarrow> 'r reader) \<Rightarrow> int \<Rightarrow> bool \<Rightarrow> 'r \<times> server \<Rightarrow> ('r \<times> server) option" where
  "readable_event k rd fd epollin st =
     (case st of (r, sv) \<Rightarrow>
        if fd < 0 \<or> nat fd \<ge> length (sv_clients sv) then None
        else
          let c = sv_clients sv ! nat fd in
          if \<not> c_connected c \<or> c_fd c \<noteq> fd then Some (r, sv)
          else if \<not> epollin then Some (r, sv)
          else do {
            (ret, r, c) \<leftarrow> read_stage k (rd (c_fd c)) r c;
            let sv = put_client sv (nat fd) c;
            if ret = 2 then do {
              (ret, c) \<leftarrow> queue_client c (snd (build_nack (hdr_number_packet (c_message c)) zero_message));
              Some (r, put_client sv (nat fd) c)
            }
            else if ret = 1 then do { sv \<leftarrow> handle_frame sv (nat fd); Some (r, sv) }
            else Some (r, sv)
          })"

fun handle_client_readable ::
  "nat \<Rightarrow> (int \<Rightarrow> 'r reader) \<Rightarrow> (int \<times> bool) list \<Rightarrow> 'r \<times> server \<Rightarrow> ('r \<times> server) option" where
  "handle_client_readable k rd [] st = Some st"
| "handle_client_readable k rd (e # es) st = do { st \<leftarrow> readable_event k rd (fst e) (snd e) st; handle_client_readable k rd es st }"

definition count_sent :: "server \<Rightarrow> nat option \<Rightarrow> server option" where
  "count_sent sv sess =
     (case sess of
        None \<Rightarrow> Some sv
      | Some j \<Rightarrow>
          let ss = st_sessions (sv_table sv) in
          if j \<ge> length ss then None
          else Some (sv \<lparr> sv_table := (sv_table sv) \<lparr> st_sessions := ss[j := (ss ! j) \<lparr> s_packets_out_total := s_packets_out_total (ss ! j) + 1 \<rparr>] \<rparr> \<rparr>))"

definition handle_client_writable ::
  "nat \<Rightarrow> (int \<Rightarrow> (errno, 'w) sender) \<Rightarrow> 'w \<Rightarrow> server \<Rightarrow> nat \<Rightarrow> ('w \<times> server) option" where
  "handle_client_writable k tx w sv i =
     (let c = sv_clients sv ! i in
      if c_send_count c = 0 then Some (w, sv)
      else do {
        (res, w, c) \<leftarrow> send_message_chunk k (tx (c_fd c)) w c;
        if res = -1 then Some (w, put_client sv i (advance_send_queue (c \<lparr> c_pending_close := True \<rparr>)))
        else if res = 1 then do {
          sv \<leftarrow> count_sent sv (c_session c);
          Some (w, put_client sv i (c \<lparr> c_packet_sent := c_packet_sent c + 1 \<rparr>))
        }
        else Some (w, put_client sv i c)
      })"

definition reap_one :: "nat \<Rightarrow> server \<Rightarrow> server option" where
  "reap_one i sv =
     (if i \<ge> length (sv_clients sv) then None
      else
        let c = sv_clients sv ! i in
        if \<not> c_pending_close c then Some sv
        else if \<not> (c_pending_task c = 0 \<and> c_send_count c = 0) then Some sv
        else
          let sv = (if c_fd c \<ge> 0 then sv \<lparr> k_open := removeAll (c_fd c) (k_open sv), k_epoll := removeAll (c_fd c) (k_epoll sv) \<rparr> else sv);
              sv = put_client sv i (c \<lparr> c_fd := -1, c_connected := False, c_pending_close := False, c_session := None \<rparr>)
          in Some (sv \<lparr> sv_num_clients := sv_num_clients sv - 1 \<rparr>))"

fun reap_from :: "nat list \<Rightarrow> server \<Rightarrow> server option" where
  "reap_from [] sv = Some sv"
| "reap_from (i # is) sv = do { sv \<leftarrow> reap_one i sv; reap_from is sv }"

definition reap_closed_clients :: "server \<Rightarrow> server option" where
  "reap_closed_clients sv = reap_from [0..<FD_SETSIZE] sv"

subsection \<open>Tasks\<close>

text \<open>The replies of the tasks that only answer; the other commands answer nothing here.\<close>

fun task_reply :: "command \<Rightarrow> string option" where
  "task_reply GET_STATUS = Some ''STATUS OK''"
| "task_reply SET_STATUS = Some ''ACK''"
| "task_reply GET_DATA = Some ''DATA''"
| "task_reply GET_CONFIG = Some ''CONFIG''"
| "task_reply SET_CONFIG = Some ''ACK''"
| "task_reply SEND_CONTROL = Some ''ACK''"
| "task_reply _ = None"

definition identify_token :: "message_control \<Rightarrow> bytes" where
  "identify_token message =
     (let len = hdr_length message;
          len = (if len < 0 then 0 else len);
          len = (if len \<ge> int SESSION_TOKEN_LEN then int SESSION_TOKEN_LEN - 1 else len)
      in take (nat len) (mc_message message))"

definition identify_text :: "bool \<Rightarrow> client_session \<Rightarrow> bytes" where
  "identify_text was_resumed s =
     ascii (if was_resumed then ''RESUMED'' else ''NEW'') @ ascii '' client_id='' @ nat_digits (unat (s_client_id s)) @
     ascii '' reconnect='' @ dec_text (s_reconnect_count s)"

definition identify_task :: "server \<Rightarrow> nat \<Rightarrow> message_control \<Rightarrow> u64 \<Rightarrow> server option" where
  "identify_task sv i message now =
     (let token = identify_token message; num = hdr_number_packet message in
      if token = [] then reply_client sv i (ascii ''IDENTITY requires a non-empty token'') NACK num
      else do {
        ((s, was_resumed), table) \<leftarrow> session_lookup_or_create (sv_table sv) (token @ [0]) now;
        let sv = sv \<lparr> sv_table := table \<rparr>;
        case s of
          None \<Rightarrow> reply_client sv i (ascii ''session table full'') NACK num
        | Some j \<Rightarrow>
            let sv = put_client sv i ((sv_clients sv ! i) \<lparr> c_session := Some j \<rparr>)
            in reply_client sv i (identify_text was_resumed (st_sessions table ! j)) ACK num
      })"

definition finish_task :: "server \<Rightarrow> task \<Rightarrow> server option" where
  "finish_task sv t =
     (let fd = t_fd t in
      if fd < 0 \<or> fd \<ge> int FD_SETSIZE then Some sv
      else if nat fd \<ge> length (sv_clients sv) then None
      else
        let c = sv_clients sv ! nat fd in
        if c_fd c = fd \<and> c_generation c = t_client_generation t \<and> c_pending_task c > 0
        then Some (put_client sv (nat fd) (c \<lparr> c_pending_task := c_pending_task c - 1 \<rparr>))
        else Some sv)"

definition run_command :: "server \<Rightarrow> nat \<Rightarrow> message_control \<Rightarrow> u64 \<Rightarrow> server option" where
  "run_command sv i m now =
     (case command_of (hdr_cmd m) of
        None \<Rightarrow> Some sv
      | Some cmd \<Rightarrow>
          if cmd = IDENTIFY then identify_task sv i m now
          else if cmd = SHUTDOWN_PEER then Some (put_client sv i ((sv_clients sv ! i) \<lparr> c_pending_close := True \<rparr>))
          else case task_reply cmd of
            None \<Rightarrow> Some sv
          | Some s \<Rightarrow> reply_client sv i (ascii s) ACK (hdr_number_packet m))"

definition count_received :: "server \<Rightarrow> nat option \<Rightarrow> u64 \<Rightarrow> server option" where
  "count_received sv sess now =
     (case sess of
        None \<Rightarrow> Some sv
      | Some j \<Rightarrow>
          let ss = st_sessions (sv_table sv) in
          if j \<ge> length ss then None
          else Some (sv \<lparr> sv_table := (sv_table sv) \<lparr> st_sessions :=
            ss[j := (ss ! j) \<lparr> s_packets_in_total := s_packets_in_total (ss ! j) + 1, s_last_seen_ms := now \<rparr>] \<rparr> \<rparr>))"

definition process_task :: "u64 \<Rightarrow> u64 \<Rightarrow> server \<Rightarrow> task \<Rightarrow> server option" where
  "process_task now now' sv t =
     (let fd = t_fd t in
      if fd < 0 \<or> fd \<ge> int FD_SETSIZE then finish_task sv t
      else if nat fd \<ge> length (sv_clients sv) then None
      else
        let client = sv_clients sv ! nat fd in
        if \<not> (c_fd client = fd \<and> c_generation client = t_client_generation t \<and> c_connected client) then finish_task sv t
        else do {
          sv \<leftarrow> run_command sv (nat fd) (t_message t) now;
          sv \<leftarrow> count_received sv (c_session (sv_clients sv ! nat fd)) now';
          finish_task sv t
        })"

subsection \<open>Threads\<close>

definition all_queues_empty_locked :: "server \<Rightarrow> bool" where
  "all_queues_empty_locked sv = (mq_count (sv_high sv) = 0 \<and> mq_count (sv_medium sv) = 0 \<and> mq_count (sv_low sv) = 0)"

text \<open>
  A round of a worker up to the task it takes: it waits, leaves its loop, finds nothing in the queues it
  serves, or has a task. The three kinds of workers differ in these queues.
\<close>

datatype worker_round = Waiting | Leaves | Nothing | Takes task

fun dequeue_in_order :: "priority list \<Rightarrow> server \<Rightarrow> (worker_round \<times> server) option" where
  "dequeue_in_order [] sv = Some (Nothing, sv)"
| "dequeue_in_order (p # ps) sv = do {
     (got, q) \<leftarrow> try_dequeue_task_locked (queue_of sv p);
     case got of
       None \<Rightarrow> dequeue_in_order ps sv
     | Some t \<Rightarrow> Some (Takes t, put_queue sv p q)
   }"

definition worker_round :: "priority list \<Rightarrow> server \<Rightarrow> (worker_round \<times> server) option" where
  "worker_round served sv =
     (if sv_shutdown sv then Some (Leaves, sv)
      else if all_queues_empty_locked sv then Some (Waiting, sv)
      else dequeue_in_order served sv)"

definition high_pri_worker :: "server \<Rightarrow> (worker_round \<times> server) option" where
  "high_pri_worker sv = worker_round [HIGH, MEDIUM, LOW] sv"

definition mid_pri_worker :: "server \<Rightarrow> (worker_round \<times> server) option" where
  "mid_pri_worker sv = worker_round [MEDIUM, LOW] sv"

definition low_pri_worker :: "server \<Rightarrow> (worker_round \<times> server) option" where
  "low_pri_worker sv = worker_round [LOW] sv"

text \<open>The bits of an epoll event that \<open>IO_thread\<close> tests.\<close>

record io_event =
  ie_fd :: int
  ie_in :: bool
  ie_out :: bool
  ie_hup :: bool

definition io_event_step ::
  "nat \<Rightarrow> (int \<Rightarrow> (errno, 'w) sender) \<Rightarrow> io_event \<Rightarrow> accept_answer list \<Rightarrow> 'w \<times> server \<Rightarrow> ('w \<times> server) option" where
  "io_event_step k tx e answers st =
     (case st of (w, sv) \<Rightarrow> let fd = ie_fd e in
        if fd = sv_listen_fd sv then
          (if ie_in e then do { (ret, sv) \<leftarrow> handle_accept answers sv; Some (w, sv) } else Some (w, sv))
        else if fd < 0 \<or> nat fd \<ge> length (sv_clients sv) then None
        else if c_fd (sv_clients sv ! nat fd) \<noteq> fd \<or> \<not> c_connected (sv_clients sv ! nat fd) then Some (w, sv)
        else
          let sv = (if ie_hup e then put_client sv (nat fd) ((sv_clients sv ! nat fd) \<lparr> c_pending_close := True \<rparr>) else sv)
          in if ie_out e then handle_client_writable k tx w sv (nat fd) else Some (w, sv))"

fun io_events ::
  "nat \<Rightarrow> (int \<Rightarrow> (errno, 'w) sender) \<Rightarrow> (io_event \<times> accept_answer list) list \<Rightarrow> 'w \<times> server \<Rightarrow> ('w \<times> server) option" where
  "io_events k tx [] st = Some st"
| "io_events k tx (e # es) st = do { st \<leftarrow> io_event_step k tx (fst e) (snd e) st; io_events k tx es st }"

text \<open>A round of \<open>IO_thread\<close> after \<open>epoll_wait\<close>; the flag tells whether its loop ends.\<close>

datatype epoll_answer = Epoll_err errno | Epoll_events "(io_event \<times> accept_answer list) list"

definition IO_round ::
  "nat \<Rightarrow> (int \<Rightarrow> 'r reader) \<Rightarrow> (int \<Rightarrow> (errno, 'w) sender) \<Rightarrow> epoll_answer \<Rightarrow> 'r \<times> 'w \<times> server \<Rightarrow> (bool \<times> 'r \<times> 'w \<times> server) option" where
  "IO_round k rd tx answer st =
     (case st of (r, w, sv) \<Rightarrow>
        if sv_shutdown sv then Some (True, r, w, sv)
        else case answer of
          Epoll_err err \<Rightarrow> Some (err \<noteq> EINTR, r, w, sv)
        | Epoll_events es \<Rightarrow>
            if es = [] then do { sv \<leftarrow> reap_closed_clients sv; Some (False, r, w, sv) }
            else do {
              (w, sv) \<leftarrow> io_events k tx es (w, sv);
              (r, sv) \<leftarrow> handle_client_readable k rd (map (\<lambda>e. (ie_fd (fst e), ie_in (fst e))) es) (r, sv);
              sv \<leftarrow> reap_closed_clients sv;
              Some (False, r, w, sv)
            })"

text \<open>\<open>sig_thread\<close>: every connected client is sent a frame before the flag is set.\<close>

fun notify_clients :: "nat \<Rightarrow> (int \<Rightarrow> (errno, 'w) sender) \<Rightarrow> nat list \<Rightarrow> 'w \<Rightarrow> server \<Rightarrow> 'w option" where
  "notify_clients k tx [] w sv = Some w"
| "notify_clients k tx (i # is) w sv =
     (if i \<ge> length (sv_clients sv) then None
      else
        let c = sv_clients sv ! i in
        if c_connected c \<and> c_fd c = int i then do {
          (ret, w) \<leftarrow> send_framed_message k (tx (c_fd c)) w
            (snd (build_message (Some (ascii ''server shutting down'')) SHUTDOWN_PEER HIGH zero_message 0));
          notify_clients k tx is w sv
        }
        else notify_clients k tx is w sv)"

definition SIGINT :: nat where "SIGINT = 2"
definition SIGTERM :: nat where "SIGTERM = 15"

text \<open>The answers of \<open>sigwaitinfo\<close>, \<open>None\<close> for a failure; without a further answer it is still waiting.\<close>

fun sig_thread :: "nat \<Rightarrow> (int \<Rightarrow> (errno, 'w) sender) \<Rightarrow> nat option list \<Rightarrow> 'w \<Rightarrow> server \<Rightarrow> (bool \<times> 'w \<times> server) option" where
  "sig_thread k tx [] w sv = Some (False, w, sv)"
| "sig_thread k tx (None # xs) w sv = sig_thread k tx xs w sv"
| "sig_thread k tx (Some sig_num # xs) w sv =
     (if sig_num = SIGTERM \<or> sig_num = SIGINT then do {
        w \<leftarrow> notify_clients k tx [0..<FD_SETSIZE] w sv;
        Some (True, w, sv \<lparr> sv_shutdown := True \<rparr>)
      } else sig_thread k tx xs w sv)"

end
