(* ===== verification/Uds_Invariant.thy ===== *)
theory Uds_Invariant
  imports Uds_Server "HOL-Library.Multiset"
begin

text \<open>
  The control-plane server in every run. The tasks that have been read and not yet finished, in the
  queues or with a worker, are counted by \<open>pending_task\<close> of their connection, which keeps the
  connection from being reaped; so a worker always finds the connection its task came from.
\<close>

section \<open>The task queues\<close>

definition mq_holds :: "message_queue \<Rightarrow> task list \<Rightarrow> bool" where
  "mq_holds q ts = (ring 1024 (mq_tasks q) (mq_head q) (mq_tail q) ts \<and> mq_count q = length ts)"

lemma init_queue_holds: "mq_holds init_message_queue []"
  by (simp add: mq_holds_def init_message_queue_def ring_def CAPACITY_def)

lemma enqueue_task_room:
  assumes "mq_holds q ts" and "length ts < 1024"
  shows "\<exists>q'. enqueue_task q t = Some (True, q') \<and> mq_holds q' (ts @ [t])"
proof -
  have r: "ring 1024 (mq_tasks q) (mq_head q) (mq_tail q) ts" and c: "mq_count q = length ts" using assms by (simp_all add: mq_holds_def)
  show ?thesis using ring_bounds [OF r] ring_put [OF r assms(2), of t] assms(2) c
    by (simp add: enqueue_task_def mq_holds_def CAPACITY_def)
qed

lemma enqueue_task_full: "mq_holds q ts \<Longrightarrow> length ts = 1024 \<Longrightarrow> enqueue_task q t = Some (False, q)"
  by (simp add: enqueue_task_def mq_holds_def CAPACITY_def)

lemma dequeue_task_empty: "mq_holds q [] \<Longrightarrow> try_dequeue_task_locked q = Some (None, q)"
  by (simp add: try_dequeue_task_locked_def mq_holds_def)

lemma dequeue_task_front:
  assumes "mq_holds q (t # ts)"
  shows "\<exists>q'. try_dequeue_task_locked q = Some (Some t, q') \<and> mq_holds q' ts"
proof -
  have r: "ring 1024 (mq_tasks q) (mq_head q) (mq_tail q) (t # ts)" and c: "mq_count q = Suc (length ts)" using assms by (simp_all add: mq_holds_def)
  show ?thesis using ring_bounds [OF r] ring_get [OF r] c by (simp add: try_dequeue_task_locked_def mq_holds_def CAPACITY_def)
qed

text \<open>Each queue is a bounded first-in first-out buffer.\<close>

interpretation tqueue: bounded_fifo mq_holds 1024 "\<lambda>t q. True" "\<lambda>t. t" "\<lambda>t q. enqueue_task q t" try_dequeue_task_locked
proof (unfold_locales, goal_cases)
  case (1 s xs) then show ?case by (simp add: mq_holds_def ring_def)
next
  case 2 then show ?case using enqueue_task_room by blast
next
  case 3 then show ?case using enqueue_task_full by blast
next
  case 4 then show ?case using dequeue_task_empty by blast
next
  case 5 then show ?case using dequeue_task_front by blast
qed

definition mq_list :: "message_queue \<Rightarrow> task list" where
  "mq_list q = map (\<lambda>i. mq_tasks q ! ((mq_tail q + i) mod 1024)) [0..<mq_count q]"

lemma mq_holds_list: "mq_holds q ts \<Longrightarrow> mq_list q = ts"
  by (rule nth_equalityI) (simp_all add: mq_holds_def ring_def mq_list_def)

definition queues_ok :: "server \<Rightarrow> bool" where
  "queues_ok sv = (\<forall>p. mq_holds (queue_of sv p) (mq_list (queue_of sv p)))"

definition queued :: "server \<Rightarrow> task multiset" where
  "queued sv = mset (mq_list (sv_high sv)) + mset (mq_list (sv_medium sv)) + mset (mq_list (sv_low sv))"

lemma queue_of_put [simp]: "queue_of (put_queue sv p q) p' = (if p' = p then q else queue_of sv p')"
  by (cases p; cases p') simp_all

lemma put_queue_other [simp]:
  "sv_clients (put_queue sv p q) = sv_clients sv" "sv_table (put_queue sv p q) = sv_table sv" "k_open (put_queue sv p q) = k_open sv"
  "k_epoll (put_queue sv p q) = k_epoll sv" "sv_listen_fd (put_queue sv p q) = sv_listen_fd sv" "sv_shutdown (put_queue sv p q) = sv_shutdown sv"
  by (cases p; simp)+

lemma queued_put:
  assumes "queues_ok sv" and "mq_holds q ts"
  shows "queues_ok (put_queue sv p q) \<and> queued (put_queue sv p q) + mset (mq_list (queue_of sv p)) = queued sv + mset ts"
proof -
  have "queues_ok (put_queue sv p q)" using assms mq_holds_list [OF assms(2)] by (simp add: queues_ok_def)
  moreover have "queued (put_queue sv p q) + mset (mq_list (queue_of sv p)) = queued sv + mset ts"
    using mq_holds_list [OF assms(2)] by (cases p) (simp_all add: queued_def ac_simps)
  ultimately show ?thesis by simp
qed

text \<open>The queues and the flag decide whether a task is taken; nothing else of the server changes.\<close>

lemma try_enqueue_task_cases:
  assumes "queues_ok sv" and "sv_shutdown sv \<or> p \<noteq> None"
  shows "try_enqueue_task sv p t = Some (False, sv) \<or>
    (\<exists>q x. p = Some q \<and> try_enqueue_task sv p t = Some (True, put_queue sv q x) \<and> queues_ok (put_queue sv q x) \<and>
       queued (put_queue sv q x) = add_mset t (queued sv))"
proof (cases "sv_shutdown sv")
  case True
  then show ?thesis by (simp add: try_enqueue_task_def)
next
  case False
  with assms(2) obtain q where q: "p = Some q" by auto
  let ?ts = "mq_list (queue_of sv q)"
  have h: "mq_holds (queue_of sv q) ?ts" using assms(1) by (simp add: queues_ok_def)
  then have "length ?ts \<le> 1024" by (simp add: mq_holds_def ring_def)
  then consider "length ?ts < 1024" | "length ?ts = 1024" by linarith
  then show ?thesis
  proof cases
    case 1
    from enqueue_task_room [OF h 1, of t] obtain x where x: "enqueue_task (queue_of sv q) t = Some (True, x)" "mq_holds x (?ts @ [t])" by blast
    then show ?thesis using queued_put [OF assms(1) x(2), of q] False q by (auto simp: try_enqueue_task_def)
  next
    case 2
    have "put_queue sv q (queue_of sv q) = sv" by (cases q) simp_all
    then show ?thesis using enqueue_task_full [OF h 2, of t] False q by (simp add: try_enqueue_task_def)
  qed
qed

lemma dequeue_in_order_cases:
  assumes "queues_ok sv"
  shows "dequeue_in_order ps sv = Some (Nothing, sv) \<and> (\<forall>p \<in> set ps. mq_list (queue_of sv p) = []) \<or>
    (\<exists>t p x. p \<in> set ps \<and> dequeue_in_order ps sv = Some (Takes t, put_queue sv p x) \<and> queues_ok (put_queue sv p x) \<and>
       queued sv = add_mset t (queued (put_queue sv p x)) \<and> t = hd (mq_list (queue_of sv p)))"
proof (induction ps)
  case (Cons p ps)
  have h: "mq_holds (queue_of sv p) (mq_list (queue_of sv p))" using assms by (simp add: queues_ok_def)
  show ?case
  proof (cases "mq_list (queue_of sv p)")
    case Nil
    then have "dequeue_in_order (p # ps) sv = dequeue_in_order ps sv" using dequeue_task_empty h by simp
    then show ?thesis using Cons Nil by auto
  next
    case (Cons t ts)
    with h dequeue_task_front obtain x where x: "try_dequeue_task_locked (queue_of sv p) = Some (Some t, x)" "mq_holds x ts" by metis
    then have "queues_ok (put_queue sv p x)" "queued sv = add_mset t (queued (put_queue sv p x))"
      using queued_put [OF assms x(2), of p] Cons by (auto simp: ac_simps)
    with x(1) Cons show ?thesis by fastforce
  qed
qed simp

section \<open>The connections\<close>

definition client_ok :: "nat \<Rightarrow> client \<Rightarrow> bool" where
  "client_ok i c =
     ((c_connected c \<longrightarrow> rx_inv c \<and> c_fd c = int i) \<and> (\<exists>outs. tx_inv c outs) \<and> (\<forall>j. c_session c = Some j \<longrightarrow> j < 256) \<and>
      (c_pending_close c \<longrightarrow> c_connected c))"

text \<open>A task belongs to an open connection of the same generation.\<close>

definition task_ok :: "server \<Rightarrow> task \<Rightarrow> bool" where
  "task_ok sv t =
     (0 \<le> t_fd t \<and> t_fd t < 1024 \<and> message_ok (t_message t) \<and> length_ok (t_message t) \<and> t_fd t \<in> set (k_open sv) \<and>
      c_connected (sv_clients sv ! nat (t_fd t)) \<and> c_generation (sv_clients sv ! nat (t_fd t)) = t_client_generation t)"

definition pending_of :: "nat \<Rightarrow> task multiset \<Rightarrow> nat" where
  "pending_of i ts = size (filter_mset (\<lambda>t. t_fd t = int i) ts)"

definition uds_inv :: "server \<Rightarrow> task multiset \<Rightarrow> bool" where
  "uds_inv sv ts =
     (length (sv_clients sv) = 1024 \<and> length (st_sessions (sv_table sv)) = 256 \<and>
      0 \<le> sv_listen_fd sv \<and> sv_listen_fd sv < 1024 \<and> sv_listen_fd sv \<in> set (k_open sv) \<and>
      \<not> c_connected (sv_clients sv ! nat (sv_listen_fd sv)) \<and>
      set (k_epoll sv) \<subseteq> set (k_open sv) \<and> set (k_open sv) \<subseteq> {0..<1024} \<and>
      (\<forall>i < 1024. client_ok i (sv_clients sv ! i) \<and> c_pending_task (sv_clients sv ! i) = pending_of i ts) \<and>
      (\<forall>t. t \<in># ts \<longrightarrow> task_ok sv t))"

lemma client_ok_same:
  assumes "client_ok i c" and "same_read c c'" and "tx_inv c' outs"
  shows "client_ok i c'"
proof -
  have "stage_size c' = stage_size c" using assms(2) by (simp add: same_read_def stage_size_def split: rx_stage.splits)
  then show ?thesis using assms by (auto simp: client_ok_def same_read_def rx_inv_def)
qed

lemma client_ok_zero: "client_ok i zero_client"
proof -
  have "tx_inv zero_client []"
    by (simp add: tx_inv_def zero_client_def zero_outgoing_def ring_def NUM_PACKET_TO_SEND_def)
  moreover have "c_session zero_client = None" "\<not> c_connected zero_client" "\<not> c_pending_close zero_client" by (simp_all add: zero_client_def)
  ultimately show ?thesis unfolding client_ok_def by auto
qed

lemma put_client_simps [simp]:
  "sv_table (put_client sv i c) = sv_table sv" "k_open (put_client sv i c) = k_open sv" "k_epoll (put_client sv i c) = k_epoll sv"
  "sv_listen_fd (put_client sv i c) = sv_listen_fd sv" "sv_shutdown (put_client sv i c) = sv_shutdown sv"
  "queue_of (put_client sv i c) p = queue_of sv p" "queued (put_client sv i c) = queued sv" "queues_ok (put_client sv i c) = queues_ok sv"
  "sv_clients (put_client sv i c) = (sv_clients sv)[i := c]" "put_client (put_client sv i c) i c' = put_client sv i c'"
proof -
  show q: "queue_of (put_client sv i c) p = queue_of sv p" for p by (cases p) (simp_all add: put_client_def)
  show "queues_ok (put_client sv i c) = queues_ok sv" by (simp add: queues_ok_def q)
qed (simp_all add: put_client_def queued_def)

text \<open>Replacing a connection by one with the same identity, for the tasks that are then outstanding.\<close>

lemma put_client_inv:
  assumes inv: "uds_inv sv ts" and i: "i < 1024" and c: "client_ok i c" "c_connected c = c_connected (sv_clients sv ! i)"
      "c_generation c = c_generation (sv_clients sv ! i)" "c_pending_task c = pending_of i ts'"
    and ts: "\<And>j. j \<noteq> i \<Longrightarrow> pending_of j ts' = pending_of j ts" "\<And>t. t \<in># ts' \<Longrightarrow> task_ok sv t"
  shows "uds_inv (put_client sv i c) ts'"
proof -
  have l: "length (sv_clients sv) = 1024" using inv by (simp add: uds_inv_def)
  have "task_ok (put_client sv i c) t" if "task_ok sv t" for t
    using that c(2,3) l i by (cases "nat (t_fd t) = i") (auto simp: task_ok_def)
  moreover have "client_ok j ((sv_clients sv)[i := c] ! j) \<and> c_pending_task ((sv_clients sv)[i := c] ! j) = pending_of j ts'" if "j < 1024" for j
    using inv that c(1,4) ts(1) l i by (cases "j = i") (auto simp: uds_inv_def)
  moreover have "\<not> c_connected ((sv_clients sv)[i := c] ! nat (sv_listen_fd sv))"
    using inv c(2) l i by (cases "nat (sv_listen_fd sv) = i") (auto simp: uds_inv_def)
  ultimately show ?thesis using inv ts(2) by (simp add: uds_inv_def)
qed

lemma put_client_same:
  assumes "uds_inv sv ts" "i < 1024" "client_ok i c" "c_connected c = c_connected (sv_clients sv ! i)"
    "c_generation c = c_generation (sv_clients sv ! i)" "c_pending_task c = c_pending_task (sv_clients sv ! i)"
  shows "uds_inv (put_client sv i c) ts"
  using put_client_inv [OF assms(1-5), of ts] assms(1,2,6) by (simp add: uds_inv_def)

lemma pending_add: "pending_of i (add_mset t ts) = pending_of i ts + (if t_fd t = int i then 1 else 0)"
  by (simp add: pending_of_def)

lemma uds_inv_tasks:
  "uds_inv sv ts \<Longrightarrow> sv_clients sv' = sv_clients sv \<Longrightarrow> length (st_sessions (sv_table sv')) = 256 \<Longrightarrow> k_open sv' = k_open sv \<Longrightarrow>
   k_epoll sv' = k_epoll sv \<Longrightarrow> sv_listen_fd sv' = sv_listen_fd sv \<Longrightarrow> uds_inv sv' ts"
  by (simp add: uds_inv_def task_ok_def)

section \<open>The tasks\<close>

definition same_queues :: "server \<Rightarrow> server \<Rightarrow> bool" where
  "same_queues sv sv' = ((\<forall>p. queue_of sv' p = queue_of sv p) \<and> sv_shutdown sv' = sv_shutdown sv)"

lemma same_queues_put [simp]: "same_queues sv (put_client sv' i c) = same_queues sv sv'" "same_queues sv sv"
  by (simp_all add: same_queues_def)

lemma same_queues_trans: "same_queues a b \<Longrightarrow> same_queues b c \<Longrightarrow> same_queues a c"
  by (simp add: same_queues_def)

lemma same_queues_table [simp]: "same_queues sv (sv' \<lparr> sv_table := x \<rparr>) = same_queues sv sv'"
proof -
  have "queue_of (sv' \<lparr> sv_table := x \<rparr>) p = queue_of sv' p" for p by (cases p) simp_all
  then show ?thesis by (simp add: same_queues_def)
qed

lemma same_queues_queued:
  assumes "same_queues sv sv'"
  shows "queues_ok sv' = queues_ok sv" and "queued sv' = queued sv"
proof -
  have q: "queue_of sv' p = queue_of sv p" for p using assms by (simp add: same_queues_def)
  show "queues_ok sv' = queues_ok sv" by (simp add: queues_ok_def q)
  show "queued sv' = queued sv" using q [of HIGH] q [of MEDIUM] q [of LOW] by (simp add: queued_def)
qed

lemma built_ok: "built p cmd pri num m \<Longrightarrow> message_ok m \<and> length_ok m"
  by (auto simp: built_def length_ok_def frame_consts)

lemma inv_client:
  assumes "uds_inv sv ts" and "i < 1024"
  shows "client_ok i (sv_clients sv ! i)" and "\<exists>outs. tx_inv (sv_clients sv ! i) outs" and "i < length (sv_clients sv)"
    and "c_pending_task (sv_clients sv ! i) = pending_of i ts"
  using assms by (auto simp: uds_inv_def client_ok_def)

lemma queue_reply:
  assumes inv: "uds_inv sv ts" and i: "i < 1024" and outs: "tx_inv (sv_clients sv ! i) outs" and b: "built p cmd pri num m"
  shows "\<exists>c' x. queue_client (sv_clients sv ! i) m = Some (0, c') \<and> same_read (sv_clients sv ! i) c' \<and> tx_inv c' (kept_outs outs @ [x]) \<and>
    o_msg x = m \<and> uds_inv (put_client sv i c') ts"
proof -
  have "message_ok m" "length_ok m" using built_ok [OF b] by simp_all
  from queue_client_inv [OF outs this] obtain c' x where
    q: "queue_client (sv_clients sv ! i) m = Some (0, c')" "same_read (sv_clients sv ! i) c'" "tx_inv c' (kept_outs outs @ [x])" "o_msg x = m" by blast
  have "client_ok i c'" using client_ok_same [OF inv_client(1) [OF inv i] q(2,3)] .
  from put_client_same [OF inv i this] q(2) have "uds_inv (put_client sv i c') ts" by (simp add: same_read_def)
  with q show ?thesis by blast
qed

lemma reply_client_inv:
  assumes inv: "uds_inv sv ts" and i: "i < 1024" and outs: "tx_inv (sv_clients sv ! i) outs"
  shows "\<exists>c' x. reply_client sv i p cmd num = Some (put_client sv i c') \<and> same_read (sv_clients sv ! i) c' \<and>
    tx_inv c' (kept_outs outs @ [x]) \<and> built p cmd LOW num (o_msg x) \<and> uds_inv (put_client sv i c') ts"
proof -
  have b: "built p cmd LOW num (snd (build_message (Some p) cmd LOW zero_message num))" using build_message_built by blast
  from queue_reply [OF inv i outs b] obtain c' x where
    q: "queue_client (sv_clients sv ! i) (snd (build_message (Some p) cmd LOW zero_message num)) = Some (0, c')" "same_read (sv_clients sv ! i) c'"
      "tx_inv c' (kept_outs outs @ [x])" "o_msg x = snd (build_message (Some p) cmd LOW zero_message num)" "uds_inv (put_client sv i c') ts" by blast
  then show ?thesis using b by (intro exI [of _ c'] exI [of _ x]) (simp add: reply_client_def)
qed

lemma session_lookup_ok:
  assumes l: "length (st_sessions table) = 256"
  shows "\<exists>s b table'. session_lookup_or_create table token now = Some ((s, b), table') \<and> length (st_sessions table') = 256 \<and> (\<forall>j. s = Some j \<longrightarrow> j < 256)"
proof -
  let ?P = "\<lambda>t. s_in_use t \<and> same_token token (s_token t)" and ?F = "\<lambda>t. \<not> s_in_use t" and ?ss = "st_sessions table"
  have sc: "(\<exists>i. scan P ?ss 0 256 = Some (int i) \<and> i < 256) \<or> scan P ?ss 0 256 = Some (-1)" for P
    using scan_cases [of 256 ?ss 0 P] scan_found [of P ?ss 0 256] l by auto
  from sc [of ?P] consider i where "scan ?P ?ss 0 256 = Some (int i)" "i < 256" | "scan ?P ?ss 0 256 = Some (-1)" by blast
  then show ?thesis
  proof cases
    case 1
    then show ?thesis using l by (auto simp: session_lookup_or_create_def MAX_SESSIONS_def Let_def)
  next
    case 2
    with sc [of ?F] l show ?thesis by (auto simp: session_lookup_or_create_def MAX_SESSIONS_def Let_def)
  qed
qed

lemma client_ok_session: "client_ok i c \<Longrightarrow> j < 256 \<Longrightarrow> client_ok i (c \<lparr> c_session := Some j \<rparr>)"
  by (simp add: client_ok_def rx_inv_def stage_size_def tx_inv_def split: rx_stage.splits)

lemma client_ok_close: "client_ok i c \<Longrightarrow> c_connected c \<Longrightarrow> client_ok i (c \<lparr> c_pending_close := True \<rparr>)"
  by (simp add: client_ok_def rx_inv_def tx_inv_def)

lemma client_ok_pending: "client_ok i (c \<lparr> c_pending_task := n \<rparr>) = client_ok i c"
  by (simp add: client_ok_def rx_inv_def stage_size_def tx_inv_def split: rx_stage.splits)

text \<open>What a task does to the server: it keeps the invariant, the queues and the identity of its connection.\<close>

definition task_effect :: "server \<Rightarrow> task multiset \<Rightarrow> nat \<Rightarrow> server \<Rightarrow> bool" where
  "task_effect sv ts i sv' =
     (uds_inv sv' ts \<and> same_queues sv sv' \<and> k_open sv' = k_open sv \<and> c_generation (sv_clients sv' ! i) = c_generation (sv_clients sv ! i) \<and>
      c_connected (sv_clients sv' ! i) = c_connected (sv_clients sv ! i))"

lemma task_effect_table [simp]: "task_effect (sv \<lparr> sv_table := x \<rparr>) ts i sv' = task_effect sv ts i sv'"
proof -
  have "queue_of (sv \<lparr> sv_table := x \<rparr>) p = queue_of sv p" for p by (cases p) simp_all
  then show ?thesis by (simp add: task_effect_def same_queues_def)
qed

lemma task_effect_put:
  "i < length (sv_clients sv) \<Longrightarrow> c_generation c = c_generation (sv_clients sv ! i) \<Longrightarrow> c_connected c = c_connected (sv_clients sv ! i) \<Longrightarrow>
   task_effect (put_client sv i c) ts i sv' = task_effect sv ts i sv'"
  by (simp add: task_effect_def same_queues_def)

lemma reply_effect:
  assumes inv: "uds_inv sv ts" and i: "i < 1024"
  shows "\<exists>sv'. reply_client sv i p cmd num = Some sv' \<and> task_effect sv ts i sv'"
proof -
  obtain outs where "tx_inv (sv_clients sv ! i) outs" using inv_client(2) [OF assms] by blast
  from reply_client_inv [OF assms this, of p cmd num] obtain c' where
    "reply_client sv i p cmd num = Some (put_client sv i c')" "same_read (sv_clients sv ! i) c'" "uds_inv (put_client sv i c') ts" by blast
  then show ?thesis using inv_client(3) [OF assms] by (simp add: task_effect_def same_read_def)
qed

lemma identify_effect:
  assumes inv: "uds_inv sv ts" and i: "i < 1024"
  shows "\<exists>sv'. identify_task sv i m now = Some sv' \<and> task_effect sv ts i sv'"
proof (cases "identify_token m = []")
  case True
  then show ?thesis using reply_effect [OF assms] by (simp add: identify_task_def)
next
  case False
  have l: "length (st_sessions (sv_table sv)) = 256" using inv by (simp add: uds_inv_def)
  from session_lookup_ok [OF l, of "identify_token m @ [0]" now] obtain s b table where
    t: "session_lookup_or_create (sv_table sv) (identify_token m @ [0]) now = Some ((s, b), table)" "length (st_sessions table) = 256" "\<forall>j. s = Some j \<longrightarrow> j < 256"
    by blast
  let ?sv = "sv \<lparr> sv_table := table \<rparr>"
  have u: "uds_inv ?sv ts" using uds_inv_tasks [OF inv, of ?sv] t(2) by simp
  show ?thesis
  proof (cases s)
    case None
    from reply_effect [OF u i] show ?thesis using t(1) False None by (simp add: identify_task_def)
  next
    case (Some j)
    let ?c = "(sv_clients sv ! i) \<lparr> c_session := Some j \<rparr>"
    have "client_ok i ?c" using client_ok_session inv_client(1) [OF assms] t(3) Some by blast
    then have p: "uds_inv (put_client ?sv i ?c) ts" using put_client_same [OF u i, of ?c] by simp
    have "task_effect (put_client ?sv i ?c) ts i sv' = task_effect sv ts i sv'" for sv'
      using task_effect_put [of i ?sv ?c ts sv'] inv_client(3) [OF assms] by simp
    with reply_effect [OF p i] show ?thesis using t(1) False Some by (simp add: identify_task_def)
  qed
qed

lemma command_effect:
  assumes inv: "uds_inv sv ts" and i: "i < 1024" and c: "c_connected (sv_clients sv ! i)"
  shows "\<exists>sv'. run_command sv i m now = Some sv' \<and> task_effect sv ts i sv'"
proof -
  have same: "task_effect sv ts i sv" using inv by (simp add: task_effect_def)
  have "uds_inv (put_client sv i ((sv_clients sv ! i) \<lparr> c_pending_close := True \<rparr>)) ts"
    by (rule put_client_same [OF inv i]) (use client_ok_close [OF inv_client(1) [OF inv i] c] in simp_all)
  then have close: "task_effect sv ts i (put_client sv i ((sv_clients sv ! i) \<lparr> c_pending_close := True \<rparr>))"
    using inv_client(3) [OF inv i] by (simp add: task_effect_def)
  show ?thesis using same close reply_effect [OF inv i] identify_effect [OF inv i]
    by (auto simp: run_command_def split: option.splits)
qed

lemma count_received_effect:
  assumes inv: "uds_inv sv ts" and i: "i < 1024"
  shows "\<exists>sv'. count_received sv (c_session (sv_clients sv ! i)) now = Some sv' \<and> task_effect sv ts i sv'"
proof (cases "c_session (sv_clients sv ! i)")
  case None
  then show ?thesis using inv by (simp add: count_received_def task_effect_def)
next
  case (Some j)
  have l: "length (st_sessions (sv_table sv)) = 256" using inv by (simp add: uds_inv_def)
  have j: "j < 256" using inv_client(1) [OF assms] Some by (simp add: client_ok_def)
  then show ?thesis using Some l uds_inv_tasks [OF inv] by (simp add: count_received_def task_effect_def Let_def)
qed

lemma task_effect_trans:
  "task_effect a ts i b \<Longrightarrow> task_effect b ts i c \<Longrightarrow> task_effect a ts i c"
  using same_queues_trans by (auto simp: task_effect_def)

lemma finish_task_inv:
  assumes inv: "uds_inv sv ts" and t: "t \<in># ts"
  shows "\<exists>sv'. finish_task sv t = Some sv' \<and> uds_inv sv' (ts - {#t#}) \<and> same_queues sv sv'"
proof -
  let ?i = "nat (t_fd t)" and ?ts = "ts - {#t#}"
  let ?c = "sv_clients sv ! ?i"
  have ok: "task_ok sv t" using inv t by (simp add: uds_inv_def)
  then have i: "?i < 1024" "int ?i = t_fd t" by (auto simp: task_ok_def)
  have ts: "ts = add_mset t ?ts" using t by simp
  have n: "c_pending_task ?c = pending_of ?i ?ts + 1"
    using inv_client(4) [OF inv i(1)] pending_add [of ?i t ?ts] ts i(2) by simp
  have co: "client_ok ?i ?c" "c_fd ?c = t_fd t" using inv_client(1) [OF inv i(1)] ok i(2) by (auto simp: client_ok_def task_ok_def)
  have "uds_inv (put_client sv ?i (?c \<lparr> c_pending_task := c_pending_task ?c - 1 \<rparr>)) ?ts"
  proof (rule put_client_inv [OF inv i(1)])
    show "pending_of j ?ts = pending_of j ts" if "j \<noteq> ?i" for j using pending_add [of j t ?ts] ts that by auto
    show "task_ok sv u" if "u \<in># ?ts" for u using inv in_diffD [OF that] by (simp add: uds_inv_def)
  qed (use co n in \<open>simp_all add: client_ok_pending\<close>)
  moreover have "finish_task sv t = Some (put_client sv ?i (?c \<lparr> c_pending_task := c_pending_task ?c - 1 \<rparr>))"
    using ok n co(2) inv_client(3) [OF inv i(1)] by (simp add: finish_task_def task_ok_def FD_SETSIZE_def Let_def)
  ultimately show ?thesis by simp
qed

lemma process_task_inv:
  assumes inv: "uds_inv sv ts" and t: "t \<in># ts"
  shows "\<exists>sv'. process_task now now' sv t = Some sv' \<and> uds_inv sv' (ts - {#t#}) \<and> same_queues sv sv'"
proof -
  let ?i = "nat (t_fd t)" and ?c = "sv_clients sv ! nat (t_fd t)"
  have ok: "task_ok sv t" using inv t by (simp add: uds_inv_def)
  then have i: "?i < 1024" "int ?i = t_fd t" by (auto simp: task_ok_def)
  have c: "c_connected ?c" "c_generation ?c = t_client_generation t" "c_fd ?c = t_fd t"
    using ok inv_client(1) [OF inv i(1)] i(2) by (auto simp: task_ok_def client_ok_def)
  from command_effect [OF inv i(1) c(1)] obtain sv1 where s1: "run_command sv ?i (t_message t) now = Some sv1" "task_effect sv ts ?i sv1" by blast
  then have inv1: "uds_inv sv1 ts" by (simp add: task_effect_def)
  from count_received_effect [OF inv1 i(1)] obtain sv2 where
    s2: "count_received sv1 (c_session (sv_clients sv1 ! ?i)) now' = Some sv2" "task_effect sv1 ts ?i sv2" by blast
  then have inv2: "uds_inv sv2 ts" by (simp add: task_effect_def)
  from finish_task_inv [OF inv2 t] obtain sv3 where s3: "finish_task sv2 t = Some sv3" "uds_inv sv3 (ts - {#t#})" "same_queues sv2 sv3" by blast
  have "process_task now now' sv t = Some sv3"
    using ok c s1(1) s2(1) s3(1) inv_client(3) [OF inv i(1)] by (simp add: process_task_def task_ok_def FD_SETSIZE_def Let_def)
  moreover have "same_queues sv sv3" using s1(2) s2(2) s3(3) same_queues_trans unfolding task_effect_def by blast
  ultimately show ?thesis using s3(2) by blast
qed

section \<open>The I/O thread\<close>

text \<open>A connection without outstanding tasks can be given up or taken into use.\<close>

lemma pending_of_zero: "pending_of i ts = 0 \<Longrightarrow> t \<in># ts \<Longrightarrow> t_fd t \<noteq> int i"
  by (auto simp: pending_of_def filter_mset_eq_conv)

lemma replace_client_inv:
  assumes inv: "uds_inv sv ts" and i: "i < 1024" "int i \<noteq> sv_listen_fd sv" "pending_of i ts = 0" and c: "client_ok i c" "c_pending_task c = 0"
  shows "uds_inv (put_client sv i c) ts"
proof -
  have l: "length (sv_clients sv) = 1024" using inv by (simp add: uds_inv_def)
  have "task_ok (put_client sv i c) t" if t: "t \<in># ts" for t
  proof -
    have ok: "task_ok sv t" using inv t by (simp add: uds_inv_def)
    then have "nat (t_fd t) \<noteq> i" using pending_of_zero [OF i(3) t] by (auto simp: task_ok_def)
    then show ?thesis using ok by (simp add: task_ok_def)
  qed
  moreover have "client_ok j ((sv_clients sv)[i := c] ! j) \<and> c_pending_task ((sv_clients sv)[i := c] ! j) = pending_of j ts" if "j < 1024" for j
    using inv that c i l by (cases "j = i") (auto simp: uds_inv_def)
  moreover have "nat (sv_listen_fd sv) \<noteq> i" using inv i(2) by (auto simp: uds_inv_def)
  ultimately show ?thesis using inv by (simp add: uds_inv_def)
qed

lemma accept_one_inv:
  assumes inv: "uds_inv sv ts" and fd: "0 \<le> fd" "fd \<notin> set (k_open sv)"
  shows "\<exists>sv'. accept_one fd now now' added sv = Some sv' \<and> uds_inv sv' ts \<and> same_queues sv sv' \<and>
    k_open sv' = (if added \<and> fd < 1024 then fd # k_open sv else k_open sv)"
proof (cases "fd \<ge> 1024")
  case True
  then show ?thesis using inv by (simp add: accept_one_def FD_SETSIZE_def)
next
  case lt: False
  let ?i = "nat fd"
  have i: "?i < 1024" "int ?i = fd" using lt fd(1) by auto
  let ?c = "(init_client (sv_next_client_id sv + 1) (c_generation (sv_clients sv ! ?i) + 1) now now') \<lparr> c_fd := fd, c_connected := True \<rparr>"
  let ?sv = "(put_client sv ?i ?c) \<lparr> sv_next_client_id := sv_next_client_id sv + 1, sv_num_clients := sv_num_clients sv + 1 \<rparr>"
  have "t_fd t \<noteq> fd" if "t \<in># ts" for t using inv that fd(2) by (auto simp: uds_inv_def task_ok_def)
  then have p: "pending_of ?i ts = 0" using i(2) by (auto simp: pending_of_def filter_mset_eq_conv)
  have "client_ok ?i ?c" using client_ok_zero [of ?i] i(2)
    by (auto simp: client_ok_def init_client_def rx_inv_def stage_size_def tx_inv_def zero_client_def zero_message_def message_ok_def frame_consts)
  moreover have "c_pending_task ?c = 0" by (simp add: init_client_def zero_client_def)
  moreover have "fd \<noteq> sv_listen_fd sv" using inv fd(2) by (auto simp: uds_inv_def)
  ultimately have "uds_inv (put_client sv ?i ?c) ts" using replace_client_inv [OF inv i(1)] p i(2) by simp
  then have u: "uds_inv ?sv ts" using uds_inv_tasks [of "put_client sv ?i ?c" ts ?sv] by (simp add: uds_inv_def)
  have q: "same_queues sv (?sv \<lparr> k_open := a, k_epoll := b, sv_max_fd := n \<rparr>)" "same_queues sv ?sv" for a b n
  proof -
    have "queue_of (?sv \<lparr> k_open := a, k_epoll := b, sv_max_fd := n \<rparr>) x = queue_of sv x" "queue_of ?sv x = queue_of sv x" for x
      by (cases x; simp add: put_client_def)+
    then show "same_queues sv (?sv \<lparr> k_open := a, k_epoll := b, sv_max_fd := n \<rparr>)" "same_queues sv ?sv" by (simp_all add: same_queues_def)
  qed
  show ?thesis
  proof (cases added)
    case True
    have "uds_inv (?sv \<lparr> k_open := fd # k_open sv, k_epoll := fd # k_epoll sv, sv_max_fd := max fd (sv_max_fd sv) \<rparr>) ts"
      using u fd(1) lt by (auto simp: uds_inv_def task_ok_def)
    moreover have "accept_one fd now now' added sv = Some (?sv \<lparr> k_open := fd # k_open sv, k_epoll := fd # k_epoll sv, sv_max_fd := max fd (sv_max_fd sv) \<rparr>)"
      using True lt inv_client(3) [OF inv i(1)] fd(1) by (simp add: accept_one_def FD_SETSIZE_def Let_def put_client_def)
    ultimately show ?thesis using True lt q(1) by auto
  next
    case na: False
    then have "accept_one fd now now' added sv = Some ?sv"
      using lt inv_client(3) [OF inv i(1)] fd(1) by (simp add: accept_one_def FD_SETSIZE_def Let_def)
    then show ?thesis using na q(2) u by auto
  qed
qed

text \<open>The kernel hands out descriptors that are not open.\<close>

fun accepts_ok :: "accept_answer list \<Rightarrow> int list \<Rightarrow> bool" where
  "accepts_ok [] fds = True"
| "accepts_ok (Accept_err e # as) fds = True"
| "accepts_ok (Accepted fd now now' added # as) fds =
     (0 \<le> fd \<and> fd \<notin> set fds \<and> accepts_ok as (if added \<and> fd < 1024 then fd # fds else fds))"

lemma uds_accept_inv:
  "uds_inv sv ts \<Longrightarrow> accepts_ok as (k_open sv) \<Longrightarrow>
   \<exists>ret sv'. handle_accept as sv = Some (ret, sv') \<and> uds_inv sv' ts \<and> same_queues sv sv'"
proof (induction as sv rule: handle_accept.induct)
  case (3 fd now now' added as sv)
  from accept_one_inv [OF "3.prems"(1), of fd now now' added] "3.prems"(2) obtain sv1 where
    s: "accept_one fd now now' added sv = Some sv1" "uds_inv sv1 ts" "same_queues sv sv1"
      "k_open sv1 = (if added \<and> fd < 1024 then fd # k_open sv else k_open sv)" by auto
  then show ?case using "3.IH" "3.prems"(2) same_queues_trans by fastforce
qed simp_all

lemma reap_one_inv:
  assumes inv: "uds_inv sv ts" and i: "i < 1024"
  shows "\<exists>sv'. reap_one i sv = Some sv' \<and> uds_inv sv' ts \<and> same_queues sv sv'"
proof -
  let ?c = "sv_clients sv ! i"
  show ?thesis
  proof (cases "c_pending_close ?c \<and> c_pending_task ?c = 0 \<and> c_send_count ?c = 0")
    case False
    then show ?thesis using inv inv_client(3) [OF assms] by (auto simp: reap_one_def Let_def)
  next
    case True
    have co: "client_ok i ?c" "c_connected ?c" "c_fd ?c = int i" using inv_client(1) [OF assms] True by (auto simp: client_ok_def)
    have p: "pending_of i ts = 0" using inv_client(4) [OF assms] True by simp
    have "nat (sv_listen_fd sv) \<noteq> i" using inv co(2) by (auto simp: uds_inv_def)
    then have l: "int i \<noteq> sv_listen_fd sv" by auto
    let ?c' = "?c \<lparr> c_fd := -1, c_connected := False, c_pending_close := False, c_session := None \<rparr>"
    obtain outs where "tx_inv ?c outs" using co(1) by (auto simp: client_ok_def)
    then have tx: "tx_inv ?c' outs" by (simp add: tx_inv_def)
    let ?k = "sv \<lparr> k_open := removeAll (int i) (k_open sv), k_epoll := removeAll (int i) (k_epoll sv) \<rparr>"
    have k: "uds_inv ?k ts" using inv l pending_of_zero [OF p] by (auto simp: uds_inv_def task_ok_def)
    have "client_ok i ?c'" using tx by (auto simp: client_ok_def)
    then have u: "uds_inv (put_client ?k i ?c') ts" using replace_client_inv [OF k i] l p True by simp
    let ?sv = "(put_client ?k i ?c') \<lparr> sv_num_clients := sv_num_clients sv - 1 \<rparr>"
    have "uds_inv ?sv ts" using uds_inv_tasks [OF u, of ?sv] u by (simp add: uds_inv_def)
    moreover have "reap_one i sv = Some ?sv" using True co(3) inv_client(3) [OF assms] by (simp add: reap_one_def Let_def put_client_def)
    moreover have "queue_of ?sv x = queue_of sv x" for x by (cases x) (simp_all add: put_client_def)
    then have "same_queues sv ?sv" by (simp add: same_queues_def put_client_def)
    ultimately show ?thesis by blast
  qed
qed

text \<open>The sockets of all connections behave as readers and senders do.\<close>

locale sockets =
  fixes rd :: "int \<Rightarrow> 'r reader" and avail :: "int \<Rightarrow> 'r \<Rightarrow> bytes" and rwork :: "int \<Rightarrow> 'r \<Rightarrow> nat"
    and tx :: "int \<Rightarrow> (errno, 'w) sender" and again :: "errno \<Rightarrow> bool" and wire :: "int \<Rightarrow> 'w \<Rightarrow> bytes" and wwork :: "int \<Rightarrow> 'w \<Rightarrow> nat"
  assumes reads: "byte_reader (rd fd) (avail fd) (rwork fd)"
    and sends: "stream_sender (tx fd) again (wire fd) (wwork fd)"
    and apart: "tx fd w bs = (x, w') \<Longrightarrow> fd' \<noteq> fd \<Longrightarrow> wwork fd' w' = wwork fd' w"
begin

lemma count_sent_inv:
  assumes inv: "uds_inv sv ts" and j: "\<forall>j. sess = Some j \<longrightarrow> j < 256"
  shows "\<exists>x. count_sent sv sess = Some (sv \<lparr> sv_table := x \<rparr>) \<and> length (st_sessions x) = 256"
proof (cases sess)
  case None
  then show ?thesis using inv by (auto simp: count_sent_def uds_inv_def intro!: exI [of _ "sv_table sv"])
next
  case (Some n)
  then show ?thesis using inv j by (auto simp: count_sent_def uds_inv_def Let_def)
qed

lemma writable_inv:
  assumes inv: "uds_inv sv ts" and i: "i < 1024" and c: "c_connected (sv_clients sv ! i)" and k: "\<And>fd. wwork fd w < k"
  shows "\<exists>w' sv'. handle_client_writable k tx w sv i = Some (w', sv') \<and> uds_inv sv' ts \<and> same_queues sv sv'"
proof -
  let ?c = "sv_clients sv ! i"
  obtain outs where outs: "tx_inv ?c outs" using inv_client(2) [OF inv i] by blast
  note co = inv_client(1) [OF inv i]
  show ?thesis
  proof (cases outs)
    case Nil
    then have "c_send_count ?c = 0" using outs by (simp add: tx_inv_def)
    then show ?thesis using inv by (simp add: handle_client_writable_def Let_def)
  next
    case (Cons x xs)
    from stream_sender.send_message_chunk_result [OF sends k outs [unfolded Cons]] obtain r w' c' where
      s: "send_message_chunk k (tx (c_fd ?c)) w ?c = Some (r, w', c')" "same_read ?c c'"
        "stream_sender.chunk_done (wire (c_fd ?c)) w w' x xs r c'" by blast
    then obtain ys where r: "r = 1 \<or> r = 0 \<or> r = -1 \<and> ys \<noteq> []" "tx_inv c' ys"
      unfolding stream_sender.chunk_done_def [OF sends] by blast
    have n: "c_send_count ?c \<noteq> 0" using outs Cons by (simp add: tx_inv_def)
    have ok: "client_ok i c'" by (rule client_ok_same [OF co s(2) r(2)])
    have id: "c_connected c' = c_connected ?c" "c_generation c' = c_generation ?c" "c_pending_task c' = c_pending_task ?c" "c_session c' = c_session ?c"
      using s(2) by (simp_all add: same_read_def)
    from r(1) consider "r = -1" "ys \<noteq> []" | "r = 1" | "r = 0" by blast
    then show ?thesis
    proof cases
      case 1
      let ?d = "advance_send_queue (c' \<lparr> c_pending_close := True \<rparr>)"
      from 1 obtain y zs where ys: "ys = y # zs" by (cases ys) auto
      have "tx_inv (c' \<lparr> c_pending_close := True \<rparr>) (y # zs)" using r(2) ys by (simp add: tx_inv_def)
      then have "tx_inv ?d zs" by (rule tx_inv_advance)
      moreover have "client_ok i (c' \<lparr> c_pending_close := True \<rparr>)" using client_ok_close [OF ok] id(1) c by simp
      ultimately have "client_ok i ?d" using client_ok_same same_read_put(2) by blast
      then have "uds_inv (put_client sv i ?d) ts" using put_client_same [OF inv i, of ?d] id by (simp add: advance_send_queue_def)
      then show ?thesis using s(1) n 1(1) by (simp add: handle_client_writable_def Let_def)
    next
      case 2
      have "\<forall>j. c_session c' = Some j \<longrightarrow> j < 256" using co id(4) by (simp add: client_ok_def)
      from count_sent_inv [OF inv this] obtain t where t: "count_sent sv (c_session c') = Some (sv \<lparr> sv_table := t \<rparr>)" "length (st_sessions t) = 256" by blast
      let ?d = "c' \<lparr> c_packet_sent := c_packet_sent c' + 1 \<rparr>" and ?sv = "sv \<lparr> sv_table := t \<rparr>"
      have u: "uds_inv ?sv ts" using uds_inv_tasks [OF inv, of ?sv] t(2) by simp
      have "client_ok i ?d" using ok by (simp add: client_ok_def rx_inv_def stage_size_def tx_inv_def split: rx_stage.splits)
      then have "uds_inv (put_client ?sv i ?d) ts" using put_client_same [OF u i, of ?d] id by simp
      then show ?thesis using s(1) n 2 t(1) by (simp add: handle_client_writable_def Let_def)
    next
      case 3
      have "uds_inv (put_client sv i c') ts" using put_client_same [OF inv i ok] id by simp
      then show ?thesis using s(1) n 3 by (simp add: handle_client_writable_def Let_def)
    qed
  qed
qed

lemma io_event_inv:
  assumes inv: "uds_inv sv ts" and e: "ie_fd e \<in> set (k_epoll sv)" and a: "accepts_ok answers (k_open sv)" and k: "\<And>fd. wwork fd w < k"
  shows "\<exists>w' sv'. io_event_step k tx e answers (w, sv) = Some (w', sv') \<and> uds_inv sv' ts \<and> same_queues sv sv'"
proof (cases "ie_fd e = sv_listen_fd sv")
  case True
  then show ?thesis using uds_accept_inv [OF inv a] inv by (auto simp: io_event_step_def Let_def)
next
  case False
  let ?i = "nat (ie_fd e)" and ?c = "sv_clients sv ! nat (ie_fd e)"
  have fd: "0 \<le> ie_fd e" "ie_fd e < 1024" using inv e by (auto simp: uds_inv_def)
  then have i: "?i < 1024" by simp
  show ?thesis
  proof (cases "c_fd ?c = ie_fd e \<and> c_connected ?c")
    case no: False
    then show ?thesis using False fd inv inv_client(3) [OF inv i] by (auto simp: io_event_step_def Let_def)
  next
    case True
    let ?sv = "if ie_hup e then put_client sv ?i (?c \<lparr> c_pending_close := True \<rparr>) else sv"
    have "uds_inv (put_client sv ?i (?c \<lparr> c_pending_close := True \<rparr>)) ts"
      by (rule put_client_same [OF inv i]) (use client_ok_close [OF inv_client(1) [OF inv i]] True in simp_all)
    then have u: "uds_inv ?sv ts" "c_connected (sv_clients ?sv ! ?i)" "same_queues sv ?sv" using inv True inv_client(3) [OF inv i] by simp_all
    have eq: "io_event_step k tx e answers (w, sv) = (if ie_out e then handle_client_writable k tx w ?sv ?i else Some (w, ?sv))"
      using False fd True inv_client(3) [OF inv i] by (simp add: io_event_step_def Let_def)
    from writable_inv [OF u(1) i u(2) k] u(3) same_queues_trans have
      "\<exists>w' sv'. handle_client_writable k tx w ?sv ?i = Some (w', sv') \<and> uds_inv sv' ts \<and> same_queues sv sv'" by meson
    then show ?thesis using u(1,3) unfolding eq by (cases "ie_out e") auto
  qed
qed

text \<open>
  Reading from a connection. A whole frame adds a task to the outstanding ones; the read is undefined
  exactly when the frame is valid, has a priority that is none of the three, and the server is running.
\<close>

definition crash_frame :: "nat \<Rightarrow> int \<Rightarrow> 'r \<Rightarrow> server \<Rightarrow> bool" where
  "crash_frame k fd r sv =
     (\<not> sv_shutdown sv \<and> (\<exists>r' c. read_stage k (rd fd) r (sv_clients sv ! nat fd) = Some (1, r', c) \<and> priority_of (hdr_pri (c_message c)) = None))"

lemma frame_inv:
  assumes inv: "uds_inv sv (queued sv + mset busy)" "queues_ok sv" and fd: "fd \<in> set (k_open sv)" "c_connected (sv_clients sv ! nat fd)"
    and c: "client_ok (nat fd) c" "c_connected c = c_connected (sv_clients sv ! nat fd)" "c_generation c = c_generation (sv_clients sv ! nat fd)"
      "c_pending_task c = c_pending_task (sv_clients sv ! nat fd) + 1" "message_ok (c_message c)" "length_ok (c_message c)"
    and pri: "sv_shutdown sv \<or> priority_of (hdr_pri (c_message c)) \<noteq> None"
  shows "\<exists>sv'. handle_frame (put_client sv (nat fd) c) (nat fd) = Some sv' \<and> uds_inv sv' (queued sv' + mset busy) \<and> queues_ok sv'"
proof -
  let ?i = "nat fd" and ?ts = "queued sv + mset busy" and ?p = "priority_of (hdr_pri (c_message c))"
  have r: "0 \<le> fd" "fd < 1024" using inv(1) fd(1) by (auto simp: uds_inv_def)
  then have i: "?i < 1024" "int ?i = fd" by auto
  let ?t = "\<lparr> t_fd = fd, t_client_generation = c_generation c, t_connection_id = c_connection_id c, t_message = c_message c \<rparr>"
  let ?sv = "put_client sv ?i c"
  have t: "task_ok sv ?t" using r fd c by (simp add: task_ok_def)
  have full: "uds_inv ?sv (add_mset ?t ?ts)"
    by (rule put_client_inv [OF inv(1) i(1)])
      (use c t inv(1) i inv_client(4) [OF inv(1) i(1)] in \<open>auto simp: pending_add uds_inv_def\<close>)
  have cl: "sv_clients ?sv ! ?i = c" using inv_client(3) [OF inv(1) i(1)] by simp
  from try_enqueue_task_cases [of ?sv ?p ?t] inv(2) pri consider
      "try_enqueue_task ?sv ?p ?t = Some (False, ?sv)"
    | q x where "try_enqueue_task ?sv ?p ?t = Some (True, put_queue ?sv q x)" "queues_ok (put_queue ?sv q x)"
        "queued (put_queue ?sv q x) = add_mset ?t (queued ?sv)" by fastforce
  then show ?thesis
  proof cases
    case 1
    let ?d = "c \<lparr> c_pending_task := c_pending_task c - 1 \<rparr>"
    have "uds_inv (put_client sv ?i ?d) ?ts"
      by (rule put_client_same [OF inv(1) i(1)]) (use c in \<open>simp_all add: client_ok_pending\<close>)
    from reply_effect [OF this i(1), of "ascii ''SERVER BUSY''" NACK "hdr_number_packet (c_message c)"] obtain sv' where
      s: "reply_client (put_client sv ?i ?d) ?i (ascii ''SERVER BUSY'') NACK (hdr_number_packet (c_message c)) = Some sv'"
        "uds_inv sv' ?ts" "same_queues (put_client sv ?i ?d) sv'" unfolding task_effect_def by blast
    have "queued sv' = queued sv" "queues_ok sv'" using same_queues_queued [OF s(3)] inv(2) by simp_all
    moreover have "handle_frame ?sv ?i = Some sv'" using 1 cl c(4) i(2) s(1) by (simp add: handle_frame_def Let_def)
    ultimately show ?thesis using s(2) by simp
  next
    case 2
    have "uds_inv (put_queue ?sv q x) (add_mset ?t ?ts)"
      by (rule uds_inv_tasks [OF full]) (use inv(1) in \<open>simp_all add: uds_inv_def\<close>)
    moreover have "handle_frame ?sv ?i = Some (put_queue ?sv q x)" using 2(1) cl i(2) by (simp add: handle_frame_def Let_def)
    ultimately show ?thesis using 2(2,3) by simp
  qed
qed

lemma readable_inv:
  assumes inv: "uds_inv sv (queued sv + mset busy)" "queues_ok sv" and fd: "fd \<in> set (k_epoll sv)" and k: "\<And>fd. rwork fd r < k"
  shows "(\<exists>r' sv'. readable_event k rd fd epollin (r, sv) = Some (r', sv') \<and> uds_inv sv' (queued sv' + mset busy) \<and> queues_ok sv') \<or>
    readable_event k rd fd epollin (r, sv) = None \<and> crash_frame k fd r sv"
proof -
  let ?i = "nat fd" and ?c = "sv_clients sv ! nat fd" and ?ts = "queued sv + mset busy"
  have op: "fd \<in> set (k_open sv)" and r0: "0 \<le> fd" "fd < 1024" using inv(1) fd by (auto simp: uds_inv_def)
  then have i: "?i < 1024" "int ?i = fd" by auto
  show ?thesis
  proof (cases "c_connected ?c \<and> c_fd ?c = fd \<and> epollin")
    case False
    then show ?thesis using inv r0 inv_client(3) [OF inv(1) i(1)] by (auto simp: readable_event_def Let_def)
  next
    case True
    have co: "client_ok ?i ?c" by (rule inv_client(1) [OF inv(1) i(1)])
    then have "rx_inv ?c" using True by (simp add: client_ok_def)
    from byte_reader.read_stage_result [OF reads k this] obtain ret r' c' got where
      s: "read_stage k (rd fd) r ?c = Some (ret, r', c')" "read_result ?c got ret c'" by blast
    have id: "c_connected c' = c_connected ?c" "c_generation c' = c_generation ?c" "rx_inv c'" "same_conn ?c c'"
      using s(2) by (simp_all add: read_result_def same_conn_def)
    obtain outs where "tx_inv ?c outs" using co by (auto simp: client_ok_def)
    then have outs: "tx_inv c' outs" using id(4) by (simp add: tx_inv_def same_conn_def)
    have ok: "client_ok ?i c'" using co outs id True by (auto simp: client_ok_def same_conn_def)
    let ?sv = "put_client sv ?i c'"
    have eq: "readable_event k rd fd epollin (r, sv) =
        (if ret = 2 then do { (ret, c) \<leftarrow> queue_client c' (snd (build_nack (hdr_number_packet (c_message c')) zero_message)); Some (r', put_client sv ?i c) }
         else if ret = 1 then do { sv \<leftarrow> handle_frame ?sv ?i; Some (r', sv) } else Some (r', ?sv))"
      using True r0 s(1) inv_client(3) [OF inv(1) i(1)] by (simp add: readable_event_def Let_def)
    show ?thesis
    proof (cases "ret = 1")
      case one: True
      then have f: "c_pending_task c' = c_pending_task ?c + 1" "message_ok (c_message c')" "length_ok (c_message c')"
        using s(2) id(3) by (auto simp: read_result_def rx_inv_def)
      show ?thesis
      proof (cases "sv_shutdown sv \<or> priority_of (hdr_pri (c_message c')) \<noteq> None")
        case fine: True
        from frame_inv [OF inv op _ ok id(1,2) f fine] True eq one show ?thesis by fastforce
      next
        case False
        then have "handle_frame ?sv ?i = None"
          using inv_client(3) [OF inv(1) i(1)] by (simp add: handle_frame_def try_enqueue_task_def Let_def)
        then show ?thesis using eq one s(1) False by (auto simp: crash_frame_def)
      qed
    next
      case False
      then have same: "c_pending_task c' = c_pending_task ?c" using s(2) by (auto simp: read_result_def)
      have u: "uds_inv ?sv ?ts" using put_client_same [OF inv(1) i(1) ok id(1,2) same] .
      have cl: "sv_clients ?sv ! ?i = c'" using inv_client(3) [OF inv(1) i(1)] by simp
      show ?thesis
      proof (cases "ret = 2")
        case True
        have "built (ascii ''NACK'') NACK LOW (hdr_number_packet (c_message c')) (snd (build_nack (hdr_number_packet (c_message c')) zero_message))"
          using build_message_built by (simp add: build_nack_def)
        from queue_reply [OF u i(1) _ this, of outs] outs cl obtain d where
          "queue_client c' (snd (build_nack (hdr_number_packet (c_message c')) zero_message)) = Some (0, d)" "uds_inv (put_client ?sv ?i d) ?ts" by auto
        then show ?thesis using eq True inv(2) by simp
      next
        case no: False
        then show ?thesis using eq False u inv(2) by simp
      qed
    qed
  qed
qed

end

end
