(* ===== verification/Control_Plane.thy ===== *)
theory Control_Plane
  imports Uds_Invariant
begin

text \<open>
  The threads of the control-plane server together: the I/O thread, the workers and the signal thread
  of \<open>unix-domain-socket-control-plane/gatewayd/server.c\<close>. A step is one event of the I/O thread's two
  loops, one slot of \<open>reap_closed_clients\<close>, a worker taking or finishing a task, a signal, or the peers.
\<close>

section \<open>The system\<close>

record ('r, 'w) plane =
  p_in :: 'r
  p_out :: 'w
  p_sv :: server
  p_busy :: "task list"

inductive plane_step ::
  "(int \<Rightarrow> 'r reader) \<Rightarrow> (int \<Rightarrow> 'r \<Rightarrow> nat) \<Rightarrow> (int \<Rightarrow> (errno, 'w) sender) \<Rightarrow> (int \<Rightarrow> 'w \<Rightarrow> nat) \<Rightarrow> ('r, 'w) plane \<Rightarrow> ('r, 'w) plane \<Rightarrow> bool"
  for rd rwork tx wwork where
  event: "ie_fd e \<in> set (k_epoll (p_sv p)) \<Longrightarrow> accepts_ok answers (k_open (p_sv p)) \<Longrightarrow> \<forall>fd. wwork fd (p_out p) < k \<Longrightarrow>
    io_event_step k tx e answers (p_out p, p_sv p) = Some (w, sv) \<Longrightarrow> plane_step rd rwork tx wwork p (p \<lparr> p_out := w, p_sv := sv \<rparr>)"
| readable: "fd \<in> set (k_epoll (p_sv p)) \<Longrightarrow> \<forall>fd. rwork fd (p_in p) < k \<Longrightarrow>
    readable_event k rd fd epollin (p_in p, p_sv p) = Some (r, sv) \<Longrightarrow> plane_step rd rwork tx wwork p (p \<lparr> p_in := r, p_sv := sv \<rparr>)"
| reap: "i < FD_SETSIZE \<Longrightarrow> reap_one i (p_sv p) = Some sv \<Longrightarrow> plane_step rd rwork tx wwork p (p \<lparr> p_sv := sv \<rparr>)"
| take_task: "high_pri_worker (p_sv p) = Some (Takes t, sv) \<or> mid_pri_worker (p_sv p) = Some (Takes t, sv) \<or>
      low_pri_worker (p_sv p) = Some (Takes t, sv) \<Longrightarrow> plane_step rd rwork tx wwork p (p \<lparr> p_sv := sv, p_busy := t # p_busy p \<rparr>)"
| process: "t \<in> set (p_busy p) \<Longrightarrow> process_task now now' (p_sv p) t = Some sv \<Longrightarrow>
    plane_step rd rwork tx wwork p (p \<lparr> p_sv := sv, p_busy := remove1 t (p_busy p) \<rparr>)"
| signal: "sig_thread k tx xs (p_out p) (p_sv p) = Some (ended, w, sv) \<Longrightarrow> plane_step rd rwork tx wwork p (p \<lparr> p_out := w, p_sv := sv \<rparr>)"
| peers: "plane_step rd rwork tx wwork p (p \<lparr> p_in := r, p_out := w \<rparr>)"

inductive plane_reach ::
  "(int \<Rightarrow> 'r reader) \<Rightarrow> (int \<Rightarrow> 'r \<Rightarrow> nat) \<Rightarrow> (int \<Rightarrow> (errno, 'w) sender) \<Rightarrow> (int \<Rightarrow> 'w \<Rightarrow> nat) \<Rightarrow> ('r, 'w) plane \<Rightarrow> bool"
  for rd rwork tx wwork where
  start: "0 \<le> fd \<Longrightarrow> fd < int FD_SETSIZE \<Longrightarrow> plane_reach rd rwork tx wwork \<lparr> p_in = r, p_out = w, p_sv = init_server fd, p_busy = [] \<rparr>"
| step: "plane_reach rd rwork tx wwork p \<Longrightarrow> plane_step rd rwork tx wwork p p' \<Longrightarrow> plane_reach rd rwork tx wwork p'"

definition outstanding :: "('r, 'w) plane \<Rightarrow> task multiset" where
  "outstanding p = queued (p_sv p) + mset (p_busy p)"

definition plane_inv :: "('r, 'w) plane \<Rightarrow> bool" where
  "plane_inv p = (uds_inv (p_sv p) (outstanding p) \<and> queues_ok (p_sv p))"

section \<open>The invariant\<close>

lemma queue_of_init: "queue_of (init_server fd) q = init_message_queue"
  by (cases q) (simp_all add: init_server_def)

lemma start_plane_inv:
  assumes "0 \<le> fd" and "fd < 1024"
  shows "plane_inv \<lparr> p_in = r, p_out = w, p_sv = init_server fd, p_busy = [] \<rparr>"
proof -
  have e: "mq_list init_message_queue = []" using mq_holds_list [OF init_queue_holds] .
  then have q: "queues_ok (init_server fd)" "queued (init_server fd) = {#}"
    using init_queue_holds queue_of_init [of fd HIGH] queue_of_init [of fd MEDIUM] queue_of_init [of fd LOW]
    by (simp_all add: queues_ok_def queue_of_init queued_def)
  have "uds_inv (init_server fd) {#}" using assms client_ok_zero
    by (simp add: uds_inv_def init_server_def init_session_table_def server_consts pending_of_def)
      (simp add: zero_client_def nth_replicate nat_less_iff)
  with q show ?thesis by (simp add: plane_inv_def outstanding_def)
qed

lemma plane_inv_same:
  assumes "queues_ok (p_sv p)" "uds_inv sv (outstanding p)" "same_queues (p_sv p) sv"
  shows "plane_inv (p \<lparr> p_sv := sv \<rparr>)"
  using assms same_queues_queued [OF assms(3)] by (simp add: plane_inv_def outstanding_def)

lemma plane_inv_streams [simp]: "plane_inv (p \<lparr> p_in := r \<rparr>) = plane_inv p" "plane_inv (p \<lparr> p_out := w \<rparr>) = plane_inv p"
  "plane_inv (p \<lparr> p_out := w, p_sv := sv \<rparr>) = plane_inv (p \<lparr> p_sv := sv \<rparr>)"
  by (simp_all add: plane_inv_def outstanding_def)

lemma worker_takes:
  assumes inv: "plane_inv p" and t: "worker_round served (p_sv p) = Some (Takes t, sv)"
  shows "plane_inv (p \<lparr> p_sv := sv, p_busy := t # p_busy p \<rparr>)"
proof -
  have q: "queues_ok (p_sv p)" and u: "uds_inv (p_sv p) (outstanding p)" using inv by (simp_all add: plane_inv_def)
  have "dequeue_in_order served (p_sv p) = Some (Takes t, sv)" using t by (auto simp: worker_round_def split: if_splits)
  with dequeue_in_order_cases [OF q, of served] obtain x y where
    s: "sv = put_queue (p_sv p) x y" "queues_ok sv" "queued (p_sv p) = add_mset t (queued sv)" by auto
  have "uds_inv sv (outstanding p)" by (rule uds_inv_tasks [OF u]) (use u in \<open>simp_all add: s(1) uds_inv_def\<close>)
  then show ?thesis using s(2,3) by (simp add: plane_inv_def outstanding_def)
qed

lemma worker_round_defined: "queues_ok sv \<Longrightarrow> worker_round served sv \<noteq> None"
  using dequeue_in_order_cases [of sv served] by (auto simp: worker_round_def)

lemma sig_thread_server: "sig_thread k tx xs w sv = Some (ended, w', sv') \<Longrightarrow> sv' = sv \<or> sv' = sv \<lparr> sv_shutdown := True \<rparr>"
proof (induction k tx xs w sv rule: sig_thread.induct)
  case (3 k tx sig_num xs w sv)
  then show ?case by (auto split: if_splits bind_splits)
qed simp_all

lemma shutdown_inv: "plane_inv p \<Longrightarrow> plane_inv (p \<lparr> p_sv := (p_sv p) \<lparr> sv_shutdown := True \<rparr> \<rparr>)"
proof -
  assume a: "plane_inv p"
  let ?sv = "(p_sv p) \<lparr> sv_shutdown := True \<rparr>"
  have q: "queue_of ?sv x = queue_of (p_sv p) x" for x by (cases x) simp_all
  have "queues_ok ?sv" "queued ?sv = queued (p_sv p)" using a by (simp_all add: queues_ok_def q plane_inv_def queued_def)
  moreover have "uds_inv ?sv (outstanding p)" using a by (simp add: plane_inv_def uds_inv_def task_ok_def)
  ultimately show ?thesis by (simp add: plane_inv_def outstanding_def)
qed

text \<open>Sending to one socket only concerns that socket.\<close>

lemma send_all_keeps:
  assumes "\<And>w bs x w'. tx w bs = (x, w') \<Longrightarrow> f w' = f w" and "send_all k tx on_err w data len sent = Some (r, w')"
  shows "f w' = f w"
  using assms(2)
proof (induction k arbitrary: w sent)
  case (Suc k)
  show ?case
  proof (cases "sent < len")
    case True
    with Suc.prems obtain bs where p: "peek sent (len - sent) data = Some bs" by (auto split: bind_splits)
    obtain x w1 where x: "tx w bs = (x, w1)" by fastforce
    have e: "f w1 = f w" by (rule assms(1) [OF x])
    have "w' = w1 \<or> (\<exists>i. send_all k tx on_err w1 data len i = Some (r, w'))"
      using Suc.prems True p x by (cases x) (auto split: option.splits if_splits)
    then show ?thesis using Suc.IH e by metis
  next
    case False
    then show ?thesis using Suc.prems by simp
  qed
qed simp

context sockets
begin

lemma send_framed_defined:
  assumes m: "message_ok m" "length_ok m" and k: "\<forall>fd. wwork fd w < k"
  shows "\<exists>r w'. send_framed_message k (tx fd) w m = Some (r, w') \<and> (\<forall>fd. wwork fd w' < k)"
proof -
  let ?on = "\<lambda>e sent :: nat. if e = EINTR then None else Some (- 1 :: int)" and ?n = "24 + nat (hdr_length m) + 4"
  have l: "\<not> hdr_length m < 0" "\<not> hdr_length m > 2048" using m(2) by (simp_all add: length_ok_def frame_consts)
  have p: "peek 0 (nat (hdr_length m)) (mc_message m) = Some (payload_part m)"
    using m l by (auto simp: peek_def payload_part_def message_ok_def frame_consts min_def)
  have n: "?n \<le> length (frame m)" using frame_length [OF m] by simp
  have bs: "byte_sender (tx fd) again (wire fd) (wwork fd)" using sends stream_sender.axioms(1) by blast
  have ag: "\<And>e i. ?on e i = None \<Longrightarrow> again e" using stream_sender.again_EINTR [OF sends] by (auto split: if_splits)
  have kk: "wwork fd w < k" using k by blast
  note sent = byte_sender.send_all_returns [where on_err = ?on, OF bs kk n le0]
  obtain r w' where r: "send_all k (tx fd) ?on w (frame m) ?n 0 = Some (r, w')" "wwork fd w' \<le> wwork fd w"
    by (rule exE [OF sent [OF ag]], assumption, elim exE conjE) (rule that)
  have "wwork fd' w' < k" for fd'
  proof (cases "fd' = fd")
    case True
    then show ?thesis using r(2) k le_less_trans by blast
  next
    case False
    then have "\<And>w bs x w'. tx fd w bs = (x, w') \<Longrightarrow> wwork fd' w' = wwork fd' w" using apart by blast
    from send_all_keeps [of "tx fd" "wwork fd'", OF this r(1)] k show ?thesis by simp
  qed
  moreover have "send_framed_message k (tx fd) w m = Some (if r = int ?n then 0 else r, w')"
    using r(1) p l by (simp add: send_framed_message_def frame_def frame_consts)
  ultimately show ?thesis by blast
qed

lemma notify_defined:
  assumes "\<forall>fd. wwork fd w < k" and "set is \<subseteq> {..<length (sv_clients sv)}"
  shows "notify_clients k tx is w sv \<noteq> None"
  using assms
proof (induction "is" arbitrary: w)
  case (Cons i "is")
  let ?m = "snd (build_message (Some (ascii ''server shutting down'')) SHUTDOWN_PEER HIGH zero_message 0)"
  have "message_ok ?m" "length_ok ?m" using built_ok build_message_built by blast+
  from send_framed_defined [OF this Cons.prems(1), of "c_fd (sv_clients sv ! i)"] obtain r w' where
    "send_framed_message k (tx (c_fd (sv_clients sv ! i))) w ?m = Some (r, w')" "\<forall>fd. wwork fd w' < k" by blast
  then show ?case using Cons by (cases "c_fd (sv_clients sv ! i) = int i") (simp_all add: Let_def)
qed simp

lemma sig_thread_defined:
  "\<forall>fd. wwork fd w < k \<Longrightarrow> length (sv_clients sv) = 1024 \<Longrightarrow> sig_thread k tx xs w sv \<noteq> None"
proof (induction xs)
  case (Cons x xs)
  have "notify_clients k tx [0..<FD_SETSIZE] w sv \<noteq> None" using notify_defined [OF Cons.prems(1), of "[0..<FD_SETSIZE]" sv] Cons.prems(2)
    by (simp add: FD_SETSIZE_def atLeast0LessThan)
  with Cons show ?case by (cases x) auto
qed simp

lemma step_plane_inv:
  assumes "plane_step rd rwork tx wwork p p'" and inv: "plane_inv p"
  shows "plane_inv p'"
  using assms(1)
proof cases
  case (event e answers k w sv)
  have q: "queues_ok (p_sv p)" and u: "uds_inv (p_sv p) (outstanding p)" using inv by (simp_all add: plane_inv_def)
  have kk: "\<And>fd. wwork fd (p_out p) < k" using event(4) by blast
  from io_event_inv [OF u event(2,3) kk] event(5) have "uds_inv sv (outstanding p)" "same_queues (p_sv p) sv" by auto
  from plane_inv_same [OF q this] show ?thesis using event(1) by simp
next
  case (readable fd k epollin r sv)
  have q: "queues_ok (p_sv p)" and u: "uds_inv (p_sv p) (queued (p_sv p) + mset (p_busy p))"
    using inv by (simp_all add: plane_inv_def outstanding_def)
  have kk: "\<And>fd. rwork fd (p_in p) < k" using readable(3) by blast
  from readable_inv [OF u q readable(2) kk, of epollin] readable(4) have "uds_inv sv (queued sv + mset (p_busy p))" "queues_ok sv" by auto
  then show ?thesis using readable(1) by (simp add: plane_inv_def outstanding_def)
next
  case (reap i sv)
  have q: "queues_ok (p_sv p)" and u: "uds_inv (p_sv p) (outstanding p)" using inv by (simp_all add: plane_inv_def)
  from reap_one_inv [OF u, of i] reap have "uds_inv sv (outstanding p)" "same_queues (p_sv p) sv" by (auto simp: FD_SETSIZE_def)
  from plane_inv_same [OF q this] show ?thesis using reap(1) by simp
next
  case (take_task t sv)
  then show ?thesis using worker_takes [OF inv] by (auto simp: high_pri_worker_def mid_pri_worker_def low_pri_worker_def)
next
  case (process t now now' sv)
  have q: "queues_ok (p_sv p)" and u: "uds_inv (p_sv p) (outstanding p)" using inv by (simp_all add: plane_inv_def)
  have t: "t \<in># outstanding p" using process(2) by (simp add: outstanding_def)
  from process_task_inv [OF u t, of now now'] process(3) have s: "uds_inv sv (outstanding p - {#t#})" "same_queues (p_sv p) sv" by auto
  have "outstanding p - {#t#} = queued (p_sv p) + mset (remove1 t (p_busy p))"
    using process(2) by (simp add: outstanding_def)
  then show ?thesis using s same_queues_queued [OF s(2)] q process(1) by (simp add: plane_inv_def outstanding_def)
next
  case (signal k xs ended w sv)
  from sig_thread_server [OF signal(2)] shutdown_inv [OF inv] inv have "plane_inv (p \<lparr> p_sv := sv \<rparr>)" by auto
  then show ?thesis using signal(1) by simp
next
  case (peers r w)
  then show ?thesis using inv by simp
qed

lemma reach_plane_inv: "plane_reach rd rwork tx wwork p \<Longrightarrow> plane_inv p"
proof (induction rule: plane_reach.induct)
  case (start fd r w)
  then show ?case using start_plane_inv by (simp add: FD_SETSIZE_def)
next
  case (step p p')
  then show ?case using step_plane_inv by blast
qed

end

section \<open>Sockets of the kernel\<close>

definition unix_recv :: "int \<Rightarrow> (int \<Rightarrow> arrival list) reader" where
  "unix_recv fd r n = (case sock_recv (r fd) n of (x, s) \<Rightarrow> (x, r(fd := s)))"

definition unix_send :: "int \<Rightarrow> (errno, int \<Rightarrow> errno tx_sock) sender" where
  "unix_send fd w bs = (case sock_send EAGAIN (w fd) bs of (x, s) \<Rightarrow> (x, w(fd := s)))"

definition rx_work :: "int \<Rightarrow> (int \<Rightarrow> arrival list) \<Rightarrow> nat" where "rx_work fd r = sock_work (r fd)"
definition tx_work :: "int \<Rightarrow> (int \<Rightarrow> errno tx_sock) \<Rightarrow> nat" where "tx_work fd w = length (tx_plan (w fd))"

interpretation unix: sockets unix_recv "\<lambda>fd r. sock_avail (r fd)" rx_work unix_send "\<lambda>e. e \<noteq> EAGAIN" "\<lambda>fd w. tx_wire (w fd)" tx_work
proof (rule sockets.intro)
  fix fd
  have r: "unix_recv fd w n = (x, w') \<longleftrightarrow> (\<exists>s. sock_recv (w fd) n = (x, s) \<and> w' = w(fd := s))" for w n x w'
    by (auto simp: unix_recv_def split: prod.splits)
  show "byte_reader (unix_recv fd) (\<lambda>r. sock_avail (r fd)) (rx_work fd)"
  proof (unfold_locales, goal_cases)
    case (4 w n e w')
    then show ?case using sock_recv_keep [of "w fd" n e] by (auto simp: r)
  next
    case (5 w n)
    then show ?case using sock_recv_ready [of "w fd" n] by (auto simp: r)
  qed (auto simp: r rx_work_def dest: sock_recv_data sock_recv_progress sock_recv_interrupt)
  have t: "unix_send fd w bs = (x, w') \<longleftrightarrow> (\<exists>s. sock_send EAGAIN (w fd) bs = (x, s) \<and> w' = w(fd := s))" for w bs x w'
    by (auto simp: unix_send_def simp del: sock_send.simps split: prod.splits)
  show "stream_sender (unix_send fd) (\<lambda>e. e \<noteq> EAGAIN) (\<lambda>w. tx_wire (w fd)) (tx_work fd)"
    by unfold_locales (auto simp: t tx_work_def simp del: sock_send.simps dest: sock_send_sent sock_send_error)
  show "tx_work fd' w' = tx_work fd' w" if "unix_send fd w bs = (x, w')" "fd' \<noteq> fd" for w w' bs x fd'
    using that by (auto simp: t tx_work_def)
qed

section \<open>A frame that stops the server\<close>

lemma store_stage_same: "store_stage c bs = Some c' \<Longrightarrow> same_conn c c'"
  by (auto simp: store_stage_def Let_def same_conn_def split: bind_splits)

lemma finish_frame_same: "finish_frame c = (r, c') \<Longrightarrow> same_conn c c'"
  by (auto simp: finish_frame_def Let_def same_conn_def split: if_splits)

lemma read_stage_same: "read_stage k rd w c = Some (r, w', c') \<Longrightarrow> same_conn c c'"
proof (induction k arbitrary: w c)
  case (Suc k)
  obtain x w1 where x: "rd w (stage_size c - c_bytes_read c) = (x, w1)" by fastforce
  show ?case
  proof (cases "c_pending_close c")
    case True
    then show ?thesis using Suc.prems by (simp add: read_stage.simps(2))
  next
    case op: False
    show ?thesis
    proof (cases x)
      case (RxData bs)
      with Suc.prems op x obtain c1 where c1: "store_stage c bs = Some c1" by (auto simp: read_stage.simps(2) split: bind_splits)
      note s = store_stage_same [OF c1]
      have go: "same_conn c c'" if "read_stage k rd w1 (c1 \<lparr> c_bytes_read := i, c_stage := st \<rparr>) = Some (r, w', c')" for i st
        using same_conn_trans [OF _ Suc.IH [OF that], of c] s by simp
      show ?thesis using Suc.prems op x RxData c1 s go same_conn_trans [OF s finish_frame_same]
        by (auto simp: read_stage.simps(2) Let_def split: if_splits rx_stage.splits prod.splits)
    next
      case RxEof
      then show ?thesis using Suc.prems op x by (auto simp: read_stage.simps(2))
    next
      case (RxErr e)
      then show ?thesis using Suc op x by (cases e) (auto simp: read_stage.simps(2))
    qed
  qed
qed simp

lemma readable_calls_crash:
  assumes "read_calls j k (rd fd) r (sv_clients sv ! nat fd) = Some (1, r', c')" "priority_of (hdr_pri (c_message c')) = None"
    and "0 \<le> fd" "nat fd < length (sv_clients sv)" "c_connected (sv_clients sv ! nat fd)" "c_fd (sv_clients sv ! nat fd) = fd" "\<not> sv_shutdown sv"
  shows "handle_client_readable k rd (replicate j (fd, True)) (r, sv) = None"
  using assms
proof (induction j arbitrary: r sv)
  case (Suc j)
  let ?c = "sv_clients sv ! nat fd"
  from Suc.prems(1) obtain ret r1 c1 where s: "read_stage k (rd fd) r ?c = Some (ret, r1, c1)" by (auto split: bind_splits)
  have same: "c_connected c1" "c_fd c1 = fd" using read_stage_same [OF s] Suc.prems(5,6) by (simp_all add: same_conn_def)
  let ?sv = "put_client sv (nat fd) c1"
  have e: "readable_event k rd fd True (r, sv) =
      (if ret = 2 then do { (ret, c) \<leftarrow> queue_client c1 (snd (build_nack (hdr_number_packet (c_message c1)) zero_message)); Some (r1, put_client sv (nat fd) c) }
       else if ret = 1 then do { sv \<leftarrow> handle_frame ?sv (nat fd); Some (r1, sv) } else Some (r1, ?sv))"
    using Suc.prems(3-6) s by (simp add: readable_event_def Let_def)
  show ?case
  proof (cases "ret = 0")
    case True
    then have "read_calls j k (rd fd) r1 (sv_clients ?sv ! nat fd) = Some (1, r', c')" using Suc.prems(1,4) s by simp
    from Suc.IH [OF this Suc.prems(2,3)] Suc.prems(4,7) same True e show ?thesis by simp
  next
    case False
    then have "ret = 1" "c1 = c'" using Suc.prems(1) s by simp_all
    moreover have "handle_frame ?sv (nat fd) = None"
      using Suc.prems(2,4,7) \<open>c1 = c'\<close> by (simp add: handle_frame_def try_enqueue_task_def Let_def)
    ultimately show ?thesis using e by simp
  qed
qed simp

section \<open>Properties\<close>

text \<open>
  C11. In every reachable state of the control-plane server, \<open>pending_task\<close> of a connection is the number
  of its requests that are queued or with a worker, and each of these requests belongs to an open, connected
  connection of the generation recorded in it: a worker never answers to a reused slot. The three queues hold their tasks in order.
\<close>

theorem control_plane_invariant:
  assumes "plane_reach unix_recv rx_work unix_send tx_work p"
  shows "(\<forall>i < FD_SETSIZE. c_pending_task (sv_clients (p_sv p) ! i) = pending_of i (outstanding p)) \<and>
    (\<forall>t. t \<in># outstanding p \<longrightarrow> 0 \<le> t_fd t \<and> t_fd t < int FD_SETSIZE \<and> t_fd t \<in> set (k_open (p_sv p)) \<and>
       c_connected (sv_clients (p_sv p) ! nat (t_fd t)) \<and> c_fd (sv_clients (p_sv p) ! nat (t_fd t)) = t_fd t \<and>
       c_generation (sv_clients (p_sv p) ! nat (t_fd t)) = t_client_generation t) \<and>
    (\<forall>q. mq_holds (queue_of (p_sv p) q) (mq_list (queue_of (p_sv p) q)))"
proof -
  have inv: "uds_inv (p_sv p) (outstanding p)" "queues_ok (p_sv p)"
    using unix.reach_plane_inv [OF assms] by (simp_all add: plane_inv_def)
  have "c_fd (sv_clients (p_sv p) ! nat (t_fd t)) = t_fd t" if "task_ok (p_sv p) t" for t
    using inv_client(1) [OF inv(1), of "nat (t_fd t)"] that by (auto simp: task_ok_def client_ok_def)
  with inv show ?thesis by (auto simp: uds_inv_def queues_ok_def task_ok_def FD_SETSIZE_def)
qed


text \<open>
  C13. A peer can stop the server: a well-formed frame with a correct checksum whose priority field is none of
  the three enumerators leaves \<open>q\<close> NULL in \<open>handle_client_readable\<close>, which \<open>try_enqueue_task\<close> dereferences. Once the frame is in
  the socket, handling the connection's events is undefined.
\<close>

theorem bad_priority_crashes:
  assumes "plane_reach unix_recv rx_work unix_send tx_work p" and "\<not> sv_shutdown (p_sv p)"
    and "c = sv_clients (p_sv p) ! nat fd" and "fd \<in> set (k_epoll (p_sv p))" and "c_connected c" and "\<not> c_pending_close c"
    and "c_stage c = READ_HEADER" and "c_bytes_read c = 0"
    and "sock_avail (p_in p fd) = frame m @ rest" and "sock_work (p_in p fd) < k"
    and "message_ok m" and "length_ok m" and "checksum m = calculate_checksum m" and "priority_of (hdr_pri m) = None"
  shows "handle_client_readable k unix_recv (replicate (Suc (length (frame m @ rest))) (fd, True)) (p_in p, p_sv p) = None"
proof -
  have inv: "uds_inv (p_sv p) (outstanding p)" using unix.reach_plane_inv [OF assms(1)] by (simp add: plane_inv_def)
  then have "fd \<in> {0..<1024}" using assms(4) unfolding uds_inv_def by blast
  then have fd: "0 \<le> fd" "nat fd < 1024" "nat fd < length (sv_clients (p_sv p))" using inv by (auto simp: uds_inv_def)
  have co: "rx_inv c" "c_fd c = fd" using inv_client(1) [OF inv fd(2)] assms(3,5) fd(1) by (auto simp: client_ok_def)
  have rx: "rx_bytes c @ sock_avail (p_in p fd) = frame m @ rest" using fresh_rx [OF co(1) assms(6-8)] assms(9) by simp
  have w: "rx_work fd (p_in p) < k" "length (sock_avail (p_in p fd)) < Suc (length (frame m @ rest))" using assms(9,10) by (simp_all add: rx_work_def)
  from byte_reader.read_calls_frame [where w = "p_in p", OF unix.reads [of fd] w(1) co(1) assms(6) rx assms(11,12) w(2)] assms(13) obtain r' c' where
    r: "read_calls (Suc (length (frame m @ rest))) k (unix_recv fd) (p_in p) c = Some (1, r', c')" "mc_header (c_message c') = mc_header m" by auto
  have "priority_of (hdr_pri (c_message c')) = None" using assms(14) r(2) by (simp add: hdr_pri_def)
  from readable_calls_crash [where rd = unix_recv and fd = fd, OF r(1) [unfolded assms(3)] this fd(1,3)] assms(2,3,5) co(2) show ?thesis by simp
qed

text \<open>
  C14. A worker that processes an outstanding request with one of the answering commands puts exactly one message into the send
  queue of the connection the request came from: the reply of that command with the packet number of the request (when 16 messages
  wait, the oldest gives way).
\<close>

theorem process_task_replies:
  assumes "plane_reach unix_recv rx_work unix_send tx_work p" and "t \<in> set (p_busy p)"
    and "command_of (hdr_cmd (t_message t)) = Some cmd" and "task_reply cmd = Some s"
    and "tx_inv (sv_clients (p_sv p) ! nat (t_fd t)) outs"
  shows "\<exists>sv x. process_task now now' (p_sv p) t = Some sv \<and>
    tx_inv (sv_clients sv ! nat (t_fd t)) ((if length outs = 16 then tl outs else outs) @ [x]) \<and>
    built (ascii s) ACK LOW (hdr_number_packet (t_message t)) (o_msg x)"
proof -
  let ?sv = "p_sv p" and ?i = "nat (t_fd t)"
  have inv: "uds_inv ?sv (outstanding p)" using unix.reach_plane_inv [OF assms(1)] by (simp add: plane_inv_def)
  have t: "t \<in># outstanding p" using assms(2) by (simp add: outstanding_def)
  then have ok: "task_ok ?sv t" using inv by (simp add: uds_inv_def)
  then have i: "?i < 1024" "int ?i = t_fd t" by (auto simp: task_ok_def)
  have c: "c_connected (sv_clients ?sv ! ?i)" "c_generation (sv_clients ?sv ! ?i) = t_client_generation t" "c_fd (sv_clients ?sv ! ?i) = t_fd t"
    using ok inv_client(1) [OF inv i(1)] i(2) by (auto simp: task_ok_def client_ok_def)
  from reply_client_inv [OF inv i(1) assms(5), of "ascii s" ACK "hdr_number_packet (t_message t)"] obtain c' x where
    r: "reply_client ?sv ?i (ascii s) ACK (hdr_number_packet (t_message t)) = Some (put_client ?sv ?i c')" "tx_inv c' (kept_outs outs @ [x])"
      "built (ascii s) ACK LOW (hdr_number_packet (t_message t)) (o_msg x)" "uds_inv (put_client ?sv ?i c') (outstanding p)" by blast
  have "cmd \<noteq> IDENTIFY" "cmd \<noteq> SHUTDOWN_PEER" using assms(4) by auto
  then have run: "run_command ?sv ?i (t_message t) now = Some (put_client ?sv ?i c')" using assms(3,4) r(1) by (simp add: run_command_def)
  let ?s1 = "put_client ?sv ?i c'"
  have l: "?i < length (sv_clients ?sv)" by (rule inv_client(3) [OF inv i(1)])
  from count_received_effect [OF r(4) i(1), of now'] obtain s2 where
    s2: "count_received ?s1 (c_session (sv_clients ?s1 ! ?i)) now' = Some s2" "uds_inv s2 (outstanding p)" by (auto simp: task_effect_def)
  then have cl: "sv_clients s2 = sv_clients ?s1" by (auto simp: count_received_def Let_def split: option.splits if_splits)
  from finish_task_inv [OF s2(2) t] obtain s3 where s3: "finish_task s2 t = Some s3" by blast
  then have "sv_clients s3 ! ?i = c' \<or> (\<exists>n. sv_clients s3 ! ?i = c' \<lparr> c_pending_task := n \<rparr>)"
    using cl l by (auto simp: finish_task_def Let_def split: if_splits)
  then have "tx_inv (sv_clients s3 ! ?i) (kept_outs outs @ [x])" using r(2) by (auto simp: tx_inv_def)
  moreover have "process_task now now' ?sv t = Some s3"
    using ok c run s2(1) s3 l by (simp add: process_task_def task_ok_def FD_SETSIZE_def Let_def)
  ultimately show ?thesis using r(3) by (auto simp: kept_outs_def)
qed

section \<open>A run\<close>

text \<open>A client connects on descriptor 5 and sends one frame, GET_STATUS with priority HIGH and number 7; a worker takes the task.\<close>

definition sample_bytes :: bytes where
  "sample_bytes = [0, 0, 0, 0, 2, 0, 0, 0, 7, 0, 0, 0, 0, 0, 0, 0, 2, 0, 0, 0, 0, 0, 0, 0, 104, 105, 0x23, 0xFF, 0xFF, 0xFF]"

definition plane0 :: "(int \<Rightarrow> arrival list, int \<Rightarrow> errno tx_sock) plane" where
  "plane0 = \<lparr> p_in = (\<lambda>fd. []), p_out = (\<lambda>fd. \<lparr> tx_plan = [], tx_wire = [] \<rparr>), p_sv = init_server 3, p_busy = [] \<rparr>"

definition sv1 :: server where "sv1 = the (accept_one 5 0 0 True (init_server 3))"

definition plane1 :: "(int \<Rightarrow> arrival list, int \<Rightarrow> errno tx_sock) plane" where
  "plane1 = plane0 \<lparr> p_in := (\<lambda>fd. [])(5 := [Chunk sample_bytes]), p_sv := sv1 \<rparr>"

definition conn1 :: client where
  "conn1 = (init_client 1 1 0 0) \<lparr> c_fd := 5, c_connected := True \<rparr>"

lemma sv1_simps:
  "accept_one 5 0 0 True (init_server 3) = Some sv1" "sv_clients sv1 ! 5 = conn1" "5 < length (sv_clients sv1)" "set (k_epoll sv1) = {5, 3}"
  "\<not> sv_shutdown sv1" "queue_of sv1 q = init_message_queue"
proof -
  show a: "accept_one 5 0 0 True (init_server 3) = Some sv1"
    by (simp add: sv1_def accept_one_def init_server_def FD_SETSIZE_def Let_def)
  show "queue_of sv1 q = init_message_queue"
    by (cases q) (simp_all add: sv1_def accept_one_def init_server_def FD_SETSIZE_def Let_def put_client_def)
qed (simp_all add: sv1_def accept_one_def init_server_def FD_SETSIZE_def Let_def put_client_def conn1_def zero_client_def)

lemma reach_plane1: "plane_reach unix_recv rx_work unix_send tx_work plane1"
proof -
  have "plane_reach unix_recv rx_work unix_send tx_work plane0" unfolding plane0_def by (rule plane_reach.start) (simp_all add: FD_SETSIZE_def)
  moreover have "plane_step unix_recv rx_work unix_send tx_work plane0 (plane0 \<lparr> p_out := p_out plane0, p_sv := sv1 \<rparr>)"
  proof (rule plane_step.event)
    show "io_event_step 1 unix_send \<lparr> ie_fd = 3, ie_in = True, ie_out = False, ie_hup = False \<rparr> [Accepted 5 0 0 True] (p_out plane0, p_sv plane0) = Some (p_out plane0, sv1)"
      using sv1_simps(1) by (simp add: io_event_step_def plane0_def init_server_def Let_def)
  qed (simp_all add: plane0_def init_server_def tx_work_def)
  ultimately have "plane_reach unix_recv rx_work unix_send tx_work (plane0 \<lparr> p_out := p_out plane0, p_sv := sv1 \<rparr>)" by (rule plane_reach.step)
  from plane_reach.step [OF this plane_step.peers [where r = "(\<lambda>fd. [])(5 := [Chunk sample_bytes])" and w = "p_out plane0"]]
  show ?thesis by (simp add: plane1_def plane0_def)
qed

text \<open>The frame as the server reads it.\<close>

definition msg1 :: message_control where
  "msg1 = \<lparr> mc_header = take 24 sample_bytes, mc_message = [104, 105] @ replicate 2046 0, mc_checksum = drop 26 sample_bytes \<rparr>"

lemma msg1_fields: "hdr_length msg1 = 2" "hdr_pri msg1 = 2" "hdr_cmd msg1 = 0" "hdr_number_packet msg1 = 7" "calculate_checksum msg1 = checksum msg1"
proof -
  show l: "hdr_length msg1 = 2" by (simp add: hdr_length_def msg1_def sample_bytes_def)
  show "hdr_pri msg1 = 2" "hdr_cmd msg1 = 0" "hdr_number_packet msg1 = 7"
    by (simp_all add: hdr_pri_def hdr_cmd_def hdr_number_packet_def msg1_def sample_bytes_def)
  have "payload_part msg1 = [104, 105]" by (simp add: payload_part_def l frame_consts) (simp add: msg1_def)
  then have "calculate_checksum msg1 = NOT (fold_carry 220)"
    by (simp add: calculate_checksum_def) (simp add: msg1_def sample_bytes_def)
  then show "calculate_checksum msg1 = checksum msg1" by (simp add: fold_carry.simps checksum_def msg1_def sample_bytes_def)
qed

lemma recv_chunk:
  "bs \<noteq> [] \<Longrightarrow> unix_recv 5 ((\<lambda>fd. [])(5 := [Chunk bs])) n =
     (RxData (take n bs), (\<lambda>fd. [])(5 := if length bs \<le> n then [] else [Chunk (drop n bs)]))"
  by (cases bs) (simp_all add: unix_recv_def)

lemma conn1_fields: "\<not> c_pending_close conn1" "c_stage conn1 = READ_HEADER" "c_bytes_read conn1 = 0" "c_message conn1 = zero_message"
  "c_connected conn1" "c_fd conn1 = 5" "c_generation conn1 = 1" "c_connection_id conn1 = 1" "c_pending_task conn1 = 0" "c_send_count conn1 = 0"
  by (simp_all add: conn1_def init_client_def zero_client_def)

lemma read1: "\<exists>r c. read_stage (Suc (Suc (Suc k))) (unix_recv 5) (p_in plane1) conn1 = Some (1, r, c) \<and> c_message c = msg1"
proof -
  let ?r = "\<lambda>bs. (\<lambda>fd. [])(5 := bs) :: int \<Rightarrow> arrival list"
  let ?h = "zero_message \<lparr> mc_header := take 24 sample_bytes \<rparr>"
  let ?p = "?h \<lparr> mc_message := [104, 105] @ replicate 2046 0 \<rparr>"
  let ?c1 = "conn1 \<lparr> c_message := ?h, c_bytes_read := 0, c_stage := READ_PAYLOAD \<rparr>"
  let ?c2 = "conn1 \<lparr> c_message := ?p, c_bytes_read := 0, c_stage := READ_CHECKSUM \<rparr>"
  have len: "length sample_bytes = 30" "sample_bytes \<noteq> []" "take 2 (drop 24 sample_bytes) = [104, 105]" "drop 24 sample_bytes \<noteq> []" by (simp_all add: sample_bytes_def)
  have l: "hdr_length (m \<lparr> mc_header := take 24 sample_bytes \<rparr>) = 2" "hdr_length ?p = 2" for m by (simp_all add: hdr_length_def sample_bytes_def)
  have in0: "p_in plane1 = ?r [Chunk sample_bytes]" by (simp add: plane1_def)
  have "store_stage conn1 (take 24 sample_bytes) = Some (conn1 \<lparr> c_message := ?h, c_bytes_read := 24 \<rparr>)"
    using len by (simp add: store_stage_def conn1_fields poke_def zero_message_def frame_consts)
  then have 1: "read_stage (Suc n) (unix_recv 5) (p_in plane1) conn1 = read_stage n (unix_recv 5) (?r [Chunk (drop 24 sample_bytes)]) ?c1" for n
    using recv_chunk [of sample_bytes 24] len l by (simp add: read_stage.simps(2) conn1_fields stage_size_def in0 frame_consts Let_def)
  have "store_stage ?c1 [104, 105] = Some (conn1 \<lparr> c_message := ?p, c_bytes_read := 2, c_stage := READ_PAYLOAD \<rparr>)"
    by (simp add: store_stage_def poke_def zero_message_def frame_consts)
  then have 2: "read_stage (Suc n) (unix_recv 5) (?r [Chunk (drop 24 sample_bytes)]) ?c1 = read_stage n (unix_recv 5) (?r [Chunk (drop 26 sample_bytes)]) ?c2" for n
    using recv_chunk [of "drop 24 sample_bytes" 2] len l by (simp add: read_stage.simps(2) conn1_fields stage_size_def frame_consts Let_def)
  have m: "?p \<lparr> mc_checksum := drop 26 sample_bytes \<rparr> = msg1" by (simp add: msg1_def)
  have "store_stage ?c2 (drop 26 sample_bytes) = Some (conn1 \<lparr> c_message := msg1, c_bytes_read := 4, c_stage := READ_CHECKSUM \<rparr>)"
    using len m by (simp add: store_stage_def poke_def zero_message_def frame_consts)
  then have 3: "\<exists>c. read_stage (Suc n) (unix_recv 5) (?r [Chunk (drop 26 sample_bytes)]) ?c2 = Some (1, ?r [], c) \<and> c_message c = msg1" for n
    using recv_chunk [of "drop 26 sample_bytes" 4] len msg1_fields(5)
    by (simp add: read_stage.simps(2) conn1_fields stage_size_def frame_consts finish_frame_def Let_def)
  show ?thesis unfolding 1 2 using 3 by blast
qed

lemma sample_busy:
  "\<exists>p t. plane_reach unix_recv rx_work unix_send tx_work p \<and> p_busy p = [t] \<and> t_message t = msg1"
proof -
  obtain r c where c: "read_stage 40 (unix_recv 5) (p_in plane1) conn1 = Some (1, r, c)" "c_message c = msg1"
    using read1 [of 37] by auto
  let ?t = "\<lparr> t_fd = 5, t_client_generation = c_generation c, t_connection_id = c_connection_id c, t_message = msg1 \<rparr>"
  let ?sv = "put_client sv1 5 c"
  have pri: "priority_of 2 = Some HIGH" by (simp add: priority_of_def)
  have high: "sv_high ?sv = init_message_queue" using sv1_simps(6) [of HIGH] by (simp add: put_client_def)
  obtain q where q: "enqueue_task init_message_queue ?t = Some (True, q)" "mq_holds q [?t]"
    using enqueue_task_room [OF init_queue_holds] by auto
  let ?sv2 = "put_queue ?sv HIGH q"
  have "handle_frame ?sv 5 = Some ?sv2"
    using sv1_simps(3,5) c(2) high q(1) pri by (simp add: handle_frame_def try_enqueue_task_def msg1_fields Let_def)
  then have rd: "readable_event 40 unix_recv 5 True (p_in plane1, p_sv plane1) = Some (r, ?sv2)"
    using sv1_simps(2,3) c(1) conn1_fields by (simp add: readable_event_def plane1_def Let_def)
  have "\<forall>fd. rx_work fd (p_in plane1) < 40" by (simp add: rx_work_def plane1_def sample_bytes_def)
  moreover have "5 \<in> set (k_epoll (p_sv plane1))" using sv1_simps(4) by (simp add: plane1_def)
  ultimately have "plane_step unix_recv rx_work unix_send tx_work plane1 (plane1 \<lparr> p_in := r, p_sv := ?sv2 \<rparr>)"
    using rd by (intro plane_step.readable [where p = plane1 and fd = 5])
  from plane_reach.step [OF reach_plane1 this]
  have p2: "plane_reach unix_recv rx_work unix_send tx_work (plane1 \<lparr> p_in := r, p_sv := ?sv2 \<rparr>)" .
  from dequeue_task_front [OF q(2)] obtain q' where "try_dequeue_task_locked q = Some (Some ?t, q')" by blast
  moreover have "mq_count q = 1" using q(2) by (simp add: mq_holds_def)
  ultimately have "high_pri_worker ?sv2 = Some (Takes ?t, put_queue ?sv2 HIGH q')"
    using sv1_simps(5) by (simp add: high_pri_worker_def worker_round_def all_queues_empty_locked_def)
  then have tk: "high_pri_worker (p_sv (plane1 \<lparr> p_in := r, p_sv := ?sv2 \<rparr>)) = Some (Takes ?t, put_queue ?sv2 HIGH q')" by simp
  from plane_reach.step [OF p2 plane_step.take_task [OF disjI1 [OF tk]]] show ?thesis
    by (intro exI [of _ "(plane1 \<lparr> p_in := r, p_sv := ?sv2 \<rparr>) \<lparr> p_sv := put_queue ?sv2 HIGH q', p_busy := ?t # p_busy (plane1 \<lparr> p_in := r, p_sv := ?sv2 \<rparr>) \<rparr>"]
        exI [of _ ?t]) (simp add: plane1_def plane0_def)
qed

theorem control_plane_invariant_witness:
  "\<exists>p t. plane_reach unix_recv rx_work unix_send tx_work p \<and> t \<in># outstanding p \<and> t_message t = msg1 \<and>
     c_connected (sv_clients (p_sv p) ! nat (t_fd t)) \<and> c_generation (sv_clients (p_sv p) ! nat (t_fd t)) = t_client_generation t"
proof -
  obtain p t where p: "plane_reach unix_recv rx_work unix_send tx_work p" "p_busy p = [t]" "t_message t = msg1" using sample_busy by blast
  have "t \<in># outstanding p" using p(2) by (simp add: outstanding_def)
  with control_plane_invariant [OF p(1)] p(1,3) show ?thesis by blast
qed


text \<open>The same client sends a frame without payload and with priority 3.\<close>

definition bad_msg :: message_control where
  "bad_msg = zero_message \<lparr> mc_header := [0, 0, 0, 0, 3, 0, 0, 0] @ replicate 16 0, mc_checksum := [0xFC, 0xFF, 0xFF, 0xFF] \<rparr>"

lemma bad_msg_fields: "message_ok bad_msg" "length_ok bad_msg" "checksum bad_msg = calculate_checksum bad_msg" "priority_of (hdr_pri bad_msg) = None"
  "length (frame bad_msg) = 28"
proof -
  have r: "replicate 16 (0 :: u8) = [0, 0, 0, 0, 0, 0, 0, 0, 0, 0, 0, 0, 0, 0, 0, 0]" by (simp add: numeral_eq_Suc)
  show ok: "message_ok bad_msg" by (simp add: bad_msg_def message_ok_def zero_message_def frame_consts)
  have l: "hdr_length bad_msg = 0" by (simp add: hdr_length_def bad_msg_def r)
  then show "length_ok bad_msg" by (simp add: length_ok_def)
  have p: "payload_part bad_msg = []" by (simp add: payload_part_def l)
  then have "calculate_checksum bad_msg = NOT (fold_carry 3)" by (simp add: calculate_checksum_def) (simp add: bad_msg_def r)
  then show "checksum bad_msg = calculate_checksum bad_msg" by (simp add: fold_carry.simps checksum_def bad_msg_def)
  show "priority_of (hdr_pri bad_msg) = None" by (simp add: hdr_pri_def bad_msg_def priority_of_def)
  show "length (frame bad_msg) = 28" using ok p by (simp add: frame_def message_ok_def frame_consts)
qed

theorem bad_priority_crashes_witness:
  "handle_client_readable 100 unix_recv (replicate 29 (5, True)) ((\<lambda>fd. [])(5 := [Chunk (frame bad_msg)]), sv1) = None"
proof -
  let ?p = "plane1 \<lparr> p_in := (\<lambda>fd. [])(5 := [Chunk (frame bad_msg)]), p_out := p_out plane1 \<rparr>"
  have p: "plane_reach unix_recv rx_work unix_send tx_work ?p" by (rule plane_reach.step [OF reach_plane1 plane_step.peers])
  have c: "conn1 = sv_clients (p_sv ?p) ! nat 5" using sv1_simps(2) by (simp add: plane1_def)
  have "\<not> sv_shutdown (p_sv ?p)" "5 \<in> set (k_epoll (p_sv ?p))" using sv1_simps(4,5) by (simp_all add: plane1_def)
  moreover have "sock_avail (p_in ?p 5) = frame bad_msg @ []" "sock_work (p_in ?p 5) < 100" using bad_msg_fields(5) by simp_all
  ultimately show ?thesis
    using bad_priority_crashes [OF p _ c _ conn1_fields(5,1,2,3) _ _ bad_msg_fields(1-4), of "[]" 100] bad_msg_fields(5) by (simp add: plane1_def)
qed

theorem process_task_replies_witness:
  "\<exists>p t sv x outs. plane_reach unix_recv rx_work unix_send tx_work p \<and> p_busy p = [t] \<and> process_task 1 2 (p_sv p) t = Some sv \<and>
     tx_inv (sv_clients sv ! nat (t_fd t)) (outs @ [x]) \<and> built (ascii ''STATUS OK'') ACK LOW 7 (o_msg x)"
proof -
  obtain p t where p: "plane_reach unix_recv rx_work unix_send tx_work p" "p_busy p = [t]" "t_message t = msg1" using sample_busy by blast
  have inv: "uds_inv (p_sv p) (outstanding p)" using unix.reach_plane_inv [OF p(1)] by (simp add: plane_inv_def)
  have "task_ok (p_sv p) t" using inv p(2) by (simp add: uds_inv_def outstanding_def)
  then have "nat (t_fd t) < 1024" by (auto simp: task_ok_def nat_less_iff)
  from inv_client(2) [OF inv this] obtain outs where o: "tx_inv (sv_clients (p_sv p) ! nat (t_fd t)) outs" by blast
  have cmd: "command_of (hdr_cmd (t_message t)) = Some GET_STATUS" using p(3) by (simp add: msg1_fields command_of_def)
  have t: "t \<in> set (p_busy p)" using p(2) by simp
  from process_task_replies [OF p(1) t cmd _ o, of "''STATUS OK''" 1 2] p msg1_fields(4) show ?thesis by fastforce
qed

end
