(* ===== verification/Posix_Shm.thy ===== *)
theory Posix_Shm
  imports Ring
begin

text \<open>
  The sensor hub on POSIX IPC (\<open>gateway-core-posix\<close>): the shared memory ring of sensor readings
  with its two counting semaphores and its mutex, the message queue helpers, and the three programs
  \<open>sensor\<close>, \<open>controller\<close> and \<open>monitor\<close> that share them.

  \<open>storage_data\<close> and \<open>get_data\<close> are given twice: as whole calls, and as the atomic actions they are
  made of (a semaphore call, or one section under the mutex). \<open>hub_step\<close> interleaves the atomic
  actions of any number of threads of any number of processes. Answers of the system calls, the
  clock and \<open>rand\<close> are arguments.
\<close>

section \<open>Data\<close>

definition SHM_MAGIC :: u32 where "SHM_MAGIC = 0x20213026"
definition SHM_VERSION :: u32 where "SHM_VERSION = 1"
definition SIZE_MESSAGE :: nat where "SIZE_MESSAGE = 128"
definition MAX_MSQ :: nat where "MAX_MSQ = 10"
definition BUFFER_CAPACITY :: nat where "BUFFER_CAPACITY = 128"
definition SEM_VALUE_MAX :: nat where "SEM_VALUE_MAX = 2147483647"

lemmas hub_consts = SHM_MAGIC_def SHM_VERSION_def SIZE_MESSAGE_def MAX_MSQ_def BUFFER_CAPACITY_def SEM_VALUE_MAX_def

datatype errno = EAGAIN | EINTR | EINVAL | ETIMEDOUT | EMSGSIZE | EEXIST | ENOENT | EACCES | EOVERFLOW | EOTHER

text \<open>What a system call answers: a value, or -1 with \<open>errno\<close>.\<close>

datatype 'a sys = Ret 'a | Fail errno

record message_queue =
  msq_type :: int
  client_id :: int
  message :: bytes

record sensor_data =
  id_sensor :: int
  sdata :: message_queue
  humidity :: int
  flux :: int
  moisture :: int
  motion :: bool
  timestamp :: u64

record shm_header =
  magic :: u32
  version :: u32
  total_size :: u32
  header_size :: u32
  flags :: u32
  reserved :: u32

text \<open>The mutex has no field: a section under it is one step. A semaphore is its value.\<close>

record shm_data =
  hdr :: shm_header
  capacity :: nat
  read_index :: nat
  write_index :: nat
  dropped :: u32
  items :: nat
  spaces :: nat
  shutdown_flag :: bool
  cells :: "sensor_data list"

definition zero_message :: message_queue where
  "zero_message = \<lparr>msq_type = 0, client_id = 0, message = []\<rparr>"

definition zero_sensor :: sensor_data where
  "zero_sensor = \<lparr>id_sensor = 0, sdata = zero_message, humidity = 0, flux = 0, moisture = 0, motion = False, timestamp = 0\<rparr>"

section \<open>Message queue, semaphore and shared memory helpers\<close>

text \<open>
  \<open>get_mq\<close>: the answers of the two \<open>mq_open\<close> calls and of \<open>mq_getattr\<close> on the queue that was
  already there.
\<close>

definition get_mq :: "int sys \<Rightarrow> int sys \<Rightarrow> (nat \<times> nat) option \<Rightarrow> nat \<times> nat \<Rightarrow> int" where
  "get_mq created opened stale expect = (case created of
     Ret d \<Rightarrow> d
   | Fail e \<Rightarrow> if e = EEXIST then
       (case opened of
          Fail _ \<Rightarrow> -1
        | Ret d \<Rightarrow> (case stale of
            Some attr \<Rightarrow> if attr = expect then d else -1
          | None \<Rightarrow> d))
     else -1)"

text \<open>A call with a timeout reads the clock first; \<open>clock\<close> says whether that worked.\<close>

definition send_to_queue :: "int \<Rightarrow> bool \<Rightarrow> int \<Rightarrow> bool \<Rightarrow> unit sys \<Rightarrow> int" where
  "send_to_queue mq ms_null timeout clock ans =
     (if ms_null \<or> mq < 0 then -1
      else if timeout > 0 \<and> \<not> clock then -1
      else case ans of Ret _ \<Rightarrow> 0 | Fail _ \<Rightarrow> -1)"

definition recv_from_queue :: "int \<Rightarrow> bool \<Rightarrow> int \<Rightarrow> bool \<Rightarrow> int sys \<Rightarrow> int" where
  "recv_from_queue mq buf_null timeout clock ans =
     (if buf_null \<and> mq < 0 then -1
      else if timeout \<noteq> 0 \<and> \<not> clock then -1
      else case ans of Ret n \<Rightarrow> n | Fail _ \<Rightarrow> -1)"

definition get_sem :: "bool \<Rightarrow> bool \<Rightarrow> nat sys \<Rightarrow> nat sys \<Rightarrow> int \<times> nat option" where
  "get_sem nulls o_excl first second =
     (if nulls then (-1, None)
      else case first of
        Ret s \<Rightarrow> (0, Some s)
      | Fail e \<Rightarrow> (if o_excl \<and> e = EEXIST then
          (case second of Ret s \<Rightarrow> (0, Some s) | Fail _ \<Rightarrow> (-1, None))
          else (-1, None)))"

text \<open>\<open>wait_sem\<close>: only the listed values of \<open>errno\<close> are reported.\<close>

definition wait_sem :: "bool \<Rightarrow> int \<Rightarrow> bool \<Rightarrow> unit sys \<Rightarrow> int" where
  "wait_sem is_trywait timeout clock ans =
     (if is_trywait then
        (case ans of Ret _ \<Rightarrow> 0 | Fail e \<Rightarrow> if e = EAGAIN \<or> e = EINTR \<or> e = EINVAL then -1 else 0)
      else if timeout \<noteq> 0 then
        (if \<not> clock then -1
         else case ans of Ret _ \<Rightarrow> 0 | Fail e \<Rightarrow> if e = EINVAL \<or> e = ETIMEDOUT then -1 else 0)
      else (case ans of Ret _ \<Rightarrow> 0 | Fail e \<Rightarrow> if e = EINTR \<or> e = EINVAL then -1 else 0))"

definition post_sem :: "unit sys \<Rightarrow> int" where
  "post_sem ans = (case ans of Ret _ \<Rightarrow> 0 | Fail e \<Rightarrow> if e = EINVAL \<or> e = EOVERFLOW then -1 else 0)"

text \<open>
  \<open>get_shm\<close>: \<open>created\<close> and \<open>opened\<close> answer \<open>shm_open\<close>, \<open>st\<close> is what \<open>fstat\<close> reports, \<open>trunc\<close> whether
  \<open>ftruncate\<close> works. The result is the descriptor and the size of the object afterwards.
\<close>

definition get_shm :: "bool \<Rightarrow> bool \<Rightarrow> nat \<Rightarrow> int sys \<Rightarrow> int sys \<Rightarrow> nat option \<Rightarrow> bool \<Rightarrow> int \<times> nat option" where
  "get_shm name_null o_creat expect_size created opened st trunc =
     (if name_null \<or> expect_size = 0 then (-1, None)
      else case created of
        Fail e \<Rightarrow> (if e = EEXIST then
          (case opened of
             Fail _ \<Rightarrow> (-1, None)
           | Ret d \<Rightarrow> (case st of
               None \<Rightarrow> (-1, None)
             | Some n \<Rightarrow>
                 if n = 0 then (if trunc then (d, Some expect_size) else (-1, Some 0))
                 else if n \<noteq> expect_size then (-1, Some n)
                 else (d, Some n)))
          else (-1, None))
      | Ret d \<Rightarrow> (case st of
          None \<Rightarrow> (-1, None)
        | Some n \<Rightarrow>
            if n = 0 \<and> o_creat then (if trunc then (d, Some expect_size) else (-1, Some 0))
            else (d, Some n)))"

definition mapping_shm :: "int \<Rightarrow> nat \<Rightarrow> bool \<Rightarrow> nat sys \<Rightarrow> int \<times> nat option" where
  "mapping_shm shm_fd len addr_null ans =
     (if shm_fd < 0 \<or> len = 0 \<or> addr_null then (-1, None)
      else case ans of Ret a \<Rightarrow> (0, Some a) | Fail _ \<Rightarrow> (-1, None))"

definition unmap_shm :: "bool \<Rightarrow> nat \<Rightarrow> bool \<Rightarrow> int" where
  "unmap_shm addr_null len works = (if addr_null \<or> len = 0 then -1 else if works then 0 else -1)"

text \<open>
  \<open>sem_init\<close> refuses a value above \<open>SEM_VALUE_MAX\<close>; \<open>init_shm\<close> then returns with the magic already
  written. \<open>head_bytes\<close> and \<open>cell_bytes\<close> are the sizes the compiler gives the header and one reading.
\<close>

definition init_shm :: "nat \<Rightarrow> nat \<Rightarrow> shm_data \<Rightarrow> int \<times> shm_data" where
  "init_shm head_bytes cell_bytes sh =
     (if magic (hdr sh) = 0 then
        let h = (hdr sh)\<lparr>magic := SHM_MAGIC, version := SHM_VERSION,
                   total_size := word_of_nat (head_bytes + capacity sh * cell_bytes), flags := 1, reserved := 0\<rparr>;
            s1 = sh\<lparr>hdr := h, read_index := 0, write_index := 0, dropped := 0\<rparr>
        in if SEM_VALUE_MAX < capacity sh then (-1, s1)
           else (0, s1\<lparr>spaces := capacity sh, items := 0,
                       cells := replicate (capacity sh) zero_sensor @ drop (capacity sh) (cells sh)\<rparr>)
      else (0, sh))"

text \<open>What every \<open>main\<close> does with the mapping: the first program sets the capacity and initialises.\<close>

definition attach_shm :: "nat \<Rightarrow> nat \<Rightarrow> shm_data \<Rightarrow> int \<times> shm_data" where
  "attach_shm head_bytes cell_bytes sh =
     (if magic (hdr sh) \<noteq> SHM_MAGIC
      then init_shm head_bytes cell_bytes (sh\<lparr>capacity := BUFFER_CAPACITY, shutdown_flag := False\<rparr>)
      else (0, sh))"

definition cmd_to_string :: "int \<Rightarrow> string" where
  "cmd_to_string cmd =
     (if cmd = 1 then ''GET_DATA'' else if cmd = 2 then ''STORAGE_DATA'' else if cmd = 3 then ''GET_STATUS''
      else if cmd = 4 then ''LOW_ENERY'' else if cmd = 5 then ''SHUTDOWN'' else ''UNKNOWN'')"

definition random_update_sensor :: "sensor_data \<Rightarrow> int \<Rightarrow> message_queue \<Rightarrow> u64 \<Rightarrow> int \<Rightarrow> int \<Rightarrow> int \<Rightarrow> sensor_data" where
  "random_update_sensor s i m now r1 r2 r3 =
     s\<lparr>id_sensor := i, timestamp := now, sdata := m, flux := r1 mod 1000, humidity := r2 mod 100,
       moisture := r3 mod 100, motion := True\<rparr>"

section \<open>The ring of readings\<close>

text \<open>
  The atomic actions. A try-wait succeeds when the semaphore is positive and no signal interrupts
  it. \<open>None\<close> is undefined behaviour: a division by a capacity of zero, or a cell outside the array.
\<close>

definition next_index :: "shm_data \<Rightarrow> nat \<Rightarrow> nat" where
  "next_index sh i = ((i + 1) mod 2 ^ 32) mod capacity sh"

definition try_spaces :: "bool \<Rightarrow> shm_data \<Rightarrow> int \<times> shm_data" where
  "try_spaces intr sh =
     (let ans = (if intr then Fail EINTR else if spaces sh = 0 then Fail EAGAIN else Ret ());
          ret = wait_sem True 0 True ans
      in (ret, if ans = Ret () then sh\<lparr>spaces := spaces sh - 1\<rparr> else sh))"

definition try_items :: "bool \<Rightarrow> shm_data \<Rightarrow> int \<times> shm_data" where
  "try_items intr sh =
     (let ans = (if intr then Fail EINTR else if items sh = 0 then Fail EAGAIN else Ret ());
          ret = wait_sem True 0 True ans
      in (ret, if ans = Ret () then sh\<lparr>items := items sh - 1\<rparr> else sh))"

definition count_drop :: "shm_data \<Rightarrow> shm_data" where
  "count_drop sh = sh\<lparr>dropped := dropped sh + 1\<rparr>"

definition write_cell :: "sensor_data \<Rightarrow> shm_data \<Rightarrow> shm_data option" where
  "write_cell d sh =
     (if capacity sh = 0 \<or> length (cells sh) \<le> write_index sh then None
      else Some (sh\<lparr>cells := (cells sh)[write_index sh := d], write_index := next_index sh (write_index sh)\<rparr>))"

definition read_cell :: "shm_data \<Rightarrow> (sensor_data \<times> shm_data) option" where
  "read_cell sh =
     (if capacity sh = 0 \<or> length (cells sh) \<le> read_index sh then None
      else Some (cells sh ! read_index sh, sh\<lparr>read_index := next_index sh (read_index sh)\<rparr>))"

definition post_items :: "shm_data \<Rightarrow> shm_data" where
  "post_items sh = (if items sh = SEM_VALUE_MAX then sh else sh\<lparr>items := items sh + 1\<rparr>)"

definition post_spaces :: "shm_data \<Rightarrow> shm_data" where
  "post_spaces sh = (if spaces sh = SEM_VALUE_MAX then sh else sh\<lparr>spaces := spaces sh + 1\<rparr>)"

text \<open>The calls as a single thread runs them; \<open>get_data\<close> gives the reading it prints.\<close>

definition get_data :: "bool \<Rightarrow> shm_data \<Rightarrow> (sensor_data option \<times> shm_data) option" where
  "get_data intr sh =
     (case try_items intr sh of (ret, sh1) \<Rightarrow>
        if ret \<noteq> 0 then Some (None, sh1)
        else case read_cell sh1 of
          None \<Rightarrow> None
        | Some (d, sh2) \<Rightarrow> Some (Some d, post_spaces sh2))"

definition storage_data :: "bool \<Rightarrow> sensor_data \<Rightarrow> shm_data \<Rightarrow> (bool \<times> shm_data) option" where
  "storage_data intr d sh =
     (case try_spaces intr sh of (ret, sh1) \<Rightarrow>
        if ret \<noteq> 0 then Some (False, count_drop sh1)
        else case write_cell d sh1 of
          None \<Rightarrow> None
        | Some sh2 \<Rightarrow> Some (True, post_items sh2))"

text \<open>What \<open>print_status\<close> prints: capacity, read index, write index, dropped.\<close>

definition print_status :: "shm_data \<Rightarrow> nat \<times> nat \<times> nat \<times> u32" where
  "print_status sh = (capacity sh, read_index sh, write_index sh, dropped sh)"

datatype shown =
    Nothing_shown
  | Reading sensor_data
  | Empty_buffer
  | Stored
  | Dropped u32
  | Status "nat \<times> nat \<times> nat \<times> u32"
  | Low_energy
  | Sigterm_to_self
  | Invalid_command

text \<open>The clock and the three values of \<open>rand\<close> a stored reading takes.\<close>

record ambient =
  now :: u64
  rand1 :: int
  rand2 :: int
  rand3 :: int
  intr :: bool

definition dummy_data :: "message_queue \<Rightarrow> ambient \<Rightarrow> sensor_data" where
  "dummy_data ctrl a = random_update_sensor zero_sensor 101 ctrl (now a) (rand1 a) (rand2 a) (rand3 a)"

definition command_handling :: "message_queue \<Rightarrow> ambient \<Rightarrow> shm_data \<Rightarrow> (shown \<times> shm_data) option" where
  "command_handling ctrl a sh =
     (if msq_type ctrl = 1 then
        (case get_data (intr a) sh of
           None \<Rightarrow> None
         | Some (None, sh1) \<Rightarrow> Some (Empty_buffer, sh1)
         | Some (Some d, sh1) \<Rightarrow> Some (Reading d, sh1))
      else if msq_type ctrl = 2 then
        (case storage_data (intr a) (dummy_data ctrl a) sh of
           None \<Rightarrow> None
         | Some (ok, sh1) \<Rightarrow> Some (if ok then Stored else Dropped (dropped sh1), sh1))
      else if msq_type ctrl = 3 then Some (Status (print_status sh), sh)
      else if msq_type ctrl = 4 then Some (Low_energy, sh)
      else if msq_type ctrl = 5 then Some (Sigterm_to_self, sh)
      else Some (Invalid_command, sh))"

text \<open>
  \<open>drain_mq\<close>: every round receives one message and asks the queue again how many are left; the
  list holds what the kernel answers in each round. The result is what the commands showed, and
  \<open>None\<close> at its end when the answers run out before the loop does.
\<close>

fun drain_loop :: "int \<Rightarrow> (message_queue sys \<times> ambient \<times> int option) list \<Rightarrow> shm_data \<Rightarrow> (shown list \<times> shm_data) option" where
  "drain_loop remain [] sh = (if remain > 0 then None else Some ([], sh))"
| "drain_loop remain ((rcv, a, left) # rest) sh =
     (if remain > 0 then
        (case rcv of
           Fail _ \<Rightarrow> Some ([], sh)
         | Ret m \<Rightarrow> (case command_handling m a sh of
             None \<Rightarrow> None
           | Some (out, sh1) \<Rightarrow> (case left of
               None \<Rightarrow> Some ([out], sh1)
             | Some n \<Rightarrow> (case drain_loop n rest sh1 of
                 None \<Rightarrow> None
               | Some (outs, sh2) \<Rightarrow> Some (out # outs, sh2)))))
      else Some ([], sh))"

definition drain_mq :: "int option \<Rightarrow> (message_queue sys \<times> ambient \<times> int option) list \<Rightarrow> shm_data \<Rightarrow> (int \<times> shown list \<times> shm_data) option" where
  "drain_mq curmsgs rounds sh = (case curmsgs of
     None \<Rightarrow> Some (-1, [], sh)
   | Some n \<Rightarrow> (case drain_loop n rounds sh of
       None \<Rightarrow> None
     | Some (outs, sh1) \<Rightarrow> Some (0, outs, sh1)))"

end
