(* ===== verification/Posix_Hub.thy ===== *)
theory Posix_Hub
  imports Posix_Shm
begin

text \<open>
  The programs around the shared ring of \<open>gateway-core-posix\<close>: the sensor that runs commands on it,
  the controller that sends the commands, the monitor that reports its fill level, and the
  interleaving of any number of threads that use it at once.
\<close>

section \<open>Controller, sensor and monitor\<close>

definition MID_PRI :: nat where "MID_PRI = 20"
definition HIGH_PRI :: nat where "HIGH_PRI = 30"

text \<open>The message of round \<open>count\<close> of the controller, cut by \<open>snprintf\<close>, and its priority.\<close>

definition controller_message :: "int \<Rightarrow> int \<Rightarrow> message_queue \<times> nat" where
  "controller_message pid count =
     (\<lparr>msq_type = count mod 3 + 1, client_id = pid,
       message = take (SIZE_MESSAGE - 1) (ascii ''Test message #'' @ dec_text count)\<rparr>, MID_PRI)"

record system_config =
  is_running :: bool
  cfg_msq :: int

definition controller_message_round :: "int \<Rightarrow> int \<Rightarrow> unit sys \<Rightarrow> system_config \<Rightarrow> (int \<times> (message_queue \<times> nat) option) option" where
  "controller_message_round pid count ans cfg =
     (if \<not> is_running cfg then None
      else if send_to_queue (cfg_msq cfg) False 0 True ans = 0 then Some (count + 1, Some (controller_message pid count))
      else Some (count + 1, None))"

text \<open>
  The signal threads stop their program and set the flag in the shared memory. Those of the
  controller and of the monitor also send \<open>SHUTDOWN\<close> to the sensor.
\<close>

definition is_shutdown_signal :: "int \<Rightarrow> bool" where
  "is_shutdown_signal sig = (sig = 2 \<or> sig = 15)"

definition sensor_sig_thread :: "int \<Rightarrow> system_config \<Rightarrow> shm_data \<Rightarrow> (system_config \<times> shm_data) option" where
  "sensor_sig_thread sig cfg sh =
     (if is_shutdown_signal sig then Some (cfg\<lparr>is_running := False\<rparr>, sh\<lparr>shutdown_flag := True\<rparr>) else None)"

definition controller_sig_thread :: "int \<Rightarrow> int \<Rightarrow> system_config \<Rightarrow> shm_data \<Rightarrow> (system_config \<times> shm_data \<times> message_queue \<times> nat) option" where
  "controller_sig_thread pid sig cfg sh =
     (if is_shutdown_signal sig
      then Some (cfg\<lparr>is_running := False\<rparr>, sh\<lparr>shutdown_flag := True\<rparr>,
                 \<lparr>msq_type = 5, client_id = pid, message = ascii ''SHUTDOWN''\<rparr>, HIGH_PRI)
      else None)"

text \<open>
  One round of the message thread of the sensor. \<open>Inl\<close> ends the thread. While it runs it waits one
  second for a message; \<open>left\<close> and \<open>rounds\<close> are what the queue answers when it is drained.
\<close>

definition sensor_message_round ::
  "system_config \<Rightarrow> message_queue sys \<Rightarrow> ambient \<Rightarrow> int option \<Rightarrow> (message_queue sys \<times> ambient \<times> int option) list \<Rightarrow>
     shm_data \<Rightarrow> ((shown list \<times> shm_data) + (shown list \<times> shm_data)) option" where
  "sensor_message_round cfg rcv a left rounds sh =
     (if \<not> is_running cfg then
        (if shutdown_flag sh then
           (case drain_mq left rounds sh of
              None \<Rightarrow> None
            | Some (ret, outs, sh1) \<Rightarrow> Some (Inl (outs, sh1)))
         else Some (Inl ([], sh)))
      else case rcv of
        Ret m \<Rightarrow> (case command_handling m a sh of
          None \<Rightarrow> None
        | Some (out, sh1) \<Rightarrow> Some (Inr ([out], sh1)))
      | Fail e \<Rightarrow> Some (if e = ETIMEDOUT \<or> e = EINTR then Inr ([], sh) else Inl ([], sh)))"

text \<open>
  What the monitor reports under the mutex: the latest reading, the number of used cells, and
  whether it warns that the buffer is nearly full (more than nine tenths of the capacity).
\<close>

definition monitor_latest :: "shm_data \<Rightarrow> sensor_data option" where
  "monitor_latest sh =
     (if read_index sh \<noteq> write_index sh
      then Some (cells sh ! (if write_index sh = 0 then capacity sh - 1 else write_index sh - 1))
      else None)"

definition monitor_count :: "shm_data \<Rightarrow> nat" where
  "monitor_count sh =
     (if write_index sh \<ge> read_index sh then write_index sh - read_index sh
      else capacity sh - read_index sh + write_index sh)"

definition monitor_warns :: "shm_data \<Rightarrow> bool" where
  "monitor_warns sh = (10 * monitor_count sh > 9 * capacity sh)"

section \<open>Interleaving\<close>

text \<open>Where a thread stands between two atomic actions of the command it runs.\<close>

datatype pc = Idle | Write sensor_data | Post_items | Drop | Read | Post_spaces sensor_data

definition thread_start :: "message_queue \<Rightarrow> ambient \<Rightarrow> shm_data \<Rightarrow> pc \<times> shm_data" where
  "thread_start ctrl a sh =
     (if msq_type ctrl = 1 then
        (case try_items (intr a) sh of (ret, sh1) \<Rightarrow> (if ret \<noteq> 0 then Idle else Read, sh1))
      else if msq_type ctrl = 2 then
        (case try_spaces (intr a) sh of (ret, sh1) \<Rightarrow> (if ret \<noteq> 0 then Drop else Write (dummy_data ctrl a), sh1))
      else (Idle, sh))"

text \<open>The next atomic action: where it leads, the memory, the reading stored and the reading taken.\<close>

fun thread_next :: "pc \<Rightarrow> shm_data \<Rightarrow> (pc \<times> shm_data \<times> sensor_data list \<times> sensor_data list) option" where
  "thread_next Idle sh = Some (Idle, sh, [], [])"
| "thread_next (Write d) sh = (case write_cell d sh of None \<Rightarrow> None | Some sh1 \<Rightarrow> Some (Post_items, sh1, [d], []))"
| "thread_next Post_items sh = Some (Idle, post_items sh, [], [])"
| "thread_next Drop sh = Some (Idle, count_drop sh, [], [])"
| "thread_next Read sh = (case read_cell sh of None \<Rightarrow> None | Some (d, sh1) \<Rightarrow> Some (Post_spaces d, sh1, [], [d]))"
| "thread_next (Post_spaces d) sh = Some (Idle, post_spaces sh, [], [])"

record hub =
  mem :: shm_data
  threads :: "pc list"
  stored :: "sensor_data list"
  taken :: "sensor_data list"

text \<open>\<open>stored\<close> and \<open>taken\<close> record the readings written to and read from the ring, in order.\<close>

inductive hub_step :: "hub \<Rightarrow> hub \<Rightarrow> bool" where
  command: "i < length (threads h) \<Longrightarrow> threads h ! i = Idle \<Longrightarrow> thread_start ctrl a (mem h) = (p, sh) \<Longrightarrow>
    hub_step h (h\<lparr>mem := sh, threads := (threads h)[i := p]\<rparr>)"
| action: "i < length (threads h) \<Longrightarrow> thread_next (threads h ! i) (mem h) = Some (p, sh, w, r) \<Longrightarrow>
    hub_step h (h\<lparr>mem := sh, threads := (threads h)[i := p], stored := stored h @ w, taken := taken h @ r\<rparr>)"
| signal: "sensor_sig_thread sig cfg (mem h) = Some (cfg', sh) \<Longrightarrow> hub_step h (h\<lparr>mem := sh\<rparr>)"
| attach: "attach_shm hb cb (mem h) = (ret, sh) \<Longrightarrow> hub_step h (h\<lparr>mem := sh\<rparr>)"

text \<open>The memory as the kernel hands it out, all zero, with room for the capacity; \<open>n\<close> threads.\<close>

definition zero_shm :: shm_data where
  "zero_shm = \<lparr>hdr = \<lparr>magic = 0, version = 0, total_size = 0, header_size = 0, flags = 0, reserved = 0\<rparr>,
     capacity = 0, read_index = 0, write_index = 0, dropped = 0, items = 0, spaces = 0, shutdown_flag = False,
     cells = replicate BUFFER_CAPACITY zero_sensor\<rparr>"

definition hub_start :: "nat \<Rightarrow> nat \<Rightarrow> nat \<Rightarrow> hub" where
  "hub_start hb cb n = \<lparr>mem = snd (attach_shm hb cb zero_shm), threads = replicate n Idle, stored = [], taken = []\<rparr>"

inductive hub_reach :: "nat \<Rightarrow> nat \<Rightarrow> nat \<Rightarrow> hub \<Rightarrow> bool" for hb cb n where
  start: "hub_reach hb cb n (hub_start hb cb n)"
| step: "hub_reach hb cb n h \<Longrightarrow> hub_step h h' \<Longrightarrow> hub_reach hb cb n h'"

section \<open>The invariant\<close>

text \<open>
  A thread that holds a free cell has taken it from \<open>spaces\<close> and not yet filled it, or has emptied
  it and not yet posted it. A thread that holds a reading has stored it and not yet posted it to
  \<open>items\<close>, or has taken it from \<open>items\<close> and not yet read it.
\<close>

fun holds_cell :: "pc \<Rightarrow> nat" where
  "holds_cell (Write d) = 1" | "holds_cell (Post_spaces d) = 1" | "holds_cell _ = 0"

fun holds_reading :: "pc \<Rightarrow> nat" where
  "holds_reading Post_items = 1" | "holds_reading Read = 1" | "holds_reading _ = 0"

definition tally :: "(pc \<Rightarrow> nat) \<Rightarrow> pc list \<Rightarrow> nat" where
  "tally f ps = sum_list (map f ps)"

lemma tally_update:
  "i < length ps \<Longrightarrow> tally f (ps[i := p]) + f (ps ! i) = tally f ps + f p"
proof (induction ps arbitrary: i)
  case (Cons q ps)
  then show ?case by (cases i) (auto simp: tally_def add.left_commute add.assoc)
qed simp

lemma tally_member: "i < length ps \<Longrightarrow> f (ps ! i) \<le> tally f ps"
  by (simp add: tally_def member_le_sum_list)

lemma tally_idle: "(\<forall>p \<in> set ps. p = Idle) \<Longrightarrow> f Idle = 0 \<Longrightarrow> tally f ps = 0"
  by (auto simp: tally_def)

definition shm_holds :: "shm_data \<Rightarrow> sensor_data list \<Rightarrow> bool" where
  "shm_holds sh xs = (magic (hdr sh) = SHM_MAGIC \<and> capacity sh = BUFFER_CAPACITY \<and>
     ring BUFFER_CAPACITY (cells sh) (write_index sh) (read_index sh) xs)"

definition hub_holds :: "hub \<Rightarrow> sensor_data list \<Rightarrow> bool" where
  "hub_holds h xs = (shm_holds (mem h) xs \<and>
     spaces (mem h) + tally holds_cell (threads h) + length xs = BUFFER_CAPACITY \<and>
     items (mem h) + tally holds_reading (threads h) = length xs \<and>
     stored h = taken h @ xs)"

lemma next_index_ring:
  assumes "capacity sh = BUFFER_CAPACITY" and "i < BUFFER_CAPACITY"
  shows "next_index sh i = Suc i mod BUFFER_CAPACITY"
  using assms by (simp add: next_index_def BUFFER_CAPACITY_def)

lemma write_cell_holds:
  assumes h: "shm_holds sh xs" and room: "length xs < BUFFER_CAPACITY"
  shows "\<exists>sh'. write_cell d sh = Some sh' \<and> shm_holds sh' (xs @ [d]) \<and> items sh' = items sh \<and> spaces sh' = spaces sh"
proof -
  have r: "ring BUFFER_CAPACITY (cells sh) (write_index sh) (read_index sh) xs" and c: "capacity sh = BUFFER_CAPACITY"
    using h by (simp_all add: shm_holds_def)
  have "write_index sh < BUFFER_CAPACITY" "length (cells sh) = BUFFER_CAPACITY" "0 < BUFFER_CAPACITY"
    using ring_bounds [OF r] by auto
  then show ?thesis
    using ring_put [OF r room, of d] h c by (simp add: write_cell_def shm_holds_def next_index_ring)
qed

lemma read_cell_holds:
  assumes h: "shm_holds sh (d # xs)"
  shows "\<exists>sh'. read_cell sh = Some (d, sh') \<and> shm_holds sh' xs \<and> items sh' = items sh \<and> spaces sh' = spaces sh"
proof -
  have r: "ring BUFFER_CAPACITY (cells sh) (write_index sh) (read_index sh) (d # xs)" and c: "capacity sh = BUFFER_CAPACITY"
    using h by (simp_all add: shm_holds_def)
  have "read_index sh < BUFFER_CAPACITY" "length (cells sh) = BUFFER_CAPACITY" "0 < BUFFER_CAPACITY"
    using ring_bounds [OF r] by auto
  then show ?thesis
    using ring_get [OF r] h c by (simp add: read_cell_def shm_holds_def next_index_ring)
qed

lemma post_items_room: "items sh < SEM_VALUE_MAX \<Longrightarrow> post_items sh = sh\<lparr>items := items sh + 1\<rparr>"
  by (simp add: post_items_def)

lemma post_spaces_room: "spaces sh < SEM_VALUE_MAX \<Longrightarrow> post_spaces sh = sh\<lparr>spaces := spaces sh + 1\<rparr>"
  by (simp add: post_spaces_def)

lemma shm_holds_frame [simp]:
  "shm_holds (sh\<lparr>items := k\<rparr>) xs = shm_holds sh xs"
  "shm_holds (sh\<lparr>spaces := k\<rparr>) xs = shm_holds sh xs"
  "shm_holds (sh\<lparr>dropped := v\<rparr>) xs = shm_holds sh xs"
  "shm_holds (sh\<lparr>shutdown_flag := b\<rparr>) xs = shm_holds sh xs"
  by (simp_all add: shm_holds_def)

lemma try_items_value:
  "try_items b sh = (if b \<or> items sh = 0 then (-1, sh) else (0, sh\<lparr>items := items sh - 1\<rparr>))"
  by (simp add: try_items_def wait_sem_def)

lemma try_spaces_value:
  "try_spaces b sh = (if b \<or> spaces sh = 0 then (-1, sh) else (0, sh\<lparr>spaces := spaces sh - 1\<rparr>))"
  by (simp add: try_spaces_def wait_sem_def)

lemma hub_holds_update:
  assumes h: "hub_holds h xs" and i: "i < length (threads h)" and q: "threads h ! i = q" and m: "shm_holds sh ys"
    and s: "spaces sh + holds_cell p + length ys = spaces (mem h) + holds_cell q + length xs"
    and t: "items sh + holds_reading p + length xs = items (mem h) + holds_reading q + length ys"
    and f: "xs @ w = r @ ys"
  shows "hub_holds (h\<lparr>mem := sh, threads := (threads h)[i := p], stored := stored h @ w, taken := taken h @ r\<rparr>) ys"
  using h m s t f tally_update [OF i, of holds_cell p] tally_update [OF i, of holds_reading p]
  unfolding hub_holds_def q by simp

lemma thread_start_holds:
  assumes h: "hub_holds h xs" and i: "i < length (threads h)" and q: "threads h ! i = Idle"
    and e: "thread_start ctrl a (mem h) = (p, sh)"
  shows "hub_holds (h\<lparr>mem := sh, threads := (threads h)[i := p]\<rparr>) xs"
proof -
  have m: "shm_holds (mem h) xs" using h by (simp add: hub_holds_def)
  have "shm_holds sh xs \<and> spaces sh + holds_cell p = spaces (mem h) \<and> items sh + holds_reading p = items (mem h)"
    using e m by (auto simp: thread_start_def try_items_value try_spaces_value split: if_splits)
  then show ?thesis using hub_holds_update [OF h i q, of sh xs p "[]" "[]"] by simp
qed

text \<open>A thread that stands before a write finds a free cell, one before a read finds a reading.\<close>

lemma write_has_room:
  assumes "hub_holds h xs" and "i < length (threads h)" and "threads h ! i = Write d"
  shows "length xs < BUFFER_CAPACITY"
  using assms tally_member [of i "threads h" holds_cell] by (simp add: hub_holds_def)

lemma read_has_reading:
  assumes "hub_holds h xs" and "i < length (threads h)" and "threads h ! i = Read"
  shows "xs \<noteq> []"
  using assms tally_member [of i "threads h" holds_reading] by (auto simp: hub_holds_def)

lemma posts_in_range:
  assumes "hub_holds h xs"
  shows "items (mem h) < SEM_VALUE_MAX" and "spaces (mem h) < SEM_VALUE_MAX"
  using assms by (auto simp: hub_holds_def BUFFER_CAPACITY_def SEM_VALUE_MAX_def)

lemma thread_next_holds:
  assumes h: "hub_holds h xs" and i: "i < length (threads h)"
  shows "\<exists>p sh w r ys. thread_next (threads h ! i) (mem h) = Some (p, sh, w, r) \<and>
     hub_holds (h\<lparr>mem := sh, threads := (threads h)[i := p], stored := stored h @ w, taken := taken h @ r\<rparr>) ys"
proof -
  have m: "shm_holds (mem h) xs" using h by (simp add: hub_holds_def)
  note upd = hub_holds_update [OF h i]
  note room = post_items_room [OF posts_in_range(1) [OF h]] post_spaces_room [OF posts_in_range(2) [OF h]]
  show ?thesis
  proof (cases "threads h ! i")
    case Idle
    then show ?thesis using upd [OF Idle m, of Idle "[]" "[]"] by simp blast
  next
    case (Write d)
    obtain sh' where w: "write_cell d (mem h) = Some sh'" "shm_holds sh' (xs @ [d])" "items sh' = items (mem h)" "spaces sh' = spaces (mem h)"
      using write_cell_holds [OF m write_has_room [OF h i Write]] by blast
    have "thread_next (threads h ! i) (mem h) = Some (Post_items, sh', [d], [])" using w(1) Write by simp
    moreover have "hub_holds (h\<lparr>mem := sh', threads := (threads h)[i := Post_items], stored := stored h @ [d], taken := taken h @ []\<rparr>) (xs @ [d])"
      by (rule upd [OF Write w(2)]) (simp_all add: w)
    ultimately show ?thesis by blast
  next
    case Post_items
    have "thread_next (threads h ! i) (mem h) = Some (Idle, (mem h)\<lparr>items := items (mem h) + 1\<rparr>, [], [])"
      by (simp add: Post_items room)
    moreover have "hub_holds (h\<lparr>mem := (mem h)\<lparr>items := items (mem h) + 1\<rparr>, threads := (threads h)[i := Idle], stored := stored h @ [], taken := taken h @ []\<rparr>) xs"
      by (rule upd [OF Post_items]) (simp_all add: m)
    ultimately show ?thesis by blast
  next
    case Drop
    have "thread_next (threads h ! i) (mem h) = Some (Idle, (mem h)\<lparr>dropped := dropped (mem h) + 1\<rparr>, [], [])"
      by (simp add: Drop count_drop_def)
    moreover have "hub_holds (h\<lparr>mem := (mem h)\<lparr>dropped := dropped (mem h) + 1\<rparr>, threads := (threads h)[i := Idle], stored := stored h @ [], taken := taken h @ []\<rparr>) xs"
      by (rule upd [OF Drop]) (simp_all add: m)
    ultimately show ?thesis by blast
  next
    case Read
    obtain d ys where xs: "xs = d # ys" using read_has_reading [OF h i Read] by (cases xs) auto
    obtain sh' where w: "read_cell (mem h) = Some (d, sh')" "shm_holds sh' ys" "items sh' = items (mem h)" "spaces sh' = spaces (mem h)"
      using read_cell_holds m unfolding xs by blast
    have "thread_next (threads h ! i) (mem h) = Some (Post_spaces d, sh', [], [d])" using w(1) Read by simp
    moreover have "hub_holds (h\<lparr>mem := sh', threads := (threads h)[i := Post_spaces d], stored := stored h @ [], taken := taken h @ [d]\<rparr>) ys"
      by (rule upd [OF Read w(2)]) (simp_all add: w xs)
    ultimately show ?thesis by blast
  next
    case (Post_spaces d)
    have "thread_next (threads h ! i) (mem h) = Some (Idle, (mem h)\<lparr>spaces := spaces (mem h) + 1\<rparr>, [], [])"
      by (simp add: Post_spaces room)
    moreover have "hub_holds (h\<lparr>mem := (mem h)\<lparr>spaces := spaces (mem h) + 1\<rparr>, threads := (threads h)[i := Idle], stored := stored h @ [], taken := taken h @ []\<rparr>) xs"
      by (rule upd [OF Post_spaces]) (simp_all add: m)
    ultimately show ?thesis by blast
  qed
qed

lemma hub_start_holds: "hub_holds (hub_start hb cb n) []"
proof -
  have "tally f (replicate n Idle) = 0" if "f Idle = 0" for f using that by (simp add: tally_idle)
  then show ?thesis
    by (simp add: hub_holds_def hub_start_def attach_shm_def init_shm_def zero_shm_def shm_holds_def hub_consts Let_def ring_def)
qed

lemma hub_step_holds:
  assumes "hub_step h h'" and "hub_holds h xs"
  shows "\<exists>ys. hub_holds h' ys"
  using assms
proof (induction rule: hub_step.induct)
  case (command i h ctrl a p sh)
  then show ?case using thread_start_holds by blast
next
  case (action i h p sh w r)
  then show ?case using thread_next_holds [of h xs i] by auto
next
  case (signal sig cfg h cfg' sh)
  then show ?case by (auto simp: sensor_sig_thread_def hub_holds_def split: if_splits)
next
  case (attach hb cb h ret sh)
  then show ?case by (auto simp: attach_shm_def hub_holds_def shm_holds_def)
qed

lemma hub_reach_holds: "hub_reach hb cb n h \<Longrightarrow> \<exists>xs. hub_holds h xs"
proof (induction rule: hub_reach.induct)
  case start
  then show ?case using hub_start_holds by blast
next
  case (step h h')
  then show ?case using hub_step_holds by blast
qed

section \<open>The calls of one thread\<close>

text \<open>A thread that runs alone from the start of a command to its end does what the whole call does.\<close>

fun run_alone :: "nat \<Rightarrow> pc \<Rightarrow> shm_data \<Rightarrow> (pc \<times> shm_data \<times> sensor_data list \<times> sensor_data list) option" where
  "run_alone 0 p sh = Some (p, sh, [], [])"
| "run_alone (Suc k) p sh = (case thread_next p sh of
     None \<Rightarrow> None
   | Some (p', sh', w, r) \<Rightarrow> (case run_alone k p' sh' of
       None \<Rightarrow> None
     | Some (p2, sh2, w2, r2) \<Rightarrow> Some (p2, sh2, w @ w2, r @ r2)))"

lemma command_alone:
  assumes "thread_start ctrl a sh = (p, sh1)"
  shows "map_option snd (command_handling ctrl a sh) = map_option (\<lambda>(p, sh2, w, r). sh2) (run_alone 2 p sh1)"
  using assms
  by (auto simp: thread_start_def command_handling_def get_data_def storage_data_def numeral_2_eq_2
      try_items_value try_spaces_value split: if_splits option.splits)

text \<open>The ring with its semaphores, used by one thread at a time, is a bounded first-in first-out buffer.\<close>

definition shm_queue :: "shm_data \<Rightarrow> sensor_data list \<Rightarrow> bool" where
  "shm_queue sh xs = (shm_holds sh xs \<and> items sh = length xs \<and> spaces sh + length xs = BUFFER_CAPACITY)"

lemma shm_queue_values:
  assumes "shm_queue sh xs"
  shows "length xs \<le> BUFFER_CAPACITY" and "items sh < SEM_VALUE_MAX" and "spaces sh < SEM_VALUE_MAX"
  using assms by (auto simp: shm_queue_def BUFFER_CAPACITY_def SEM_VALUE_MAX_def)

lemma storage_data_room:
  assumes q: "shm_queue sh xs" and room: "length xs < BUFFER_CAPACITY"
  shows "\<exists>sh'. storage_data False d sh = Some (True, sh') \<and> shm_queue sh' (xs @ [d])"
proof -
  have m: "shm_holds (sh\<lparr>spaces := spaces sh - 1\<rparr>) xs" and s: "spaces sh \<noteq> 0" using q room by (auto simp: shm_queue_def)
  obtain sh' where "write_cell d (sh\<lparr>spaces := spaces sh - 1\<rparr>) = Some sh'" "shm_holds sh' (xs @ [d])"
      "items sh' = items sh" "spaces sh' = spaces sh - 1"
    using write_cell_holds [OF m room, of d] by auto
  then show ?thesis using q s shm_queue_values(2) [OF q]
    by (simp add: storage_data_def try_spaces_value post_items_room shm_queue_def)
qed

lemma get_data_front:
  assumes q: "shm_queue sh (d # xs)"
  shows "\<exists>sh'. get_data False sh = Some (Some d, sh') \<and> shm_queue sh' xs"
proof -
  have m: "shm_holds (sh\<lparr>items := items sh - 1\<rparr>) (d # xs)" and s: "items sh \<noteq> 0" using q by (auto simp: shm_queue_def)
  obtain sh' where "read_cell (sh\<lparr>items := items sh - 1\<rparr>) = Some (d, sh')" "shm_holds sh' xs"
      "items sh' = items sh - 1" "spaces sh' = spaces sh"
    using read_cell_holds [OF m] by auto
  then show ?thesis using q s shm_queue_values(3) [OF q]
    by (simp add: get_data_def try_items_value post_spaces_room shm_queue_def)
qed

interpretation readings: bounded_fifo shm_queue BUFFER_CAPACITY "\<lambda>d sh. True" "\<lambda>d. d" "storage_data False" "get_data False"
proof (unfold_locales, goal_cases)
  case 1 then show ?case by (rule shm_queue_values)
next
  case 2 then show ?case by (intro storage_data_room)
next
  case (3 sh xs d)
  then show ?case by (auto simp: storage_data_def try_spaces_value shm_queue_def count_drop_def)
next
  case (4 sh)
  then show ?case by (auto simp: get_data_def try_items_value shm_queue_def)
next
  case 5 then show ?case by (rule get_data_front)
qed

section \<open>The monitor\<close>

text \<open>The fill level is told from the two indices alone, so a full ring reads as an empty one.\<close>

lemma monitor_count_value:
  assumes "shm_holds sh xs"
  shows "monitor_count sh = length xs mod BUFFER_CAPACITY"
proof -
  have r: "ring BUFFER_CAPACITY (cells sh) (write_index sh) (read_index sh) xs" and c: "capacity sh = BUFFER_CAPACITY"
    using assms by (simp_all add: shm_holds_def)
  have b: "read_index sh < 128" "length xs \<le> 128" and w: "write_index sh = (read_index sh + length xs) mod 128"
    using r by (simp_all add: ring_def BUFFER_CAPACITY_def)
  have "write_index sh = (if read_index sh + length xs < 128 then read_index sh + length xs
      else if length xs = 128 then read_index sh else read_index sh + length xs - 128)"
    using b unfolding w by (auto simp: mod_if)
  then show ?thesis using b by (auto simp: monitor_count_def c BUFFER_CAPACITY_def)
qed

lemma monitor_full_reads_empty:
  assumes "shm_holds sh xs" and "length xs = BUFFER_CAPACITY"
  shows "monitor_latest sh = None" and "monitor_count sh = 0" and "\<not> monitor_warns sh"
proof -
  have "write_index sh = read_index sh" using assms ring_full_head by (auto simp: shm_holds_def)
  then show "monitor_latest sh = None" and z: "monitor_count sh = 0" by (simp_all add: monitor_latest_def monitor_count_def)
  then show "\<not> monitor_warns sh" by (simp add: monitor_warns_def)
qed

lemma monitor_latest_value:
  assumes h: "shm_holds sh xs" and xs: "xs \<noteq> []" "length xs < BUFFER_CAPACITY"
  shows "monitor_latest sh = Some (last xs)"
proof -
  have r: "ring BUFFER_CAPACITY (cells sh) (write_index sh) (read_index sh) xs" and c: "capacity sh = BUFFER_CAPACITY"
    using h by (simp_all add: shm_holds_def)
  have b: "read_index sh < 128" and l: "length xs < 128" "0 < length xs" and w: "write_index sh = (read_index sh + length xs) mod 128"
    using r xs by (simp_all add: ring_def BUFFER_CAPACITY_def)
  have "cells sh ! ((read_index sh + (length xs - 1)) mod 128) = xs ! (length xs - 1)"
    using r l by (simp add: ring_def BUFFER_CAPACITY_def)
  moreover have "(read_index sh + (length xs - 1)) mod 128 = (if write_index sh = 0 then 127 else write_index sh - 1)"
    and "read_index sh \<noteq> write_index sh"
    using b l unfolding w by (cases "length xs"; auto simp: mod_if)+
  ultimately show ?thesis using xs by (simp add: monitor_latest_def c BUFFER_CAPACITY_def last_conv_nth split: if_splits)
qed

text \<open>The controller only ever asks for one of the first three commands.\<close>

lemma controller_commands: "msq_type (fst (controller_message pid count)) \<in> {1, 2, 3}"
  by (simp add: controller_message_def) presburger

section \<open>Property\<close>

text \<open>
  C16. Whatever the commands of any number of threads do to the shared ring, and however their
  semaphore calls and critical sections interleave, the readings stored are those taken followed by
  those in the ring, in order; no thread runs into an access outside the array or a full
  or empty ring; and once every thread has finished, the two semaphores count the readings and the
  free cells exactly, so that none is ever lost to a store or a take that raced with another.
\<close>

theorem hub_ring_correct:
  assumes "hub_reach hb cb n h"
  shows "\<exists>xs. ring BUFFER_CAPACITY (cells (mem h)) (write_index (mem h)) (read_index (mem h)) xs
    \<and> stored h = taken h @ xs
    \<and> (\<forall>i < length (threads h). thread_next (threads h ! i) (mem h) \<noteq> None)
    \<and> ((\<forall>p \<in> set (threads h). p = Idle) \<longrightarrow>
         items (mem h) = length xs \<and> spaces (mem h) = BUFFER_CAPACITY - length xs)
    \<and> monitor_count (mem h) = length xs mod BUFFER_CAPACITY"
proof -
  obtain xs where h: "hub_holds h xs" using hub_reach_holds [OF assms] by blast
  then have m: "shm_holds (mem h) xs" by (simp add: hub_holds_def)
  have "\<forall>i < length (threads h). thread_next (threads h ! i) (mem h) \<noteq> None" using thread_next_holds [OF h] by fastforce
  moreover have "(\<forall>p \<in> set (threads h). p = Idle) \<longrightarrow> items (mem h) = length xs \<and> spaces (mem h) = BUFFER_CAPACITY - length xs"
    using h by (auto simp: hub_holds_def tally_idle)
  moreover have "ring BUFFER_CAPACITY (cells (mem h)) (write_index (mem h)) (read_index (mem h)) xs" "stored h = taken h @ xs"
    using h by (simp_all add: hub_holds_def shm_holds_def)
  ultimately show ?thesis using monitor_count_value [OF m] by blast
qed

text \<open>A run of two threads that store a reading each, with their actions interleaved.\<close>

definition store_ctrl :: message_queue where
  "store_ctrl = \<lparr>msq_type = 2, client_id = 1, message = []\<rparr>"

definition calm :: "int \<Rightarrow> ambient" where
  "calm k = \<lparr>now = 0, rand1 = k, rand2 = k, rand3 = k, intr = False\<rparr>"

definition hub_a :: hub where
  "hub_a = (let h = hub_start 0 0 2; r = thread_start store_ctrl (calm 1) (mem h)
     in h\<lparr>mem := snd r, threads := (threads h)[0 := fst r]\<rparr>)"

definition hub_b :: hub where
  "hub_b = (let r = thread_start store_ctrl (calm 2) (mem hub_a)
     in hub_a\<lparr>mem := snd r, threads := (threads hub_a)[1 := fst r]\<rparr>)"

lemma hub_b_reach: "hub_reach 0 0 2 hub_b"
proof -
  have t: "threads (hub_start 0 0 2) = [Idle, Idle]" by (simp add: hub_start_def numeral_2_eq_2)
  have "hub_step (hub_start 0 0 2) hub_a"
    unfolding hub_a_def Let_def
    by (rule hub_step.command [of 0 _ store_ctrl "calm 1"]) (simp_all add: t)
  moreover have "hub_step hub_a hub_b"
    unfolding hub_b_def Let_def
    by (rule hub_step.command [of 1 _ store_ctrl "calm 2"]) (simp_all add: hub_a_def Let_def t)
  ultimately show ?thesis using hub_reach.start hub_reach.step by blast
qed

theorem hub_ring_correct_witness:
  "hub_reach 0 0 2 hub_b \<and> threads hub_b = [Write (dummy_data store_ctrl (calm 1)), Write (dummy_data store_ctrl (calm 2))] \<and>
   spaces (mem hub_b) = 126 \<and> (\<exists>xs. stored hub_b = taken hub_b @ xs \<and>
     (\<forall>i < length (threads hub_b). thread_next (threads hub_b ! i) (mem hub_b) \<noteq> None))"
proof (intro conjI)
  show "hub_reach 0 0 2 hub_b" by (rule hub_b_reach)
  have z: "spaces (mem (hub_start 0 0 2)) = 128" "threads (hub_start 0 0 2) = [Idle, Idle]"
    using hub_start_holds [of 0 0 2] by (simp_all add: hub_holds_def hub_start_def hub_consts tally_idle numeral_2_eq_2)
  show "threads hub_b = [Write (dummy_data store_ctrl (calm 1)), Write (dummy_data store_ctrl (calm 2))]" "spaces (mem hub_b) = 126"
    by (simp_all add: hub_b_def hub_a_def Let_def thread_start_def store_ctrl_def try_spaces_value calm_def z)
  show "\<exists>xs. stored hub_b = taken hub_b @ xs \<and> (\<forall>i < length (threads hub_b). thread_next (threads hub_b ! i) (mem hub_b) \<noteq> None)"
    using hub_ring_correct [OF hub_b_reach] by blast
qed

end
