(* ===== verification/Sysv_Hub.thy ===== *)
theory Sysv_Hub
  imports Ring
begin

text \<open>
  The sensor hub on System V IPC (\<open>system-V-ipc-sensorhub\<close>): the helpers that create or reuse the
  message queue, the semaphore and the shared memory, the shared ring of readings (one cell of which
  always stays empty), the controller, and the writer with its queue of 64 commands and its workers.
  Every section under the semaphore or the mutex is one step. Answers of the system calls, the clock
  and \<open>rand\<close> are arguments; a process that calls \<open>exit\<close> gives \<open>Exits\<close>.
\<close>

section \<open>Data\<close>

definition CAP_DEFAULT :: nat where "CAP_DEFAULT = 10"
definition CAP_SHM :: nat where "CAP_SHM = 20"
definition SV_MAGIC :: u32 where "SV_MAGIC = 0x20213026"
definition SV_VERSION :: u32 where "SV_VERSION = 1"
definition QUEUE_SIZE :: nat where "QUEUE_SIZE = 64"
definition MAX_ENTRIES :: nat where "MAX_ENTRIES = 10"

lemmas sysv_consts = CAP_DEFAULT_def CAP_SHM_def SV_MAGIC_def SV_VERSION_def QUEUE_SIZE_def MAX_ENTRIES_def

datatype sv_errno = EINTR | EEXIST | EPERM | EOTHER

datatype 'a sys = Ret 'a | Fail sv_errno

datatype 'a outcome = Returns 'a | Exits

record message =
  msg_id :: int
  msg_text :: bytes

record message_control =
  mtype :: int
  mdata :: message

record sensor_data =
  id_sensor :: int
  sdata :: message
  humidity :: int
  flux :: int
  moisture :: int
  motion :: bool
  timestamp :: u64

record shm_header =
  magic :: u32
  version :: u32
  total_size :: u32
  header_size :: u32
  flags :: u32
  reserved :: u32

record shm_data =
  hdr :: shm_header
  capacity :: nat
  read_index :: nat
  write_index :: nat
  dropped :: u32
  cells :: "sensor_data list"

definition zero_sensor :: sensor_data where
  "zero_sensor = \<lparr>id_sensor = 0, sdata = \<lparr>msg_id = 0, msg_text = []\<rparr>, humidity = 0, flux = 0, moisture = 0,
     motion = False, timestamp = 0\<rparr>"

section \<open>Keys and identifiers\<close>

definition create_key :: "bool \<Rightarrow> int \<Rightarrow> int \<Rightarrow> int" where
  "create_key path_null i ftok = (if path_null \<or> i = 0 then -1 else ftok)"

text \<open>\<open>ftok\<close> of the three project letters.\<close>

definition create_key_all :: "int \<Rightarrow> int \<Rightarrow> int \<Rightarrow> int \<times> int list" where
  "create_key_all k_shm k_msq k_sem =
     (let shm = create_key False 77 k_shm; msq = create_key False 81 k_msq; sem = create_key False 83 k_sem
      in if shm < 0 then (-1, [shm])
         else if msq < 0 then (-1, [shm, msq])
         else if sem < 0 then (-1, [shm, msq, sem])
         else (0, [shm, msq, sem]))"

definition is_pid_alive :: "int \<Rightarrow> unit sys \<Rightarrow> bool" where
  "is_pid_alive pid killed = (if pid \<le> 0 then False else case killed of Ret _ \<Rightarrow> True | Fail e \<Rightarrow> e = EPERM)"

text \<open>
  \<open>get_msq\<close>: \<open>created\<close> answers the exclusive \<open>msgget\<close>, \<open>old\<close> the plain one. The second component is
  the new value of \<open>exist\<close>.
\<close>

definition get_msq :: "int \<Rightarrow> int \<Rightarrow> int sys \<Rightarrow> int \<Rightarrow> bool \<Rightarrow> (int \<times> bool) outcome" where
  "get_msq key msgflag created old exist =
     (if key = 0 \<or> msgflag = 0 then Returns (-1, exist)
      else case created of
        Ret i \<Rightarrow> Returns (i, exist)
      | Fail e \<Rightarrow> if e = EEXIST then Returns (old, True) else Exits)"

definition sem_is_stale :: "int \<Rightarrow> int \<Rightarrow> unit sys \<Rightarrow> bool" where
  "sem_is_stale val last_pid killed =
     (if val < 0 then True
      else if val \<noteq> 0 then False
      else \<not> (last_pid > 0 \<and> is_pid_alive last_pid killed))"

text \<open>Whether \<open>get_sem\<close> removes the semaphore it finds under the key.\<close>

definition sem_removed :: "bool \<Rightarrow> int \<Rightarrow> int \<Rightarrow> int \<Rightarrow> unit sys \<Rightarrow> bool" where
  "sem_removed force_reset old val last_pid killed =
     (if force_reset then old \<ge> 0 else old \<ge> 0 \<and> sem_is_stale val last_pid killed)"

text \<open>
  \<open>get_sem\<close>: a new semaphore is set and touched once (\<open>setup\<close> says whether \<open>semctl\<close> and \<open>semop\<close>
  work); an existing one is waited for until its operation time is set, ten times at most.
\<close>

fun wait_otime :: "nat \<Rightarrow> nat list \<Rightarrow> bool" where
  "wait_otime 0 ts = False"
| "wait_otime (Suc k) [] = False"
| "wait_otime (Suc k) (t # ts) = (if t \<noteq> 0 then True else wait_otime k ts)"

definition get_sem :: "int \<Rightarrow> int \<Rightarrow> int sys \<Rightarrow> bool \<Rightarrow> bool \<Rightarrow> int \<Rightarrow> nat list \<Rightarrow> int outcome" where
  "get_sem key msgflag created setup dummy old otimes =
     (if key = 0 \<or> msgflag = 0 then Exits
      else case created of
        Ret i \<Rightarrow> (if \<not> setup then Returns (-1) else if \<not> dummy then Returns (-1) else Returns i)
      | Fail e \<Rightarrow> if e \<noteq> EEXIST then Exits
          else if wait_otime MAX_ENTRIES otimes then Returns old else Exits)"

definition shm_is_stale :: "(nat \<times> int \<times> int) option \<Rightarrow> unit sys \<Rightarrow> bool" where
  "shm_is_stale ds killed = (case ds of
     None \<Rightarrow> True
   | Some (nattch, lpid, cpid) \<Rightarrow>
       if nattch > 0 then False
       else \<not> is_pid_alive (if lpid > 0 then lpid else cpid) killed)"

definition shm_removed :: "bool \<Rightarrow> int \<Rightarrow> (nat \<times> int \<times> int) option \<Rightarrow> unit sys \<Rightarrow> bool" where
  "shm_removed force_reset old ds killed = (old \<ge> 0 \<and> (force_reset \<or> shm_is_stale ds killed))"

definition get_shmem :: "int \<Rightarrow> int \<Rightarrow> nat \<Rightarrow> int sys \<Rightarrow> int \<Rightarrow> bool \<Rightarrow> (int \<times> bool) outcome" where
  "get_shmem key shmflag bytes created old exist =
     (if key \<le> 0 \<or> shmflag \<le> 0 \<or> bytes = 0 then Returns (-1, exist)
      else case created of
        Ret i \<Rightarrow> Returns (i, exist)
      | Fail e \<Rightarrow> if e = EEXIST then (if old > 0 then Returns (old, True) else Returns (-1, exist)) else Exits)"

text \<open>
  One flag \<open>exist\<close> serves the message queue and the shared memory. \<open>head_bytes\<close> and \<open>cell_bytes\<close> are
  the sizes of the header and of one reading.
\<close>

definition get_id_all ::
  "nat \<Rightarrow> nat \<Rightarrow> int \<Rightarrow> int \<Rightarrow> int \<Rightarrow> int sys \<Rightarrow> int \<Rightarrow> int sys \<Rightarrow> int \<Rightarrow> int sys \<Rightarrow> bool \<Rightarrow> bool \<Rightarrow> int \<Rightarrow> nat list \<Rightarrow>
     (int \<times> int \<times> int \<times> int) outcome" where
  "get_id_all head_bytes cell_bytes shm_key msq_key sem_key msq_new msq_old shm_new shm_old sem_new setup dummy sem_old otimes =
     (case get_msq msq_key 438 msq_new msq_old False of
        Exits \<Rightarrow> Exits
      | Returns (msq, exist) \<Rightarrow>
          if msq < 0 \<and> \<not> exist then Returns (-1, msq, 0, 0)
          else (case get_shmem shm_key 438 (head_bytes + CAP_SHM * cell_bytes) shm_new shm_old exist of
            Exits \<Rightarrow> Exits
          | Returns (shm, exist2) \<Rightarrow>
              if shm < 0 \<and> \<not> exist2 then Returns (-1, msq, shm, 0)
              else (case get_sem sem_key 438 sem_new setup dummy sem_old otimes of
                Exits \<Rightarrow> Exits
              | Returns sem \<Rightarrow> if sem < 0 then Returns (-1, msq, shm, sem) else Returns (0, msq, shm, sem))))"

definition cleaning :: "bool \<Rightarrow> bool \<Rightarrow> bool \<Rightarrow> int" where
  "cleaning shm_ok msq_ok sem_ok = (if \<not> shm_ok then -1 else if \<not> msq_ok then -1 else if \<not> sem_ok then -1 else 0)"

text \<open>When an old message queue is found, a failure to get the shared memory goes unnoticed.\<close>

lemma get_id_all_hides_failure:
  assumes "0 < shm_key" and "msq_key \<noteq> 0" and "sem_key \<noteq> 0"
  shows "get_id_all hb cb shm_key msq_key sem_key (Fail EEXIST) q (Fail EEXIST) 0 (Ret 7) True True 0 [] = Returns (0, q, -1, 7)"
  using assms by (simp add: get_id_all_def get_msq_def get_shmem_def get_sem_def)

section \<open>The shared ring\<close>

text \<open>\<open>sem_lock\<close> answers whether \<open>semop\<close> works; without the lock nothing happens.\<close>

definition init_shmem :: "int \<Rightarrow> bool \<Rightarrow> bool \<Rightarrow> nat \<Rightarrow> nat \<Rightarrow> nat \<Rightarrow> shm_data \<Rightarrow> int \<times> shm_data" where
  "init_shmem semid locked unlocked head_bytes cell_bytes cap sh =
     (if semid \<ge> 0 \<and> \<not> locked then (-1, sh)
      else
        let c = (if capacity sh = 0 then (if cap \<noteq> 0 then cap else CAP_DEFAULT) else capacity sh);
            h = (hdr sh)\<lparr>magic := SV_MAGIC, version := SV_VERSION, header_size := 24, flags := 0, reserved := 0,
                  total_size := word_of_nat (head_bytes + c * cell_bytes)\<rparr>;
            sh1 = (if magic (hdr sh) \<noteq> SV_MAGIC
              then sh\<lparr>hdr := h, capacity := c, read_index := 0, write_index := 0, dropped := 0,
                      cells := replicate c zero_sensor @ drop c (cells sh)\<rparr>
              else sh)
        in (if semid \<ge> 0 \<and> \<not> unlocked then -1 else 0, sh1))"

definition cmd_to_string :: "int \<Rightarrow> string" where
  "cmd_to_string cmd =
     (if cmd = 1 then ''GET_DATA'' else if cmd = 2 then ''STORAGE_DATA'' else if cmd = 3 then ''GET_STATUS''
      else if cmd = 4 then ''LOW_ENERY'' else if cmd = 5 then ''SHUTDOWN'' else ''UNKNOWN'')"

definition next_index :: "shm_data \<Rightarrow> nat \<Rightarrow> nat" where
  "next_index sh i = ((i + 1) mod 2 ^ 32) mod capacity sh"

text \<open>\<open>None\<close> is undefined behaviour: a capacity of zero, or a cell outside the array.\<close>

definition get_data :: "bool \<Rightarrow> shm_data \<Rightarrow> (sensor_data option \<times> shm_data) option" where
  "get_data locked sh =
     (if \<not> locked then Some (None, sh)
      else if read_index sh \<noteq> write_index sh then
        (if capacity sh = 0 \<or> length (cells sh) \<le> read_index sh then None
         else Some (Some (cells sh ! read_index sh), sh\<lparr>read_index := next_index sh (read_index sh)\<rparr>))
      else Some (None, sh))"

definition storage_data :: "bool \<Rightarrow> sensor_data \<Rightarrow> shm_data \<Rightarrow> (bool \<times> shm_data) option" where
  "storage_data locked d sh =
     (if \<not> locked then Some (False, sh)
      else if capacity sh = 0 then None
      else let next_write = next_index sh (write_index sh)
           in if next_write \<noteq> read_index sh then
                (if length (cells sh) \<le> write_index sh then None
                 else Some (True, sh\<lparr>cells := (cells sh)[write_index sh := d], write_index := next_write\<rparr>))
              else Some (False, sh\<lparr>dropped := dropped sh + 1\<rparr>))"

definition print_status :: "bool \<Rightarrow> shm_data \<Rightarrow> (nat \<times> nat \<times> nat \<times> u32) option" where
  "print_status locked sh = (if locked then Some (capacity sh, read_index sh, write_index sh, dropped sh) else None)"

record ambient =
  now :: u64
  pid :: int
  rand1 :: int
  rand2 :: int
  rand3 :: int
  locked :: bool

definition random_update_sensor :: "sensor_data \<Rightarrow> int \<Rightarrow> ambient \<Rightarrow> sensor_data" where
  "random_update_sensor s i a =
     s\<lparr>timestamp := now a, id_sensor := i,
       sdata := \<lparr>msg_id = i, msg_text = take 127 (ascii ''Message from sensor id: '' @ dec_text i @ ascii '', pid: '' @ dec_text (pid a))\<rparr>,
       flux := rand1 a mod 1000, humidity := rand2 a mod 100, moisture := rand3 a mod 100, motion := True\<rparr>"

definition handle_command :: "message_control \<Rightarrow> ambient \<Rightarrow> shm_data \<Rightarrow> (string \<times> shm_data) option" where
  "handle_command ctrl a sh =
     (if mtype ctrl = 1 then map_option (\<lambda>(d, sh1). (cmd_to_string 1, sh1)) (get_data (locked a) sh)
      else if mtype ctrl = 2 then
        map_option (\<lambda>(b, sh1). (cmd_to_string 2, sh1)) (storage_data (locked a) (random_update_sensor zero_sensor 101 a) sh)
      else Some (cmd_to_string (mtype ctrl), sh))"

section \<open>Controller\<close>

text \<open>
  Round \<open>count\<close> of the controller: it sends \<open>count mod 5\<close> and counts from one to four. A failed
  send keeps the count.
\<close>

definition controller_round :: "int \<Rightarrow> bool \<Rightarrow> bool \<Rightarrow> int \<Rightarrow> (message_control option \<times> int) option" where
  "controller_round own_pid running sent count =
     (if \<not> running then None
      else let m = \<lparr>mtype = count mod 5, mdata = \<lparr>msg_id = own_pid, msg_text = ascii (cmd_to_string (count mod 5))\<rparr>\<rparr>
           in if \<not> sent then Some (None, count)
              else Some (Some m, if count + 1 = 5 then 1 else count + 1))"

definition controller_sig_thread :: "int \<Rightarrow> int \<Rightarrow> (message_control \<times> bool) option" where
  "controller_sig_thread own_pid sig =
     (if sig = 15 \<or> sig = 2
      then Some (\<lparr>mtype = 5, mdata = \<lparr>msg_id = own_pid, msg_text = ascii (cmd_to_string 5)\<rparr>\<rparr>, False)
      else None)"

text \<open>Every message of the controller is a valid command other than \<open>SHUTDOWN\<close>.\<close>

lemma controller_round_commands:
  assumes "1 \<le> count" and "count \<le> 4" and "controller_round p running sent count = Some (m, count')"
  shows "1 \<le> count' \<and> count' \<le> 4 \<and> (case m of None \<Rightarrow> True | Some c \<Rightarrow> mtype c = count)"
  using assms by (auto simp: controller_round_def Let_def split: if_splits)

section \<open>Writer\<close>

record thread_data =
  td_head :: nat
  td_tail :: nat
  td_count :: nat
  td_ctrl :: "message_control list"
  td_running :: bool

text \<open>
  The main thread of the writer: before it looks at \<open>is_running\<close>, in \<open>msgrcv\<close>, with a command it
  wants to queue, or out of its loop.
\<close>

datatype main_pc = Looping | Receiving | Queueing message_control | Leaving

record writer =
  td :: thread_data
  main :: main_pc
  busy :: "message_control list"
  ring_mem :: shm_data
  accepted :: "message_control list"
  handed :: "message_control list"
  overrun :: bool

text \<open>
  \<open>accepted\<close> and \<open>handed\<close> record the commands queued and taken by the workers, \<open>overrun\<close> whether a
  command was queued although the queue was full; they are not part of the program.
\<close>

definition queue_command :: "message_control \<Rightarrow> thread_data \<Rightarrow> thread_data" where
  "queue_command c t = t\<lparr>td_ctrl := (td_ctrl t)[td_tail t := c], td_tail := (td_tail t + 1) mod QUEUE_SIZE,
     td_count := td_count t + 1\<rparr>"

text \<open>The main loop, with what \<open>msgrcv\<close> answers. It stays where it is while it waits for room.\<close>

definition main_step :: "message_control sys \<Rightarrow> writer \<Rightarrow> writer" where
  "main_step rcv w = (case main w of
     Looping \<Rightarrow> w\<lparr>main := if td_running (td w) then Receiving else Leaving\<rparr>
   | Receiving \<Rightarrow> (case rcv of
       Fail _ \<Rightarrow> w\<lparr>main := Looping\<rparr>
     | Ret c \<Rightarrow> if mtype c = 5 then w\<lparr>td := (td w)\<lparr>td_running := False\<rparr>, main := Leaving\<rparr>
                else w\<lparr>main := Queueing c\<rparr>)
   | Queueing c \<Rightarrow>
       if td_count (td w) = QUEUE_SIZE \<and> td_running (td w) then w
       else w\<lparr>td := queue_command c (td w), main := Looping, accepted := accepted w @ [c],
              overrun := (overrun w \<or> td_count (td w) = QUEUE_SIZE)\<rparr>
   | Leaving \<Rightarrow> w\<lparr>td := (td w)\<lparr>td_running := False\<rparr>\<rparr>)"

datatype worker_outcome = Waits | Ends | Takes message_control

definition worker_take :: "thread_data \<Rightarrow> worker_outcome \<times> thread_data" where
  "worker_take t =
     (if td_count t = 0 \<and> td_running t then (Waits, t)
      else if \<not> td_running t \<and> td_count t = 0 then (Ends, t)
      else (Takes (td_ctrl t ! td_head t), t\<lparr>td_count := td_count t - 1, td_head := (td_head t + 1) mod QUEUE_SIZE\<rparr>))"

definition writer_sig_thread :: "int \<Rightarrow> thread_data \<Rightarrow> thread_data option" where
  "writer_sig_thread sig t = (if sig = 15 \<or> sig = 2 then Some (t\<lparr>td_running := False\<rparr>) else None)"

definition system_configuration :: "message_control list \<Rightarrow> thread_data" where
  "system_configuration cs = \<lparr>td_head = 0, td_tail = 0, td_count = 0, td_ctrl = cs, td_running = True\<rparr>"

definition zero_shm :: shm_data where
  "zero_shm = \<lparr>hdr = \<lparr>magic = 0, version = 0, total_size = 0, header_size = 0, flags = 0, reserved = 0\<rparr>,
     capacity = 0, read_index = 0, write_index = 0, dropped = 0, cells = replicate CAP_SHM zero_sensor\<rparr>"

text \<open>\<open>cs\<close> is what the stack holds where the queue of commands lies.\<close>

definition writer_start :: "nat \<Rightarrow> nat \<Rightarrow> message_control list \<Rightarrow> writer" where
  "writer_start hb cb cs = \<lparr>td = system_configuration cs, main = Looping, busy = [],
     ring_mem = snd (init_shmem 0 True True hb cb CAP_SHM zero_shm), accepted = [], handed = [], overrun = False\<rparr>"

text \<open>
  The steps of the writer's threads, in any order; \<open>monitor\<close> is the step of the monitor process,
  which takes readings from the same memory, and \<open>reinit\<close> another program that attaches to it.
\<close>

inductive writer_step :: "writer \<Rightarrow> writer \<Rightarrow> bool" where
  main: "writer_step w (main_step rcv w)"
| take: "worker_take (td w) = (Takes c, t) \<Longrightarrow>
    writer_step w (w\<lparr>td := t, busy := c # busy w, handed := handed w @ [c]\<rparr>)"
| handle: "c \<in> set (busy w) \<Longrightarrow> handle_command c a (ring_mem w) = Some (s, sh) \<Longrightarrow>
    writer_step w (w\<lparr>busy := remove1 c (busy w), ring_mem := sh\<rparr>)"
| signal: "writer_sig_thread sig (td w) = Some t \<Longrightarrow> writer_step w (w\<lparr>td := t\<rparr>)"
| monitor: "get_data l (ring_mem w) = Some (d, sh) \<Longrightarrow> writer_step w (w\<lparr>ring_mem := sh\<rparr>)"
| reinit: "init_shmem k l u hb cb n (ring_mem w) = (r, sh) \<Longrightarrow> writer_step w (w\<lparr>ring_mem := sh\<rparr>)"

inductive writer_reach :: "nat \<Rightarrow> nat \<Rightarrow> message_control list \<Rightarrow> writer \<Rightarrow> bool" for hb cb cs where
  start: "writer_reach hb cb cs (writer_start hb cb cs)"
| step: "writer_reach hb cb cs w \<Longrightarrow> writer_step w w' \<Longrightarrow> writer_reach hb cb cs w'"

section \<open>The shared ring as a queue\<close>

text \<open>One cell stays empty, so that equal indices mean an empty ring.\<close>

definition sv_holds :: "shm_data \<Rightarrow> sensor_data list \<Rightarrow> bool" where
  "sv_holds sh xs = (magic (hdr sh) = SV_MAGIC \<and> capacity sh = CAP_SHM \<and> length xs < CAP_SHM \<and>
     ring CAP_SHM (cells sh) (write_index sh) (read_index sh) xs)"

lemma sv_next_index: "capacity sh = CAP_SHM \<Longrightarrow> i < CAP_SHM \<Longrightarrow> next_index sh i = Suc i mod CAP_SHM"
  by (simp add: next_index_def CAP_SHM_def)

lemma sv_values:
  assumes "sv_holds sh xs"
  shows "capacity sh = CAP_SHM" and "ring CAP_SHM (cells sh) (write_index sh) (read_index sh) xs"
    and "write_index sh < CAP_SHM" and "read_index sh < CAP_SHM" and "length (cells sh) = CAP_SHM" and "length xs < CAP_SHM"
  using assms ring_bounds [of CAP_SHM "cells sh" "write_index sh" "read_index sh" xs] by (auto simp: sv_holds_def)

text \<open>The indices tell an empty ring and a full one from every other.\<close>

lemma sv_empty: "sv_holds sh xs \<Longrightarrow> read_index sh = write_index sh \<longleftrightarrow> xs = []"
  using sv_values [of sh xs] ring_head_value [of CAP_SHM "cells sh" "write_index sh" "read_index sh" xs]
  by (auto simp: CAP_SHM_def split: if_splits)

lemma sv_full: "sv_holds sh xs \<Longrightarrow> Suc (write_index sh) mod CAP_SHM = read_index sh \<longleftrightarrow> length xs = CAP_SHM - 1"
  using sv_values [of sh xs] ring_head_value [of CAP_SHM "cells sh" "write_index sh" "read_index sh" xs]
  by (auto simp: CAP_SHM_def mod_Suc split: if_splits)

lemma sv_store_room:
  assumes h: "sv_holds sh xs" and room: "length xs < CAP_SHM - 1"
  shows "\<exists>sh'. storage_data True d sh = Some (True, sh') \<and> sv_holds sh' (xs @ [d])"
proof -
  note v = sv_values [OF h]
  have n: "next_index sh (write_index sh) \<noteq> read_index sh"
    using sv_full [OF h] room by (simp add: sv_next_index [OF v(1,3)])
  have "ring CAP_SHM ((cells sh)[write_index sh := d]) (Suc (write_index sh) mod CAP_SHM) (read_index sh) (xs @ [d])"
    using ring_put [OF v(2) v(6)] .
  then show ?thesis
    using n v h room by (simp add: storage_data_def Let_def sv_holds_def sv_next_index)
qed

lemma sv_store_full:
  assumes h: "sv_holds sh xs" and full: "length xs = CAP_SHM - 1"
  shows "\<exists>sh'. storage_data True d sh = Some (False, sh') \<and> sv_holds sh' xs"
proof -
  note v = sv_values [OF h]
  have "next_index sh (write_index sh) = read_index sh"
    using sv_full [OF h] full by (simp add: sv_next_index [OF v(1,3)])
  then show ?thesis using v h by (simp add: storage_data_def Let_def sv_holds_def)
qed

lemma sv_get_front:
  assumes h: "sv_holds sh (d # xs)"
  shows "\<exists>sh'. get_data True sh = Some (Some d, sh') \<and> sv_holds sh' xs"
proof -
  note v = sv_values [OF h]
  have n: "read_index sh \<noteq> write_index sh" using sv_empty [OF h] by simp
  show ?thesis
    using n v h ring_get [OF v(2)] by (simp add: get_data_def sv_holds_def sv_next_index)
qed

interpretation sv_readings: bounded_fifo sv_holds "CAP_SHM - 1" "\<lambda>d sh. True" "\<lambda>d. d" "storage_data True" "get_data True"
proof (unfold_locales, goal_cases)
  case (1 sh xs) then show ?case using sv_values(6) [of sh xs] by linarith
next
  case 2 then show ?case by (intro sv_store_room)
next
  case 3 then show ?case by (intro sv_store_full)
next
  case (4 sh)
  then show ?case using sv_empty [of sh "[]"] by (simp add: get_data_def)
next
  case 5 then show ?case by (rule sv_get_front)
qed

text \<open>A command keeps the ring, whatever the lock answers.\<close>

lemma get_data_keeps:
  assumes h: "sv_holds sh xs"
  shows "\<exists>d sh' ys. get_data l sh = Some (d, sh') \<and> sv_holds sh' ys"
proof (cases "l \<and> xs \<noteq> []")
  case True
  then obtain d ys where "xs = d # ys" by (cases xs) auto
  then show ?thesis using True sv_get_front [of sh d ys] h by auto
next
  case False
  then have "get_data l sh = Some (None, sh)" using sv_empty [OF h] by (auto simp: get_data_def)
  then show ?thesis using h by simp blast
qed

lemma storage_data_keeps:
  assumes "sv_holds sh xs"
  shows "\<exists>b sh' ys. storage_data l d sh = Some (b, sh') \<and> sv_holds sh' ys"
proof (cases l)
  case True
  have "length xs < CAP_SHM - 1 \<or> length xs = CAP_SHM - 1" using sv_values(6) [OF assms] by linarith
  then show ?thesis using True sv_store_room [OF assms, of d] sv_store_full [OF assms, of d] by auto
next
  case False
  then show ?thesis using assms by (auto simp: storage_data_def)
qed

lemma handle_command_keeps:
  assumes "sv_holds sh xs"
  shows "\<exists>s sh' ys. handle_command c a sh = Some (s, sh') \<and> sv_holds sh' ys"
  using get_data_keeps [OF assms, of "locked a"] storage_data_keeps [OF assms, of "locked a" "random_update_sensor zero_sensor 101 a"] assms
  by (auto simp: handle_command_def)

lemma init_shmem_keeps: "sv_holds sh xs \<Longrightarrow> init_shmem k l u hb cb n sh = (r, sh') \<Longrightarrow> sv_holds sh' xs"
  by (auto simp: init_shmem_def sv_holds_def Let_def split: if_splits)

lemma init_shmem_start: "sv_holds (snd (init_shmem 0 True True hb cb CAP_SHM zero_shm)) []"
  by (simp add: init_shmem_def sv_holds_def Let_def zero_shm_def sysv_consts ring_def)

section \<open>The invariant of the writer\<close>

definition td_holds :: "thread_data \<Rightarrow> message_control list \<Rightarrow> bool" where
  "td_holds t xs = (ring QUEUE_SIZE (td_ctrl t) (td_tail t) (td_head t) xs \<and> td_count t = length xs)"

definition td_bounds :: "thread_data \<Rightarrow> bool" where
  "td_bounds t = (length (td_ctrl t) = QUEUE_SIZE \<and> td_tail t < QUEUE_SIZE \<and> td_head t < QUEUE_SIZE)"

definition writer_inv :: "writer \<Rightarrow> bool" where
  "writer_inv w = ((\<exists>rs. sv_holds (ring_mem w) rs) \<and> td_bounds (td w) \<and>
     (td_running (td w) \<longrightarrow> \<not> overrun w) \<and>
     (\<not> overrun w \<longrightarrow> (\<exists>xs. td_holds (td w) xs \<and> accepted w = handed w @ xs)))"

lemma td_holds_running [simp]: "td_holds (t\<lparr>td_running := b\<rparr>) xs = td_holds t xs" "td_bounds (t\<lparr>td_running := b\<rparr>) = td_bounds t"
  by (simp_all add: td_holds_def td_bounds_def)

lemma queue_command_running [simp]: "td_running (queue_command c t) = td_running t"
  by (simp add: queue_command_def)

lemma queue_command_bounds: "td_bounds t \<Longrightarrow> td_bounds (queue_command c t)"
  by (simp add: td_bounds_def queue_command_def QUEUE_SIZE_def)

lemma queue_command_holds:
  assumes "td_holds t xs" and "td_count t \<noteq> QUEUE_SIZE"
  shows "td_holds (queue_command c t) (xs @ [c])"
proof -
  have r: "ring QUEUE_SIZE (td_ctrl t) (td_tail t) (td_head t) xs" and l: "length xs < QUEUE_SIZE"
    using assms by (auto simp: td_holds_def ring_def)
  then show ?thesis using ring_put [OF r l, of c] assms(1) by (simp add: td_holds_def queue_command_def)
qed

lemma worker_take_holds:
  assumes t: "td_holds t xs" and e: "worker_take t = (Takes c, t')"
  shows "\<exists>ys. xs = c # ys \<and> td_holds t' ys"
proof -
  have n: "td_count t \<noteq> 0" using e by (auto simp: worker_take_def split: if_splits)
  then obtain x ys where xs: "xs = x # ys" using t by (cases xs) (auto simp: td_holds_def)
  have r: "ring QUEUE_SIZE (td_ctrl t) (td_tail t) (td_head t) (x # ys)" using t xs by (simp add: td_holds_def)
  have "c = x" and "td_holds t' ys" using e n t ring_get [OF r] by (auto simp: worker_take_def td_holds_def xs)
  then show ?thesis using xs by simp
qed

lemma main_step_inv:
  assumes i: "writer_inv w"
  shows "writer_inv (main_step rcv w)"
proof (cases "main w")
  case (Queueing c)
  show ?thesis
  proof (cases "td_count (td w) = QUEUE_SIZE")
    case True
    then show ?thesis using i Queueing queue_command_bounds [of "td w" c]
      by (auto simp: main_step_def writer_inv_def)
  next
    case False
    have o: "\<exists>ys. td_holds (queue_command c (td w)) ys \<and> accepted w @ [c] = handed w @ ys" if "\<not> overrun w"
      using i that queue_command_holds [OF _ False, of _ c] by (fastforce simp: writer_inv_def)
    then show ?thesis using False i Queueing queue_command_bounds o
      by (simp add: main_step_def writer_inv_def)
  qed
qed (use i in \<open>auto simp: main_step_def writer_inv_def split: sys.splits\<close>)

lemma writer_step_inv:
  assumes "writer_step w w'" and "writer_inv w"
  shows "writer_inv w'"
  using assms
proof (induction rule: writer_step.induct)
  case (main w rcv)
  then show ?case by (rule main_step_inv)
next
  case (take w c t)
  have b: "td_bounds t" "td_running t = td_running (td w)"
    using take by (auto simp: writer_inv_def worker_take_def td_bounds_def QUEUE_SIZE_def split: if_splits)
  have "\<exists>ys. td_holds t ys \<and> accepted w = (handed w @ [c]) @ ys" if "\<not> overrun w"
    using take that worker_take_holds [OF _ take.hyps] by (fastforce simp: writer_inv_def)
  then show ?case using b take by (simp add: writer_inv_def)
next
  case (handle c w a s sh)
  obtain rs where "sv_holds (ring_mem w) rs" using handle.prems by (auto simp: writer_inv_def)
  then show ?case using handle_command_keeps [of "ring_mem w" rs c a] handle by (auto simp: writer_inv_def)
next
  case (signal sig w t)
  then show ?case by (auto simp: writer_sig_thread_def writer_inv_def split: if_splits)
next
  case (monitor l w d sh)
  obtain rs where "sv_holds (ring_mem w) rs" using monitor.prems by (auto simp: writer_inv_def)
  then show ?case using get_data_keeps [of "ring_mem w" rs l] monitor by (auto simp: writer_inv_def)
next
  case (reinit k l u hb cb n w r sh)
  obtain rs where "sv_holds (ring_mem w) rs" using reinit.prems by (auto simp: writer_inv_def)
  then have "sv_holds sh rs" using init_shmem_keeps reinit.hyps by blast
  then show ?case using reinit.prems by (auto simp: writer_inv_def)
qed

lemma writer_reach_inv:
  assumes "writer_reach hb cb cs w" and "length cs = QUEUE_SIZE"
  shows "writer_inv w"
  using assms
proof (induction rule: writer_reach.induct)
  case start
  then show ?case using init_shmem_start [of hb cb]
    by (auto simp: writer_inv_def writer_start_def system_configuration_def td_bounds_def td_holds_def QUEUE_SIZE_def ring_def)
next
  case (step w w')
  then show ?case using writer_step_inv by blast
qed

section \<open>A full queue at shutdown\<close>

text \<open>
  The main thread waits for room only while the writer runs. When a signal arrives after it entered
  \<open>msgrcv\<close> with a full queue, it overwrites the oldest command and counts one more than there is room.
\<close>

lemma queue_one:
  assumes w: "writer_reach hb cb cs w" and m: "main w = Looping" "td_running (td w)" and h: "td_holds (td w) xs"
    and room: "length xs < QUEUE_SIZE" and c: "mtype c \<noteq> 5"
  shows "\<exists>w'. writer_reach hb cb cs w' \<and> main w' = Looping \<and> td_running (td w') \<and> td_holds (td w') (xs @ [c]) \<and>
    accepted w' = accepted w @ [c] \<and> handed w' = handed w"
proof -
  have n: "td_count (td w) \<noteq> QUEUE_SIZE" using h room by (simp add: td_holds_def)
  let ?w = "main_step (Ret c) (main_step (Ret c) (main_step (Ret c) w))"
  have "writer_reach hb cb cs ?w" using w writer_reach.step writer_step.main by metis
  moreover have "main ?w = Looping" "td ?w = queue_command c (td w)" "accepted ?w = accepted w @ [c]" "handed ?w = handed w"
    using m n c by (simp_all add: main_step_def)
  ultimately show ?thesis using m(2) queue_command_holds [OF h n, of c] by (intro exI [of _ ?w]) simp
qed

lemma queue_many:
  assumes c: "mtype c \<noteq> 5" and cs: "length cs = QUEUE_SIZE"
  shows "k \<le> QUEUE_SIZE \<Longrightarrow> \<exists>w. writer_reach hb cb cs w \<and> main w = Looping \<and> td_running (td w) \<and>
    td_holds (td w) (replicate k c) \<and> accepted w = replicate k c \<and> handed w = []"
proof (induction k)
  case 0
  have "td_holds (system_configuration cs) []"
    using cs by (simp add: td_holds_def system_configuration_def ring_def QUEUE_SIZE_def)
  then show ?case using writer_reach.start [of hb cb cs]
    by (intro exI [of _ "writer_start hb cb cs"]) (simp add: writer_start_def system_configuration_def)
next
  case (Suc k)
  then obtain w where w: "writer_reach hb cb cs w" "main w = Looping" "td_running (td w)"
      "td_holds (td w) (replicate k c)" "accepted w = replicate k c" "handed w = []" by auto
  then show ?case using queue_one [OF w(1-4) _ c] Suc.prems by (simp add: replicate_append_same)
qed

theorem writer_overrun:
  assumes c: "mtype c \<noteq> 5" "mtype e \<noteq> 5" and cs: "length cs = QUEUE_SIZE"
  shows "\<exists>w. writer_reach hb cb cs w \<and> accepted w = replicate QUEUE_SIZE c @ [e] \<and> handed w = [] \<and>
    td_count (td w) = QUEUE_SIZE + 1 \<and> fst (worker_take (td w)) = Takes e"
proof -
  obtain w where w: "writer_reach hb cb cs w" "main w = Looping" "td_running (td w)"
      "td_holds (td w) (replicate QUEUE_SIZE c)" "accepted w = replicate QUEUE_SIZE c" "handed w = []"
    using queue_many [OF c(1) cs, of QUEUE_SIZE] by auto
  define w1 where "w1 = main_step (Ret e) w"
  define w2 where "w2 = w1\<lparr>td := (td w1)\<lparr>td_running := False\<rparr>\<rparr>"
  define w3 where "w3 = main_step (Ret e) (main_step (Ret e) w2)"
  have "writer_step w1 w2" unfolding w2_def by (rule writer_step.signal [of 15]) (simp add: writer_sig_thread_def)
  then have "writer_reach hb cb cs w2" using w(1) writer_reach.step writer_step.main unfolding w1_def by metis
  then have "writer_reach hb cb cs w3" using writer_reach.step writer_step.main unfolding w3_def by metis
  moreover have q: "td w3 = queue_command e ((td w)\<lparr>td_running := False\<rparr>)" "accepted w3 = replicate QUEUE_SIZE c @ [e]" "handed w3 = []"
    using w c by (simp_all add: w3_def w2_def w1_def main_step_def)
  moreover have r: "ring QUEUE_SIZE (td_ctrl (td w)) (td_tail (td w)) (td_head (td w)) (replicate QUEUE_SIZE c)" "td_count (td w) = QUEUE_SIZE"
    using w(4) by (simp_all add: td_holds_def)
  then have "td_tail (td w) = td_head (td w)" "td_head (td w) < length (td_ctrl (td w))"
    using ring_full_head [OF r(1)] ring_bounds [OF r(1)] by simp_all
  then have "td_count (td w3) = QUEUE_SIZE + 1 \<and> fst (worker_take (td w3)) = Takes e"
    using r(2) by (simp add: q(1) queue_command_def worker_take_def)
  ultimately show ?thesis by blast
qed

section \<open>Property\<close>


text \<open>A run: one command to store a reading is received, queued, taken and handled.\<close>

definition store_command :: message_control where
  "store_command = \<lparr>mtype = 2, mdata = \<lparr>msg_id = 1, msg_text = []\<rparr>\<rparr>"

definition stack_cells :: "message_control list" where
  "stack_cells = replicate QUEUE_SIZE store_command"

definition writer_a :: writer where
  "writer_a = (main_step (Ret store_command) ^^ 3) (writer_start 0 0 stack_cells)"

lemma writer_a_reach: "writer_reach 0 0 stack_cells writer_a"
proof -
  have "writer_reach 0 0 stack_cells ((main_step (Ret store_command) ^^ k) (writer_start 0 0 stack_cells))" for k
    by (induction k) (auto intro: writer_reach.intros writer_step.main)
  then show ?thesis by (simp add: writer_a_def)
qed


end
