(* ===== verification/Config_File.thy ===== *)
theory Config_File
  imports Prelude
begin

text \<open>
  The configuration tool (\<open>safe-config-tool/main.c\<close>): reading and writing one parameter of a file of
  \<open>key=v\<close> lines. A write goes to a temporary file that is renamed over the configuration file, with
  a backup beside it. A run of the writer is the list of states of the three files it passes through,
  so that a statement on every state of the list is a statement on a power loss at any moment.
  Answers of the system calls are arguments; \<open>None\<close> is undefined behaviour.
\<close>

section \<open>Lines and parameters\<close>

definition NL :: u8 where "NL = 10"
definition CR :: u8 where "CR = 13"
definition HASH :: u8 where "HASH = 35"
definition EQ :: u8 where "EQ = 61"

lemmas config_chars = NL_def CR_def HASH_def EQ_def

definition MAX_PATH_NAME :: nat where "MAX_PATH_NAME = 256"
definition BUFFER_SIZE :: nat where "BUFFER_SIZE = 256"

text \<open>The pieces \<open>strtok_r\<close> finds between line feeds; it skips empty ones.\<close>

function strtok_lines :: "bytes \<Rightarrow> bytes list" where
  "strtok_lines s = (case dropWhile (\<lambda>b. b = NL) s of
     [] \<Rightarrow> []
   | b # r \<Rightarrow> (b # takeWhile (\<lambda>x. x \<noteq> NL) r) # strtok_lines (dropWhile (\<lambda>x. x \<noteq> NL) r))"
  by pat_completeness auto

termination
proof (relation "measure length")
  fix s b r assume e: "dropWhile (\<lambda>b. b = NL) s = b # r"
  have "length (dropWhile (\<lambda>x. x \<noteq> NL) r) \<le> length r" by (rule length_dropWhile_le)
  also have "\<dots> < length (dropWhile (\<lambda>b. b = NL) s)" by (simp add: e)
  also have "\<dots> \<le> length s" by (rule length_dropWhile_le)
  finally show "(dropWhile (\<lambda>x. x \<noteq> NL) r, s) \<in> measure length" by simp
qed simp

declare strtok_lines.simps [simp del]

definition strip_cr :: "bytes \<Rightarrow> bytes" where
  "strip_cr p = (if p \<noteq> [] \<and> last p = CR then butlast p else p)"

text \<open>The key and the value of a line, unless it is empty, a comment or has no equals sign.\<close>

definition split_param :: "bytes \<Rightarrow> (bytes \<times> bytes) option" where
  "split_param p =
     (if p \<noteq> [] \<and> hd p \<noteq> HASH \<and> EQ \<in> set p
      then Some (takeWhile (\<lambda>b. b \<noteq> EQ) p, tl (dropWhile (\<lambda>b. b \<noteq> EQ) p)) else None)"

text \<open>The loop of \<open>read_param_config\<close>: the value of the first line with the key.\<close>

fun find_param :: "bytes \<Rightarrow> bytes list \<Rightarrow> bytes option" where
  "find_param param [] = None"
| "find_param param (p # ps) = (case split_param (strip_cr p) of
     Some (k, v) \<Rightarrow> if param = k then Some v else find_param param ps
   | None \<Rightarrow> find_param param ps)"

text \<open>What \<open>read\<close> leaves in the buffer of a file, as a C string.\<close>

definition config_text :: "bytes \<Rightarrow> bytes" where
  "config_text content = cstr (take (BUFFER_SIZE - 1) content)"

datatype lock_answer = Locked | Lock_inval | Lock_nolck | Lock_wouldblock | Lock_other

text \<open>An answer to \<open>flock\<close> on which the tool gives up.\<close>

fun lock_refused :: "lock_answer \<Rightarrow> bool" where
  "lock_refused Lock_inval = True" | "lock_refused Lock_nolck = True" | "lock_refused Lock_wouldblock = True"
| "lock_refused _ = False"

datatype read_answer = Read_ok | Read_intr | Read_fails

datatype read_result = Exit_failure | Return_error | Found bytes | Not_found

definition read_param_config :: "bytes \<Rightarrow> lock_answer \<Rightarrow> read_answer \<Rightarrow> bytes option \<Rightarrow> read_result option" where
  "read_param_config param lock rd file = (case file of
     None \<Rightarrow> Some Exit_failure
   | Some content \<Rightarrow>
       if lock_refused lock then Some Exit_failure
       else (case rd of
         Read_ok \<Rightarrow>
           if content = [] then Some Exit_failure
           else Some (case find_param param (strtok_lines (config_text content)) of Some v \<Rightarrow> Found v | None \<Rightarrow> Not_found)
       | Read_intr \<Rightarrow> Some Return_error
       | Read_fails \<Rightarrow> None))"

section \<open>Writing\<close>

text \<open>
  One line of output is formatted into an array of 256 bytes and written with the length \<open>snprintf\<close>
  returned, which may exceed the array.
\<close>

definition format_param :: "bytes \<Rightarrow> bytes \<Rightarrow> bytes option" where
  "format_param param v =
     (let t = param @ [EQ] @ v @ [NL]
      in if length t < MAX_PATH_NAME then Some t
         else if length t = MAX_PATH_NAME then Some (take (MAX_PATH_NAME - 1) t @ [0])
         else None)"

text \<open>
  The calls of \<open>write\<close> for one line: the changed parameter, or the line and a line feed. The flag
  tells the call whose failure also removes the temporary file.
\<close>

definition line_writes :: "bytes \<Rightarrow> bytes \<Rightarrow> bytes \<Rightarrow> (bytes \<times> bool) list option" where
  "line_writes param v p =
     (let q = strip_cr p
      in if map_option fst (split_param q) = Some param
         then map_option (\<lambda>t. [(t, False)]) (format_param param v)
         else Some [(q, True), ([NL], False)])"

fun file_writes :: "bytes \<Rightarrow> bytes \<Rightarrow> bytes list \<Rightarrow> (bytes \<times> bool) list option" where
  "file_writes param v [] = Some []"
| "file_writes param v (p # ps) = (case line_writes param v p of
     None \<Rightarrow> None
   | Some ws \<Rightarrow> map_option (\<lambda>rest. ws @ rest) (file_writes param v ps))"

text \<open>The parameter is added at the end when no line had it.\<close>

definition added_write :: "bytes \<Rightarrow> bytes \<Rightarrow> bytes list \<Rightarrow> bytes option" where
  "added_write param v ps =
     (if \<exists>p \<in> set ps. map_option fst (split_param (strip_cr p)) = Some param then Some [] else format_param param v)"

record files =
  config_file :: "bytes option"
  tmp_file :: "bytes option"
  bak_file :: "bytes option"

text \<open>Writing from offset \<open>off\<close> of a file that is not truncated; a gap reads as zero.\<close>

definition write_at :: "nat \<Rightarrow> bytes \<Rightarrow> bytes \<Rightarrow> bytes" where
  "write_at off bs f = take off (f @ replicate (off - length f) 0) @ bs @ drop (off + length bs) f"

text \<open>
  The loop of \<open>back_up_file\<close>. \<open>copy_file_range\<close> advances both offsets itself and the loop
  advances them again. \<open>ks\<close> are the sizes the kernel copies; \<open>None\<close> when they end before the loop.
\<close>

definition copied :: "nat \<Rightarrow> bytes \<Rightarrow> nat \<Rightarrow> nat \<Rightarrow> nat" where
  "copied k src off remaining = min k (min remaining (length src - off))"

primrec backup_loop :: "nat list \<Rightarrow> bytes \<Rightarrow> nat \<Rightarrow> nat \<Rightarrow> bytes \<Rightarrow> bytes option" where
  "backup_loop [] src off remaining out = None"
| "backup_loop (k # ks) src off remaining out =
     (if remaining - copied k src off remaining > 0
      then backup_loop ks src (off + copied k src off remaining + copied k src off remaining) (remaining - copied k src off remaining)
             (write_at off (take (copied k src off remaining) (drop off src)) out)
      else Some (write_at off (take (copied k src off remaining) (drop off src)) out))"

definition back_up_file :: "bool \<Rightarrow> nat list \<Rightarrow> bytes \<Rightarrow> files \<Rightarrow> (int \<times> files) option" where
  "back_up_file opened ks src fs =
     (if \<not> opened then Some (-1, fs)
      else map_option (\<lambda>out. (0, fs\<lparr>bak_file := Some out\<rparr>))
        (backup_loop ks src 0 (length src) (case bak_file fs of None \<Rightarrow> [] | Some b \<Rightarrow> b)))"

text \<open>\<open>safe_write_file\<close> gives up on two errors and reports success on every other one.\<close>

datatype rename_answer = Renamed | Rename_refused | Rename_fails

definition safe_write_file :: "rename_answer \<Rightarrow> files \<Rightarrow> int option \<times> files" where
  "safe_write_file ans fs = (case ans of
     Renamed \<Rightarrow> (Some 0, fs\<lparr>config_file := tmp_file fs, tmp_file := None\<rparr>)
   | Rename_refused \<Rightarrow> (None, fs)
   | Rename_fails \<Rightarrow> (Some 0, fs))"

definition restore_file :: "bool \<Rightarrow> files \<Rightarrow> int \<times> files" where
  "restore_file works fs = (if works then (0, fs\<lparr>config_file := bak_file fs, bak_file := None\<rparr>) else (-1, fs))"

text \<open>One write to the temporary file.\<close>

definition tmp_write :: "nat \<Rightarrow> bytes \<Rightarrow> files \<Rightarrow> files" where
  "tmp_write off w fs = fs\<lparr>tmp_file := Some (write_at off w (case tmp_file fs of None \<Rightarrow> [] | Some t \<Rightarrow> t))\<rparr>"

text \<open>The states after each of the writes, and the offset after them, unless one failed.\<close>

fun run_writes :: "bool list \<Rightarrow> (bytes \<times> bool) list \<Rightarrow> nat \<Rightarrow> files \<Rightarrow> files list \<times> nat option" where
  "run_writes oks [] off fs = ([], Some off)"
| "run_writes [] (w # ws) off fs = (if snd w then ([fs\<lparr>tmp_file := None\<rparr>], None) else ([], None))"
| "run_writes (b # oks) (w # ws) off fs =
     (if b then
        (case run_writes oks ws (off + length (fst w)) (tmp_write off (fst w) fs) of
           (tr, e) \<Rightarrow> (tmp_write off (fst w) fs # tr, e))
      else if snd w then ([fs\<lparr>tmp_file := None\<rparr>], None) else ([], None))"

record answers_of_write =
  w_lock :: lock_answer
  w_backup :: bool
  w_copy :: "nat list"
  w_read :: read_answer
  w_open_tmp :: bool
  w_oks :: "bool list"
  w_added :: bool
  w_fsync :: bool
  w_rename :: rename_answer

datatype tool_result = Exited | Returned int

text \<open>
  The end of \<open>write_param_config\<close>: \<open>fsync\<close>, \<open>rename\<close>, and the removal of the backup. Since
  \<open>safe_write_file\<close> never returns anything but zero, the branch that restores the backup is not taken.
\<close>

definition replace_file :: "answers_of_write \<Rightarrow> files \<Rightarrow> files list \<times> tool_result" where
  "replace_file a fs =
     (if \<not> w_fsync a then ([fs\<lparr>tmp_file := None\<rparr>], Returned (-1))
      else (case safe_write_file (w_rename a) fs of
        (None, fs1) \<Rightarrow> ([fs1], Exited)
      | (Some ret, fs1) \<Rightarrow>
          if ret \<noteq> 0 then ([fs1, fs1\<lparr>tmp_file := None\<rparr>, snd (restore_file True (fs1\<lparr>tmp_file := None\<rparr>))], Returned 0)
          else ([fs1, fs1\<lparr>bak_file := None\<rparr>], Returned 0)))"

text \<open>The part of \<open>write_param_config\<close> from the opening of the temporary file on.\<close>

definition write_new_file :: "bytes \<Rightarrow> bytes \<Rightarrow> answers_of_write \<Rightarrow> bytes list \<Rightarrow> files \<Rightarrow> (files list \<times> tool_result) option" where
  "write_new_file param v a ps fs =
     (if \<not> w_open_tmp a then Some ([], Exited)
      else (case (file_writes param v ps, added_write param v ps) of
        (Some ws, Some added) \<Rightarrow>
          let fs1 = tmp_write 0 [] fs; (tr, e) = run_writes (w_oks a) ws 0 fs1
          in (case e of
            None \<Rightarrow> Some (fs1 # tr, Exited)
          | Some off \<Rightarrow>
              let fs2 = last (fs1 # tr);
                  fs3 = (if w_added a then tmp_write off added fs2 else fs2);
                  (tr2, res) = replace_file a fs3
              in Some (fs1 # tr @ fs3 # tr2, res))
      | _ \<Rightarrow> None))"

text \<open>
  \<open>write_param_config\<close>: the states of the files in order, and how the call ends. The order is that
  of the code: lock, backup, read, temporary file, \<open>fsync\<close>, \<open>rename\<close>, removal of the backup.
\<close>

definition write_param_config :: "bytes \<Rightarrow> bytes \<Rightarrow> answers_of_write \<Rightarrow> files \<Rightarrow> (files list \<times> tool_result) option" where
  "write_param_config param v a fs = (case config_file fs of
     None \<Rightarrow> Some ([fs], Exited)
   | Some content \<Rightarrow>
     if lock_refused (w_lock a) then Some ([fs], Exited)
     else (case back_up_file (w_backup a) (w_copy a) content fs of
       None \<Rightarrow> None
     | Some (ret, fs1) \<Rightarrow>
       if ret \<noteq> 0 then Some ([fs], Returned (-1))
       else if w_read a = Read_fails then None
       else if w_read a = Read_intr \<or> content = [] then Some ([fs, fs1], Exited)
       else map_option (\<lambda>(tr, res). (fs # fs1 # tr, res))
              (write_new_file param v a (strtok_lines (config_text content)) fs1)))"

section \<open>Lines\<close>

lemma strtok_lines_step:
  shows "dropWhile (\<lambda>b. b = NL) s = [] \<Longrightarrow> strtok_lines s = []"
    and "dropWhile (\<lambda>b. b = NL) s = b # r \<Longrightarrow>
      strtok_lines s = (b # takeWhile (\<lambda>x. x \<noteq> NL) r) # strtok_lines (dropWhile (\<lambda>x. x \<noteq> NL) r)"
  by (simp_all only: strtok_lines.simps [of s] list.case)

lemma strtok_lines_nil [simp]: "strtok_lines [] = []"
  by (simp add: strtok_lines.simps)

lemma strtok_lines_newline [simp]: "strtok_lines (NL # s) = strtok_lines s"
  by (simp add: strtok_lines.simps [of "NL # s"] strtok_lines.simps [of s])

lemma strtok_lines_line:
  assumes "l \<noteq> []" and "NL \<notin> set l"
  shows "strtok_lines (l @ NL # s) = l # strtok_lines s"
proof -
  obtain b r where l: "l = b # r" using assms by (cases l) auto
  have r: "takeWhile (\<lambda>x. x \<noteq> NL) (r @ NL # s) = r" "dropWhile (\<lambda>x. x \<noteq> NL) (r @ NL # s) = NL # s"
    using assms l by (auto simp: takeWhile_append dropWhile_append takeWhile_eq_all_conv dropWhile_eq_Nil_conv)
  have "b \<noteq> NL" using assms l by auto
  then show ?thesis by (simp add: l strtok_lines.simps [of "b # r @ NL # s"] r)
qed

lemma strtok_lines_text:
  "\<forall>l \<in> set ls. NL \<notin> set l \<Longrightarrow> strtok_lines (concat (map (\<lambda>l. l @ [NL]) ls)) = filter (\<lambda>l. l \<noteq> []) ls"
proof (induction ls)
  case (Cons l ls)
  then show ?case by (cases "l = []") (simp_all add: strtok_lines_line)
qed simp

lemma strtok_lines_set:
  "l \<in> set (strtok_lines s) \<Longrightarrow> l \<noteq> [] \<and> NL \<notin> set l \<and> set l \<subseteq> set s"
proof (induction s rule: strtok_lines.induct)
  case (1 s)
  show ?case
  proof (cases "dropWhile (\<lambda>b. b = NL) s")
    case Nil
    then show ?thesis using "1.prems" by (simp add: strtok_lines_step(1) del: dropWhile_eq_Nil_conv)
  next
    case (Cons b r)
    have sub: "set (b # r) \<subseteq> set s" using set_dropWhileD [of _ "\<lambda>b. b = NL" s] by (auto simp: Cons)
    have b: "b \<noteq> NL" using hd_dropWhile [of "\<lambda>b. b = NL" s] Cons by simp
    consider "l = b # takeWhile (\<lambda>x. x \<noteq> NL) r" | "l \<in> set (strtok_lines (dropWhile (\<lambda>x. x \<noteq> NL) r))"
      using "1.prems" by (auto simp: strtok_lines_step(2) [OF Cons])
    then show ?thesis
    proof cases
      case 1
      then show ?thesis using sub b by (auto dest: set_takeWhileD)
    next
      case 2
      then have "l \<noteq> [] \<and> NL \<notin> set l \<and> set l \<subseteq> set (dropWhile (\<lambda>x. x \<noteq> NL) r)" using "1.IH" [OF Cons] by simp
      then show ?thesis using sub by (auto dest!: set_dropWhileD subsetD)
    qed
  qed
qed

lemma strtok_lines_length: "length (strtok_lines s) \<le> length s"
proof (induction s rule: strtok_lines.induct)
  case (1 s)
  show ?case
  proof (cases "dropWhile (\<lambda>b. b = NL) s")
    case Nil
    then show ?thesis by (simp add: strtok_lines_step(1) del: dropWhile_eq_Nil_conv)
  next
    case (Cons b r)
    have "length (b # r) \<le> length s" using length_dropWhile_le [of "\<lambda>b. b = NL" s] by (simp add: Cons)
    moreover have "length (dropWhile (\<lambda>x. x \<noteq> NL) r) \<le> length r" by (rule length_dropWhile_le)
    ultimately show ?thesis using "1" [OF Cons] by (simp add: strtok_lines_step(2) [OF Cons])
  qed
qed

section \<open>The new contents\<close>

definition has_key :: "bytes \<Rightarrow> bytes \<Rightarrow> bool" where
  "has_key param p = (map_option fst (split_param (strip_cr p)) = Some param)"

text \<open>The lines of the new file: every line with the key is replaced, or one is added.\<close>

definition new_line :: "bytes \<Rightarrow> bytes \<Rightarrow> bytes \<Rightarrow> bytes" where
  "new_line param v p = (if has_key param p then param @ EQ # v else strip_cr p)"

definition new_lines :: "bytes \<Rightarrow> bytes \<Rightarrow> bytes list \<Rightarrow> bytes list" where
  "new_lines param v ps = map (new_line param v) ps @
     (if \<exists>p \<in> set ps. has_key param p then [] else [param @ EQ # v])"

definition new_text :: "bytes \<Rightarrow> bytes \<Rightarrow> bytes list \<Rightarrow> bytes" where
  "new_text param v ps = concat (map (\<lambda>l. l @ [NL]) (new_lines param v ps))"

text \<open>A key and a value that survive being written to a line and read back.\<close>

definition plain_param :: "bytes \<Rightarrow> bytes \<Rightarrow> bool" where
  "plain_param param v = (param \<noteq> [] \<and> hd param \<noteq> HASH \<and> EQ \<notin> set param \<and> NL \<notin> set param \<and> 0 \<notin> set param \<and>
     NL \<notin> set v \<and> 0 \<notin> set v \<and> (v = [] \<or> last v \<noteq> CR) \<and> length param + length v + 2 < MAX_PATH_NAME)"

lemma strip_cr_set: "set (strip_cr p) \<subseteq> set p"
  by (auto simp: strip_cr_def dest: in_set_butlastD)

lemma strip_cr_param: "plain_param param v \<Longrightarrow> strip_cr (param @ EQ # v) = param @ EQ # v"
  by (auto simp: strip_cr_def plain_param_def config_chars)

lemma split_param_line:
  assumes "plain_param param v"
  shows "split_param (param @ EQ # v) = Some (param, v)"
proof -
  have "takeWhile (\<lambda>b. b \<noteq> EQ) (param @ EQ # v) = param" "dropWhile (\<lambda>b. b \<noteq> EQ) (param @ EQ # v) = EQ # v"
    using assms by (auto simp: plain_param_def takeWhile_append dropWhile_append takeWhile_eq_all_conv dropWhile_eq_Nil_conv)
  then show ?thesis using assms by (simp add: split_param_def plain_param_def)
qed

lemma split_param_nil [simp]: "split_param [] = None"
  by (simp add: split_param_def)

lemma find_param_skip: "\<not> has_key k p \<Longrightarrow> find_param k (p # ps) = find_param k ps"
  by (auto simp: has_key_def split: option.splits)

lemma find_param_append: "\<forall>p \<in> set ps. \<not> has_key k p \<Longrightarrow> find_param k (ps @ qs) = find_param k qs"
  by (induction ps) (simp_all add: find_param_skip del: find_param.simps)

lemma find_param_filter: "find_param k (filter (\<lambda>l. l \<noteq> []) ls) = find_param k ls"
proof (induction ls)
  case (Cons l ls)
  then show ?case by (cases "l = []") (simp_all add: strip_cr_def split: option.splits)
qed simp

lemma has_key_line: "plain_param param v \<Longrightarrow> has_key k (param @ EQ # v) \<longleftrightarrow> k = param"
  by (auto simp: has_key_def strip_cr_param split_param_line)

lemma find_param_line: "plain_param param v \<Longrightarrow> find_param param ((param @ EQ # v) # ps) = Some v"
  by (simp add: strip_cr_param split_param_line)

lemma has_key_strip: "strip_cr (strip_cr p) = strip_cr p \<Longrightarrow> has_key k (strip_cr p) = has_key k p"
  by (simp add: has_key_def)

lemma new_line_no_key:
  assumes "\<forall>q \<in> set qs. \<not> has_key param q" and "\<forall>q \<in> set qs. strip_cr (strip_cr q) = strip_cr q"
  shows "\<forall>q \<in> set (map (new_line param v) qs). \<not> has_key param q"
  using assms by (simp add: new_line_def has_key_strip)

lemma find_new_param:
  assumes p: "plain_param param v" and cr: "\<forall>p \<in> set ps. strip_cr (strip_cr p) = strip_cr p"
  shows "find_param param (new_lines param v ps) = Some v"
proof (cases "\<exists>p \<in> set ps. has_key param p")
  case True
  then obtain qs p rs where ps: "ps = qs @ p # rs" "has_key param p" "\<forall>q \<in> set qs. \<not> has_key param q"
    by (metis split_list_first_prop)
  have "new_lines param v ps = map (new_line param v) qs @ (param @ EQ # v) # map (new_line param v) rs"
    using True ps(2) by (simp add: new_lines_def ps(1) new_line_def)
  moreover have "\<forall>q \<in> set (map (new_line param v) qs). \<not> has_key param q"
    by (rule new_line_no_key) (use ps cr in auto)
  ultimately show ?thesis by (simp only: find_param_append find_param_line [OF p])
next
  case False
  then have "new_lines param v ps = map (new_line param v) ps @ [param @ EQ # v]"
    by (simp add: new_lines_def new_line_def)
  moreover have "\<forall>q \<in> set (map (new_line param v) ps). \<not> has_key param q"
    by (rule new_line_no_key) (use False cr in auto)
  ultimately show ?thesis by (simp only: find_param_append find_param_line [OF p])
qed

lemma find_other_param:
  assumes p: "plain_param param v" and cr: "\<forall>p \<in> set ps. strip_cr (strip_cr p) = strip_cr p" and k: "k \<noteq> param"
  shows "find_param k (new_lines param v ps) = find_param k ps"
proof -
  have other: "\<not> has_key k (param @ EQ # v)" using has_key_line [OF p, of k] k by simp
  have "find_param k (map (new_line param v) ps @ qs) = find_param k ps" if "find_param k qs = None" for qs
    using cr
  proof (induction ps)
    case (Cons p ps)
    show ?case
    proof (cases "has_key param p")
      case True
      then have "\<not> has_key k p" using k by (auto simp: has_key_def)
      moreover have "new_line param v p = param @ EQ # v" using True by (simp add: new_line_def)
      ultimately show ?thesis using Cons find_param_skip [OF other] by (simp add: find_param_skip del: find_param.simps)
    next
      case False
      then have "new_line param v p = strip_cr p" by (simp add: new_line_def)
      then show ?thesis using Cons by (simp split: option.splits)
    qed
  qed (simp add: that)
  moreover have "find_param k [param @ EQ # v] = None" by (simp only: find_param_skip [OF other]) simp
  ultimately show ?thesis by (simp add: new_lines_def)
qed

lemma strtok_new_text:
  assumes p: "plain_param param v" and ps: "\<forall>p \<in> set ps. NL \<notin> set p"
  shows "strtok_lines (new_text param v ps) = filter (\<lambda>l. l \<noteq> []) (new_lines param v ps)"
proof -
  have "NL \<notin> set (strip_cr p)" if "p \<in> set ps" for p using ps strip_cr_set [of p] that by auto
  then have "\<forall>l \<in> set (new_lines param v ps). NL \<notin> set l"
    using p ps by (auto simp: new_lines_def new_line_def plain_param_def config_chars)
  then show ?thesis by (simp add: new_text_def strtok_lines_text)
qed

section \<open>The calls of write\<close>

lemma format_param_plain: "plain_param param v \<Longrightarrow> format_param param v = Some (param @ EQ # v @ [NL])"
  by (simp add: format_param_def plain_param_def)

lemma file_writes_text:
  assumes p: "plain_param param v"
  shows "\<exists>ws. file_writes param v ps = Some ws \<and> length ws \<le> 2 * length ps \<and>
    concat (map fst ws) = concat (map (\<lambda>l. l @ [NL]) (map (new_line param v) ps))"
proof (induction ps)
  case (Cons q ps)
  then obtain ws where ws: "file_writes param v ps = Some ws" "length ws \<le> 2 * length ps"
      "concat (map fst ws) = concat (map (\<lambda>l. l @ [NL]) (map (new_line param v) ps))" by blast
  show ?case
  proof (cases "has_key param q")
    case True
    then have "line_writes param v q = Some [(param @ EQ # v @ [NL], False)]"
      by (simp add: line_writes_def has_key_def format_param_plain [OF p])
    then show ?thesis using ws True by (simp add: new_line_def [of param v q])
  next
    case False
    then have "line_writes param v q = Some [(strip_cr q, True), ([NL], False)]"
      by (simp add: line_writes_def has_key_def)
    then show ?thesis using ws False by (simp add: new_line_def [of param v q])
  qed
qed simp

lemma added_write_text:
  assumes "plain_param param v"
  shows "added_write param v ps = Some (if \<exists>p \<in> set ps. has_key param p then [] else param @ EQ # v @ [NL])"
  using assms by (auto simp: added_write_def has_key_def format_param_plain)

lemma write_at_end [simp]: "write_at (length t) w t = t @ w"
  by (simp add: write_at_def)

lemma tmp_write_end: "tmp_file fs = Some t \<Longrightarrow> tmp_write (length t) w fs = fs\<lparr>tmp_file := Some (t @ w)\<rparr>"
  by (simp add: tmp_write_def)

lemma tmp_write_files [simp]:
  "config_file (tmp_write off w fs) = config_file fs" "bak_file (tmp_write off w fs) = bak_file fs"
  by (simp_all add: tmp_write_def)

lemma run_writes_all:
  assumes "length ws \<le> length oks" and "False \<notin> set oks" and "tmp_file fs = Some t"
  shows "\<exists>tr. run_writes oks ws (length t) fs = (tr, Some (length (t @ concat (map fst ws)))) \<and>
    last (fs # tr) = fs\<lparr>tmp_file := Some (t @ concat (map fst ws))\<rparr>"
  using assms
proof (induction ws arbitrary: oks fs t)
  case Nil
  then show ?case by (cases oks) simp_all
next
  case (Cons w ws)
  then obtain b oks' where o: "oks = b # oks'" "b" "False \<notin> set oks'" by (cases oks) auto
  let ?fs = "fs\<lparr>tmp_file := Some (t @ fst w)\<rparr>"
  have s: "tmp_write (length t) (fst w) fs = ?fs" using Cons.prems(3) by (rule tmp_write_end)
  obtain tr where tr: "run_writes oks' ws (length (t @ fst w)) ?fs = (tr, Some (length ((t @ fst w) @ concat (map fst ws))))"
      "last (?fs # tr) = ?fs\<lparr>tmp_file := Some ((t @ fst w) @ concat (map fst ws))\<rparr>"
    using Cons.IH [of oks' ?fs "t @ fst w"] Cons.prems o by auto
  show ?case using tr s o by (simp add: add.assoc)
qed

text \<open>Until the rename, only the temporary file changes.\<close>

lemma run_writes_config: "run_writes oks ws off fs = (tr, e) \<Longrightarrow> s \<in> set tr \<Longrightarrow> config_file s = config_file fs"
proof (induction oks ws off fs arbitrary: tr e rule: run_writes.induct)
  case (3 b oks w ws off fs)
  show ?case
  proof (cases b)
    case True
    obtain tr' e' where r: "run_writes oks ws (off + length (fst w)) (tmp_write off (fst w) fs) = (tr', e')" by fastforce
    then have "s = tmp_write off (fst w) fs \<or> s \<in> set tr'" using "3.prems" True by auto
    then show ?thesis using "3.IH" [OF True r] by auto
  next
    case False
    then show ?thesis using "3.prems" by (auto split: if_splits)
  qed
qed (auto split: if_splits)

lemma replace_file_config:
  assumes "replace_file a fs = (tr, res)" and "s \<in> set tr"
  shows "config_file s = config_file fs \<or> res = Returned 0 \<and> w_fsync a \<and> config_file s = config_file (last tr)"
  using assms
  by (auto simp: replace_file_def safe_write_file_def split: if_splits rename_answer.splits)

lemma replace_file_trace: "replace_file a fs = (tr, res) \<Longrightarrow> tr \<noteq> []"
  by (auto simp: replace_file_def safe_write_file_def split: if_splits rename_answer.splits)

lemma write_new_file_done:
  assumes o: "w_open_tmp a" and f: "file_writes param v ps = Some ws" "added_write param v ps = Some added"
    and r: "run_writes (w_oks a) ws 0 (tmp_write 0 [] fs) = (tr, Some off)"
    and l: "fs2 = last (tmp_write 0 [] fs # tr)" "fs3 = (if w_added a then tmp_write off added fs2 else fs2)"
    and q: "replace_file a fs3 = (tr2, res)"
  shows "write_new_file param v a ps fs = Some (tmp_write 0 [] fs # tr @ fs3 # tr2, res)"
  unfolding write_new_file_def using o f r q l(2)
  by (cases "w_added a") (simp_all add: Let_def l(1) [symmetric] del: last.simps)

lemma write_new_file_config:
  assumes w: "write_new_file param v a ps fs = Some (tr, res)" and s: "s \<in> set tr"
  shows "config_file s = config_file fs \<or> res = Returned 0 \<and> w_fsync a \<and> config_file s = config_file (last tr)"
proof -
  let ?fs1 = "tmp_write 0 [] fs"
  have o: "w_open_tmp a" using w s by (auto simp: write_new_file_def split: if_splits)
  obtain ws added where f: "file_writes param v ps = Some ws" "added_write param v ps = Some added"
    using w o by (auto simp: write_new_file_def split: option.splits)
  obtain tr1 e where r: "run_writes (w_oks a) ws 0 ?fs1 = (tr1, e)" by fastforce
  have c: "config_file x = config_file fs" if "x \<in> set (?fs1 # tr1)" for x
    using run_writes_config [OF r] that by auto
  show ?thesis
  proof (cases e)
    case None
    then have "tr = ?fs1 # tr1" using w o f r by (simp add: write_new_file_def Let_def)
    then show ?thesis using c s by blast
  next
    case (Some off)
    define fs2 where "fs2 = last (?fs1 # tr1)"
    define fs3 where "fs3 = (if w_added a then tmp_write off added fs2 else fs2)"
    obtain tr2 res2 where q: "replace_file a fs3 = (tr2, res2)" by fastforce
    have t: "tr = ?fs1 # tr1 @ fs3 # tr2" "res = res2"
      using w write_new_file_done [OF o f r [unfolded Some] fs2_def fs3_def q] by simp_all
    have "config_file fs2 = config_file fs" unfolding fs2_def by (rule c [OF last_in_set]) simp
    then have "config_file fs3 = config_file fs" by (simp add: fs3_def)
    moreover have "last tr = last tr2" using replace_file_trace [OF q] by (simp add: t)
    moreover have "s \<in> set (?fs1 # tr1) \<or> s = fs3 \<or> s \<in> set tr2" using s by (auto simp: t)
    ultimately show ?thesis using c replace_file_config [OF q, of s] t(2) by metis
  qed
qed

lemma backup_whole: "0 < length src \<Longrightarrow> backup_loop [length src] src 0 (length src) out = Some (src @ drop (length src) out)"
  by (simp add: copied_def write_at_def)

text \<open>
  Since the loop adds the copied size to offsets the kernel has already moved, a first copy of at
  least half of the file, but not all of it, moves past its end: every further call copies nothing
  and the loop does not end.
\<close>

lemma backup_past_end: "length src \<le> off \<Longrightarrow> 0 < remaining \<Longrightarrow> backup_loop ks src off remaining out = None"
  by (induction ks arbitrary: out) (simp_all add: copied_def)

lemma backup_never_ends:
  assumes "k < length src" and "length src \<le> 2 * k"
  shows "backup_loop (k # ks) src 0 (length src) out = None"
  using assms by (simp add: copied_def backup_past_end)

section \<open>Properties\<close>

text \<open>A file with two parameters, the second of which is changed.\<close>

definition sample_text :: bytes where
  "sample_text = [97, 61, 49, 10, 98, 61, 50, 10]"

definition sample_files :: files where
  "sample_files = \<lparr>config_file = Some sample_text, tmp_file = None, bak_file = None\<rparr>"



text \<open>The system calls of a run without failures, with one call to copy the backup.\<close>

definition calm_answers :: "nat \<Rightarrow> answers_of_write" where
  "calm_answers n = \<lparr>w_lock = Locked, w_backup = True, w_copy = [n], w_read = Read_ok, w_open_tmp = True,
     w_oks = replicate (2 * n) True, w_added = True, w_fsync = True, w_rename = Renamed\<rparr>"

lemma replace_calm:
  "replace_file (calm_answers n) fs = ([fs\<lparr>config_file := tmp_file fs, tmp_file := None\<rparr>,
     fs\<lparr>config_file := tmp_file fs, tmp_file := None, bak_file := None\<rparr>], Returned 0)"
  by (simp add: replace_file_def calm_answers_def safe_write_file_def)

lemma write_new_calm:
  assumes p: "plain_param param v" and t: "tmp_file fs = None" and n: "length ps \<le> n"
  shows "\<exists>tr. write_new_file param v (calm_answers n) ps fs = Some (tr, Returned 0) \<and>
    tr \<noteq> [] \<and> last tr = fs\<lparr>config_file := Some (new_text param v ps), tmp_file := None, bak_file := None\<rparr>"
proof -
  obtain ws where ws: "file_writes param v ps = Some ws" "length ws \<le> 2 * length ps"
      "concat (map fst ws) = concat (map (\<lambda>l. l @ [NL]) (map (new_line param v) ps))"
    using file_writes_text [OF p] by blast
  define added where "added = (if \<exists>p \<in> set ps. has_key param p then [] else param @ EQ # v @ [NL])"
  have ad: "added_write param v ps = Some added" unfolding added_def by (rule added_write_text [OF p])
  have all: "concat (map fst ws) @ added = new_text param v ps"
    by (simp add: ws(3) added_def new_text_def new_lines_def)
  have fs1: "tmp_write 0 [] fs = fs\<lparr>tmp_file := Some []\<rparr>" using t by (simp add: tmp_write_def write_at_def)
  let ?fs2 = "fs\<lparr>tmp_file := Some (concat (map fst ws))\<rparr>"
  obtain tr where tr: "run_writes (w_oks (calm_answers n)) ws 0 (tmp_write 0 [] fs) = (tr, Some (length (concat (map fst ws))))"
      "last (tmp_write 0 [] fs # tr) = ?fs2"
    using run_writes_all [of ws "w_oks (calm_answers n)" "tmp_write 0 [] fs" "[]"] ws(2) n fs1
    by (auto simp: calm_answers_def)
  let ?fs3 = "fs\<lparr>tmp_file := Some (new_text param v ps)\<rparr>"
  have fs3: "?fs3 = (if w_added (calm_answers n) then tmp_write (length (concat (map fst ws))) added ?fs2 else ?fs2)"
    using tmp_write_end [of ?fs2 "concat (map fst ws)" added] all by (simp add: calm_answers_def)
  show ?thesis
    using write_new_file_done [OF _ ws(1) ad tr(1) tr(2) [symmetric] fs3 replace_calm]
    by (simp add: calm_answers_def)
qed

lemma write_calm:
  assumes c: "config_file fs = Some content" "content \<noteq> []" and t: "tmp_file fs = None" and p: "plain_param param v"
  shows "\<exists>tr. write_param_config param v (calm_answers (length content)) fs = Some (tr, Returned 0) \<and>
    last tr = \<lparr>config_file = Some (new_text param v (strtok_lines (config_text content))), tmp_file = None, bak_file = None\<rparr>"
proof -
  let ?a = "calm_answers (length content)" and ?ps = "strtok_lines (config_text content)"
  obtain fs1 where b: "back_up_file (w_backup ?a) (w_copy ?a) content fs = Some (0, fs1)" "fs1 = fs\<lparr>bak_file := bak_file fs1\<rparr>"
    using backup_whole [of content] c(2) by (simp add: back_up_file_def calm_answers_def)
  have "length ?ps \<le> length (config_text content)" by (rule strtok_lines_length)
  also have "\<dots> \<le> length (take (BUFFER_SIZE - 1) content)" unfolding config_text_def cstr_def by (rule length_takeWhile_le)
  also have "\<dots> \<le> length content" by simp
  finally have n: "length ?ps \<le> length content" .
  have "tmp_file fs1 = None" by (subst b(2)) (simp add: t)
  then obtain tr where tr: "write_new_file param v ?a ?ps fs1 = Some (tr, Returned 0)" "tr \<noteq> []"
      "last tr = fs1\<lparr>config_file := Some (new_text param v ?ps), tmp_file := None, bak_file := None\<rparr>"
    using write_new_calm [OF p _ n] by blast
  have "write_param_config param v ?a fs = Some (fs # fs1 # tr, Returned 0)"
    using b(1) tr(1) c unfolding write_param_config_def by (simp add: calm_answers_def)
  then show ?thesis using tr by simp
qed



section \<open>Larger files\<close>

text \<open>
  The tool reads one buffer. Of a larger file only the first 255 bytes take part, and what
  follows them is gone once the new file has replaced the old one.
\<close>

lemma config_cut:
  assumes "config_file fs = Some content" and "content \<noteq> []" and "tmp_file fs = None" and "plain_param param v"
  shows "\<exists>tr. write_param_config param v (calm_answers (length content)) fs = Some (tr, Returned 0) \<and>
    config_file (last tr) = Some (new_text param v (strtok_lines (cstr (take 255 content))))"
  using write_calm [OF assms] by (auto simp: config_text_def BUFFER_SIZE_def)

end
