(* ===== verification/Daemon.thy ===== *)
theory Daemon
  imports Ring Config_File "HOL-Library.Multiset"
begin

text \<open>
  The signal-aware daemon (\<open>signal-aware-multithreaded-daemon/main.c\<close>): a thread that turns signals
  into jobs, a ring of 32 jobs, and workers that run them, one kind of which reads the configuration
  file again. A section under the mutex of the queue or of the state is one step; a thread that waits
  on a condition variable does not step. \<open>None\<close> in the result of a call that reads the
  configuration is undefined behaviour.
\<close>

section \<open>Data\<close>

definition QUEUE_CAP :: nat where "QUEUE_CAP = 32"

datatype work_type = JOB_NONE | JOB_RELOAD_CONFIG | JOB_PRINT_STATUS | JOB_DO_WORK | JOB_SHUTDOWN

record workqueue =
  wtype :: work_type
  wdata :: int

record job_queue =
  jobs :: "workqueue list"
  qhead :: nat
  qtail :: nat
  qcount :: nat

record config =
  sample_rate :: int
  woker_delay :: int
  log_level :: bytes

record daemon_state =
  daemon_data :: job_queue
  daemon_config :: config
  path_config :: string
  reload_config_count :: nat
  work_done_count :: nat
  shutting_down :: bool

section \<open>Signals\<close>

definition convert_signal_to_string :: "int \<Rightarrow> string \<times> work_type" where
  "convert_signal_to_string sig_num =
     (if sig_num = 15 then (''SIG_TERM'', JOB_SHUTDOWN)
      else if sig_num = 10 then (''SIGUSR1'', JOB_DO_WORK)
      else if sig_num = 1 then (''SIGHUP'', JOB_RELOAD_CONFIG)
      else if sig_num = 2 then (''SIGINT'', JOB_SHUTDOWN)
      else (''UNDEFINED SIG'', JOB_NONE))"

text \<open>What comes after the last slash of a path, or all of it.\<close>

definition base_name :: "string \<Rightarrow> string" where
  "base_name path = rev (takeWhile (\<lambda>c. c \<noteq> CHR ''/'') (rev path))"

definition watch_event_type :: "u32 \<Rightarrow> string" where
  "watch_event_type msk =
     (if bit msk 1 then ''MODIFY'' else if bit msk 8 then ''CREATE'' else if bit msk 9 then ''DELETE''
      else if bit msk 7 then ''MOVE_TO'' else if bit msk 6 then ''MOVE_FROM'' else [])"

text \<open>\<open>watch_handler\<close>: whether it sends \<open>SIGHUP\<close> to the process, and the type it prints.\<close>

definition watch_handler :: "string \<Rightarrow> u32 \<Rightarrow> daemon_state \<Rightarrow> bool \<times> string" where
  "watch_handler path msk st =
     (\<not> shutting_down st \<and> path = base_name (path_config st), watch_event_type msk)"

datatype select_answer = Select_intr | Select_fails | Select_timeout | Select_ready

datatype watch_read = Watch_intr | Watch_fails | Watch_events "(string \<times> u32) list"

text \<open>
  One round of \<open>inotify_handler\<close>: whether the loop goes on, and the answers of \<open>watch_handler\<close> for
  the events that carry a name.
\<close>

definition inotify_round :: "select_answer \<Rightarrow> watch_read \<Rightarrow> daemon_state \<Rightarrow> bool \<times> (bool \<times> string) list" where
  "inotify_round sel rd st = (case sel of
     Select_intr \<Rightarrow> (True, [])
   | Select_fails \<Rightarrow> (False, [])
   | Select_timeout \<Rightarrow> (\<not> shutting_down st, [])
   | Select_ready \<Rightarrow> (case rd of
       Watch_intr \<Rightarrow> (True, [])
     | Watch_fails \<Rightarrow> (False, [])
     | Watch_events es \<Rightarrow> (True, map (\<lambda>(n, m). watch_handler n m st) (filter (\<lambda>(n, m). n \<noteq> []) es))))"

section \<open>The queue of jobs\<close>

text \<open>\<open>enqueue_work\<close> waits while the queue is full: \<open>None\<close>.\<close>

definition enqueue_work :: "workqueue \<Rightarrow> job_queue \<Rightarrow> job_queue option" where
  "enqueue_work w q =
     (if qcount q = QUEUE_CAP then None
      else Some (q\<lparr>jobs := (jobs q)[qtail q := w], qtail := (qtail q + 1) mod QUEUE_CAP, qcount := qcount q + 1\<rparr>))"

datatype taken = Waits | Refused | Took workqueue job_queue

definition dequeueu_work :: "bool \<Rightarrow> job_queue \<Rightarrow> taken" where
  "dequeueu_work down q =
     (if qcount q = 0 \<and> \<not> down then Waits
      else if down \<and> qcount q = 0 then Refused
      else Took (jobs q ! qhead q) (q\<lparr>qhead := (qhead q + 1) mod QUEUE_CAP, qcount := qcount q - 1\<rparr>))"

definition data_config :: job_queue where
  "data_config = \<lparr>jobs = replicate QUEUE_CAP \<lparr>wtype = JOB_NONE, wdata = 0\<rparr>, qhead = 0, qtail = 0, qcount = 0\<rparr>"

section \<open>The configuration\<close>

text \<open>
  \<open>read_param_config\<close> of the daemon: the return value and what \<open>strncpy\<close> leaves in the array of
  \<open>max_len\<close> bytes, which has no terminator when the value fills it.
\<close>

definition read_param :: "bytes \<Rightarrow> nat \<Rightarrow> bool \<Rightarrow> bool \<Rightarrow> bytes option \<Rightarrow> int \<times> bytes" where
  "read_param param max_len locked readable file = (case file of
     None \<Rightarrow> (-1, [])
   | Some content \<Rightarrow>
       if \<not> locked \<or> \<not> readable \<or> content = [] then (-1, [])
       else (case find_param param (strtok_lines (config_text content)) of
         Some v \<Rightarrow> (1, take max_len (v @ replicate (max_len - length v) 0))
       | None \<Rightarrow> (0, [])))"

definition is_space :: "u8 \<Rightarrow> bool" where
  "is_space b = (b = 32 \<or> (9 \<le> b \<and> b \<le> 13))"

definition is_digit :: "u8 \<Rightarrow> bool" where
  "is_digit b = (48 \<le> b \<and> b \<le> 57)"

text \<open>The digits at the front of an array; \<open>None\<close> when they run to its end.\<close>

fun digits :: "nat \<Rightarrow> bytes \<Rightarrow> nat option" where
  "digits acc [] = None"
| "digits acc (b # bs) = (if is_digit b then digits (10 * acc + (unat b - 48)) bs else Some acc)"

text \<open>\<open>atoi\<close> on an array: undefined past the end of the array and outside the range of \<open>int\<close>.\<close>

definition atoi :: "bytes \<Rightarrow> int option" where
  "atoi a = (case dropWhile is_space a of
     [] \<Rightarrow> None
   | b # bs \<Rightarrow>
       (case digits 0 (if b = 43 \<or> b = 45 then bs else b # bs) of
          None \<Rightarrow> None
        | Some n \<Rightarrow> (let i = (if b = 45 then - int n else int n)
                     in if - 2147483648 \<le> i \<and> i \<le> 2147483647 then Some i else None)))"

text \<open>\<open>get_file_config\<close>: \<open>r\<close> answers the three reads of the file.\<close>

definition get_file_config :: "(bytes \<Rightarrow> int \<times> bytes) \<Rightarrow> config option" where
  "get_file_config r =
     (let s = r (ascii ''sample_rate''); d = r (ascii ''delay''); l = r (ascii ''log_level'')
      in case (if fst s = 1 then atoi (snd s) else Some 1000) of
        None \<Rightarrow> None
      | Some sr \<Rightarrow> (case (if fst d = 1 then atoi (snd d) else Some 500) of
          None \<Rightarrow> None
        | Some wd \<Rightarrow> Some \<lparr>sample_rate = sr, woker_delay = wd,
            log_level = (if fst l = 1 then take 31 (cstr (snd l)) else ascii ''INFO'')\<rparr>))"

definition daemon_init :: "string \<Rightarrow> config \<Rightarrow> daemon_state" where
  "daemon_init path c = \<lparr>daemon_data = data_config, daemon_config = c, path_config = path,
     reload_config_count = 0, work_done_count = 0, shutting_down = False\<rparr>"

section \<open>Workers\<close>

text \<open>
  What a worker does with a job: the new state and whether it goes on. \<open>r\<close> answers the reads of
  the configuration.
\<close>

definition run_job :: "(bytes \<Rightarrow> int \<times> bytes) \<Rightarrow> workqueue \<Rightarrow> daemon_state \<Rightarrow> (daemon_state \<times> bool) option" where
  "run_job r w st = (case wtype w of
     JOB_DO_WORK \<Rightarrow> Some (st\<lparr>work_done_count := work_done_count st + 1\<rparr>, True)
   | JOB_PRINT_STATUS \<Rightarrow> Some (st, True)
   | JOB_RELOAD_CONFIG \<Rightarrow> (case get_file_config r of
       None \<Rightarrow> None
     | Some c \<Rightarrow> Some (st\<lparr>daemon_config := c, reload_config_count := reload_config_count st + 1\<rparr>, True))
   | JOB_SHUTDOWN \<Rightarrow> Some (st, False)
   | JOB_NONE \<Rightarrow> Some (st, True))"

datatype worker_pc = Fetching | Holding workqueue | Running workqueue | Ended

datatype signal_pc = Listening | Sending workqueue | Announcing | Stopped

record daemon =
  st :: daemon_state
  workers :: "worker_pc list"
  signaller :: signal_pc
  accepted :: "workqueue list"
  fetched :: "workqueue list"
  finished :: "workqueue list"
  discarded :: "workqueue list"

text \<open>
  The last four fields record the jobs queued, taken from the queue, run, and thrown away; they are
  not part of the program.
\<close>

text \<open>The steps of \<open>worker_thread\<close>: take a job, look at \<open>shutting_down\<close>, run the job.\<close>

definition worker_step :: "(bytes \<Rightarrow> int \<times> bytes) \<Rightarrow> nat \<Rightarrow> daemon \<Rightarrow> daemon option" where
  "worker_step r i d = (case workers d ! i of
     Fetching \<Rightarrow> (case dequeueu_work (shutting_down (st d)) (daemon_data (st d)) of
       Waits \<Rightarrow> Some d
     | Refused \<Rightarrow> Some (d\<lparr>workers := (workers d)[i := if shutting_down (st d) then Ended else Fetching]\<rparr>)
     | Took w q \<Rightarrow> Some (d\<lparr>st := (st d)\<lparr>daemon_data := q\<rparr>, workers := (workers d)[i := Holding w], fetched := fetched d @ [w]\<rparr>))
   | Holding w \<Rightarrow>
       if shutting_down (st d) then Some (d\<lparr>workers := (workers d)[i := Ended], discarded := discarded d @ [w]\<rparr>)
       else Some (d\<lparr>workers := (workers d)[i := Running w]\<rparr>)
   | Running w \<Rightarrow> (case run_job r w (st d) of
       None \<Rightarrow> None
     | Some (s, more_work) \<Rightarrow> Some (d\<lparr>st := s, workers := (workers d)[i := if more_work then Fetching else Ended],
         finished := finished d @ [w]\<rparr>))
   | Ended \<Rightarrow> Some d)"

text \<open>The steps of \<open>sig_thread\<close>: wait for a signal, queue its job, announce the shutdown.\<close>

definition signal_step :: "int \<Rightarrow> daemon \<Rightarrow> daemon" where
  "signal_step sig d = (case signaller d of
     Listening \<Rightarrow> d\<lparr>signaller := Sending \<lparr>wtype = snd (convert_signal_to_string sig), wdata = sig\<rparr>\<rparr>
   | Sending w \<Rightarrow> (case enqueue_work w (daemon_data (st d)) of
       None \<Rightarrow> d
     | Some q \<Rightarrow> d\<lparr>st := (st d)\<lparr>daemon_data := q\<rparr>, accepted := accepted d @ [w],
         signaller := if wtype w = JOB_SHUTDOWN then Announcing else Listening\<rparr>)
   | Announcing \<Rightarrow> d\<lparr>st := (st d)\<lparr>shutting_down := True\<rparr>, signaller := Stopped\<rparr>
   | Stopped \<Rightarrow> d)"

definition daemon_start :: "string \<Rightarrow> config \<Rightarrow> nat \<Rightarrow> daemon" where
  "daemon_start path c n = \<lparr>st = daemon_init path c, workers = replicate n Fetching, signaller = Listening,
     accepted = [], fetched = [], finished = [], discarded = []\<rparr>"

inductive daemon_reach :: "string \<Rightarrow> config \<Rightarrow> nat \<Rightarrow> daemon \<Rightarrow> bool" for path c n where
  start: "daemon_reach path c n (daemon_start path c n)"
| worker: "daemon_reach path c n d \<Longrightarrow> i < length (workers d) \<Longrightarrow> worker_step r i d = Some d' \<Longrightarrow> daemon_reach path c n d'"
| signal: "daemon_reach path c n d \<Longrightarrow> daemon_reach path c n (signal_step sig d)"

section \<open>The invariant\<close>

definition q_holds :: "job_queue \<Rightarrow> workqueue list \<Rightarrow> bool" where
  "q_holds q xs = (ring QUEUE_CAP (jobs q) (qtail q) (qhead q) xs \<and> qcount q = length xs)"

lemma enqueue_work_holds:
  assumes "q_holds q xs" and "enqueue_work w q = Some q'"
  shows "q_holds q' (xs @ [w])"
proof -
  have r: "ring QUEUE_CAP (jobs q) (qtail q) (qhead q) xs" and l: "length xs < QUEUE_CAP"
    using assms ring_bounds(4) [of QUEUE_CAP "jobs q" "qtail q" "qhead q" xs]
    by (auto simp: q_holds_def enqueue_work_def split: if_splits)
  then show ?thesis using ring_put [OF r l, of w] assms by (auto simp: q_holds_def enqueue_work_def split: if_splits)
qed

lemma dequeueu_work_holds:
  assumes h: "q_holds q xs" and e: "dequeueu_work b q = Took w q'"
  shows "\<exists>ys. xs = w # ys \<and> q_holds q' ys"
proof -
  have n: "qcount q \<noteq> 0" using e by (auto simp: dequeueu_work_def split: if_splits)
  then obtain x ys where xs: "xs = x # ys" using h by (cases xs) (auto simp: q_holds_def)
  have r: "ring QUEUE_CAP (jobs q) (qtail q) (qhead q) (x # ys)" using h xs by (simp add: q_holds_def)
  have "w = x" and "q_holds q' ys" using e n h ring_get [OF r] by (auto simp: dequeueu_work_def q_holds_def xs)
  then show ?thesis using xs by simp
qed

interpretation jobs_fifo: bounded_fifo q_holds QUEUE_CAP "\<lambda>w q. True" "\<lambda>w. w"
  "\<lambda>w q. Some (case enqueue_work w q of None \<Rightarrow> (False, q) | Some q' \<Rightarrow> (True, q'))"
  "\<lambda>q. Some (case dequeueu_work False q of Took w q' \<Rightarrow> (Some w, q') | _ \<Rightarrow> (None, q))"
proof (unfold_locales, goal_cases)
  case (1 q xs) then show ?case using ring_bounds(4) by (auto simp: q_holds_def)
next
  case (2 q xs w)
  then obtain q' where e: "enqueue_work w q = Some q'" by (auto simp: q_holds_def enqueue_work_def)
  then show ?case using enqueue_work_holds [OF 2(1) e] by simp
next
  case (3 q xs w) then show ?case by (simp add: q_holds_def enqueue_work_def)
next
  case (4 q) then show ?case by (simp add: q_holds_def dequeueu_work_def)
next
  case (5 q x xs)
  then obtain w q' where e: "dequeueu_work False q = Took w q'" by (auto simp: q_holds_def dequeueu_work_def)
  then show ?case using dequeueu_work_holds [OF 5 e] by auto
qed

text \<open>The job a worker has in its hands.\<close>

fun in_hand :: "worker_pc \<Rightarrow> workqueue list" where
  "in_hand (Holding w) = [w]" | "in_hand (Running w) = [w]" | "in_hand _ = []"

definition hands :: "worker_pc list \<Rightarrow> workqueue multiset" where
  "hands ps = mset (concat (map in_hand ps))"

lemma hands_update:
  "i < length ps \<Longrightarrow> hands (ps[i := p]) + mset (in_hand (ps ! i)) = hands ps + mset (in_hand p)"
proof (induction ps arbitrary: i)
  case (Cons q ps)
  then show ?case by (cases i) (auto simp: hands_def ac_simps)
qed simp

definition jobs_of :: "work_type \<Rightarrow> workqueue list \<Rightarrow> nat" where
  "jobs_of t ws = length (filter (\<lambda>w. wtype w = t) ws)"

lemma jobs_of_simps [simp]:
  "jobs_of t [] = 0" "jobs_of t (ws @ [w]) = jobs_of t ws + (if wtype w = t then 1 else 0)"
  by (simp_all add: jobs_of_def)

text \<open>
  The queue in order; every job taken is run, thrown away or in the hands of a worker; the counters
  count the jobs run; jobs are thrown away only after the shutdown was announced, which follows a
  shutdown job.
\<close>

definition daemon_holds :: "daemon \<Rightarrow> workqueue list \<Rightarrow> bool" where
  "daemon_holds d xs = (q_holds (daemon_data (st d)) xs \<and> accepted d = fetched d @ xs \<and>
     mset (fetched d) = mset (finished d) + mset (discarded d) + hands (workers d) \<and>
     work_done_count (st d) = jobs_of JOB_DO_WORK (finished d) \<and>
     reload_config_count (st d) = jobs_of JOB_RELOAD_CONFIG (finished d) \<and>
     (discarded d \<noteq> [] \<longrightarrow> shutting_down (st d)) \<and>
     (shutting_down (st d) \<longleftrightarrow> signaller d = Stopped) \<and>
     (signaller d = Announcing \<or> signaller d = Stopped \<longleftrightarrow> (\<exists>w \<in> set (accepted d). wtype w = JOB_SHUTDOWN)))"

lemma run_job_keeps:
  assumes "run_job r w s = Some (s', b)"
  shows "daemon_data s' = daemon_data s" and "shutting_down s' = shutting_down s"
    and "work_done_count s' = work_done_count s + (if wtype w = JOB_DO_WORK then 1 else 0)"
    and "reload_config_count s' = reload_config_count s + (if wtype w = JOB_RELOAD_CONFIG then 1 else 0)"
  using assms by (auto simp: run_job_def split: work_type.splits option.splits)

lemma worker_step_holds:
  assumes h: "daemon_holds d xs" and i: "i < length (workers d)" and e: "worker_step r i d = Some d'"
  shows "\<exists>ys. daemon_holds d' ys"
proof (cases "workers d ! i")
  case Fetching
  note u = hands_update [OF i, unfolded Fetching]
  show ?thesis
  proof (cases "dequeueu_work (shutting_down (st d)) (daemon_data (st d))")
    case Waits
    then show ?thesis using e h Fetching by (auto simp: worker_step_def)
  next
    case Refused
    then have "shutting_down (st d)" by (auto simp: dequeueu_work_def split: if_splits)
    then have d': "d' = d\<lparr>workers := (workers d)[i := Ended]\<rparr>" using e Fetching Refused by (simp add: worker_step_def)
    have "daemon_holds d' xs" using h u [of Ended] by (auto simp: daemon_holds_def d')
    then show ?thesis by blast
  next
    case (Took w q)
    then have d': "d' = d\<lparr>st := (st d)\<lparr>daemon_data := q\<rparr>, workers := (workers d)[i := Holding w], fetched := fetched d @ [w]\<rparr>"
      using e Fetching by (simp add: worker_step_def)
    obtain ys where "xs = w # ys" "q_holds q ys" using dequeueu_work_holds [OF _ Took] h by (auto simp: daemon_holds_def)
    then have "daemon_holds d' ys" using h u [of "Holding w"] by (auto simp: daemon_holds_def d')
    then show ?thesis by blast
  qed
next
  case (Holding w)
  note u = hands_update [OF i, unfolded Holding]
  show ?thesis
  proof (cases "shutting_down (st d)")
    case True
    then have d': "d' = d\<lparr>workers := (workers d)[i := Ended], discarded := discarded d @ [w]\<rparr>"
      using e Holding by (simp add: worker_step_def)
    have "daemon_holds d' xs" using h True u [of Ended] by (auto simp: daemon_holds_def d')
    then show ?thesis by blast
  next
    case False
    then have d': "d' = d\<lparr>workers := (workers d)[i := Running w]\<rparr>" using e Holding by (simp add: worker_step_def)
    have "daemon_holds d' xs" using h u [of "Running w"] by (auto simp: daemon_holds_def d')
    then show ?thesis by blast
  qed
next
  case (Running w)
  note u = hands_update [OF i, unfolded Running]
  obtain s b where j: "run_job r w (st d) = Some (s, b)" 
    and d': "d' = d\<lparr>st := s, workers := (workers d)[i := if b then Fetching else Ended], finished := finished d @ [w]\<rparr>"
    using e Running by (auto simp: worker_step_def split: option.splits)
  have "daemon_holds d' xs" using h u [of "if b then Fetching else Ended"] by (cases b) (auto simp: daemon_holds_def d' run_job_keeps [OF j])
  then show ?thesis by blast
next
  case Ended
  then show ?thesis using e h by (auto simp: worker_step_def)
qed

lemma signal_step_holds:
  assumes h: "daemon_holds d xs"
  shows "\<exists>ys. daemon_holds (signal_step sig d) ys"
proof (cases "signaller d")
  case (Sending w)
  show ?thesis
  proof (cases "enqueue_work w (daemon_data (st d))")
    case None
    then show ?thesis using h Sending by (auto simp: signal_step_def)
  next
    case (Some q)
    have "q_holds q (xs @ [w])" using enqueue_work_holds [OF _ Some] h by (simp add: daemon_holds_def)
    then have "daemon_holds (signal_step sig d) (xs @ [w])" using h Sending Some by (auto simp: signal_step_def daemon_holds_def)
    then show ?thesis by blast
  qed
qed (use h in \<open>auto simp: signal_step_def daemon_holds_def\<close>)

lemma daemon_reach_holds: "daemon_reach path c n d \<Longrightarrow> \<exists>xs. daemon_holds d xs"
proof (induction rule: daemon_reach.induct)
  case start
  have "hands (replicate n Fetching) = {#}" by (induction n) (simp_all add: hands_def)
  moreover have "q_holds data_config []" by (simp add: q_holds_def data_config_def ring_def QUEUE_CAP_def)
  ultimately show ?case
    by (intro exI [of _ "[]"]) (simp add: daemon_holds_def daemon_start_def daemon_init_def)
next
  case (worker d i r d')
  then show ?case using worker_step_holds by blast
next
  case (signal d sig)
  then show ?case using signal_step_holds by blast
qed

section \<open>Shutdown\<close>

text \<open>The number of steps a worker has left once the shutdown is announced.\<close>

fun steps_left :: "worker_pc \<Rightarrow> nat" where
  "steps_left (Running w) = 3" | "steps_left Fetching = 2" | "steps_left (Holding w) = 1" | "steps_left Ended = 0"

lemma worker_step_ends:
  assumes "shutting_down (st d)" and "i < length (workers d)" and "workers d ! i \<noteq> Ended" and "worker_step r i d = Some d'"
  shows "steps_left (workers d' ! i) < steps_left (workers d ! i)"
  using assms
  by (cases "workers d ! i") (auto simp: worker_step_def dequeueu_work_def split: if_splits option.splits)

section \<open>The configuration the daemon reads\<close>

text \<open>A value of less than 64 bytes that the configuration tool finds, the daemon finds as well.\<close>

lemma read_param_agrees:
  assumes "read_param_config param Locked Read_ok (Some content) = Some (Found v)" and "length v < 64"
  shows "read_param param 64 True True (Some content) = (1, v @ replicate (64 - length v) 0)"
  using assms by (auto simp: read_param_def read_param_config_def split: if_splits option.splits)

text \<open>A number of 64 digits or more leaves the array without a terminator, past which \<open>atoi\<close> reads.\<close>

lemma digits_run_off: "\<forall>b \<in> set a. is_digit b \<Longrightarrow> digits acc a = None"
  by (induction a arbitrary: acc) auto

lemma digit_not_space: "is_digit b \<Longrightarrow> \<not> is_space b \<and> b \<noteq> 43 \<and> b \<noteq> 45"
  by (auto simp: is_digit_def is_space_def word_le_nat_alt)

lemma long_number_undefined:
  assumes d: "\<forall>b \<in> set v. is_digit b" and l: "64 \<le> length v"
    and r: "read_param (ascii ''sample_rate'') 64 True True file = (1, take 64 v)"
  shows "get_file_config (\<lambda>k. read_param k 64 True True file) = None"
proof -
  obtain b bs where a: "take 64 v = b # bs" using l by (cases "take 64 v") auto
  have "\<forall>x \<in> set (b # bs). is_digit x" using d set_take_subset [of 64 v] unfolding a by blast
  then have "atoi (b # bs) = None" using digit_not_space [of b] digits_run_off [of "b # bs" 0] by (simp add: atoi_def)
  then show ?thesis using r by (simp add: get_file_config_def Let_def a)
qed

section \<open>Property\<close>


text \<open>A run: \<open>SIGTERM\<close> arrives, its job is queued and the shutdown announced.\<close>

definition sample_config :: config where
  "sample_config = \<lparr>sample_rate = 1000, woker_delay = 500, log_level = []\<rparr>"

definition stopping :: daemon where
  "stopping = (signal_step 15 ^^ 3) (daemon_start [] sample_config 5)"

lemma stopping_reach: "daemon_reach [] sample_config 5 stopping"
proof -
  have "daemon_reach [] sample_config 5 ((signal_step 15 ^^ k) (daemon_start [] sample_config 5))" for k
    by (induction k) (auto intro: daemon_reach.intros)
  then show ?thesis by (simp add: stopping_def)
qed


end
