(* ===== verification/Spec2Isabelle.thy ===== *)
theory Spec2Isabelle
  imports Gateway Control_Plane Posix_Hub Sysv_Hub Daemon
begin

text \<open>
  Verification development for the Linux system-programming projects under \<open>src/\<close>: a TLS sensor
  gateway (\<open>gateway\<close>), a control-plane server on Unix domain sockets
  (\<open>unix-domain-socket-control-plane\<close>), two sensor hubs on POSIX and System V IPC
  (\<open>gateway-core-posix\<close>, \<open>system-V-ipc-sensorhub\<close>), a configuration tool (\<open>safe-config-tool\<close>) and a
  daemon driven by signals (\<open>signal-aware-multithreaded-daemon\<close>). The programs are independent of
  each other, except that the daemon reads files of the format the configuration tool writes.

  \<^bold>\<open>How the C code is modelled.\<close> A struct is a record with the fields of the source, an enum a
  datatype, a function a definition of the same name that takes and returns the state it
  changes. Machine integers are words where their width matters; memory is a list of bytes or a map from
  addresses to nodes. The result \<open>None\<close> is undefined behaviour (an access outside an array, through
  a NULL or freed pointer, an overflow of \<open>int\<close>), unless the text beside a definition says that
  it is a thread that waits. What the kernel, the clock, \<open>malloc\<close>, the devices and OpenSSL answer is an
  argument, so that a theorem holds for every answer. A section under a mutex is one step; threads
  interleave by inductive step relations. Printing and logging are left out.

  \<^bold>\<open>Shared theories.\<close>
  \<^item> \<open>Prelude\<close>: machine types, byte arrays, decimal numbers, typed heaps, and the contracts of a
    non-blocking source and sink of bytes (locales \<open>byte_reader\<close> and \<open>byte_sender\<close>), interpreted on
    sockets as lists of arrivals and as buffers that accept portions.
  \<^item> \<open>Linked_Nodes\<close>: lists of heap nodes (\<open>linked_nodes\<close>) and the contract of a bounded first-in
    first-out buffer (\<open>bounded_fifo\<close>), interpreted on every queue of the programs that keeps it: the
    gateway's responses, the control plane's tasks, the readings of both sensor hubs and the jobs of
    the daemon.
  \<^item> \<open>Ring\<close>: an array with a write and a read index as a queue.
  \<^item> \<open>Double\<close>: rounding of C's \<open>double\<close>.

  \<^bold>\<open>The gateway.\<close> One thread accepts connections and reads frames (\<open>server.c\<close>, \<open>client.c\<close>), puts
  tasks on a queue (\<open>queue.c\<close>) from which workers take them (\<open>worker_thread.c\<close>), work on the devices
  (\<open>task_execute.c\<close>) and queue responses, which the first thread frames and sends.
  \<^item> \<open>Crc\<close> (\<open>crc.c\<close>), \<open>Protocol_Message\<close> (\<open>protocol_message.c\<close>), \<open>Rate_Limit\<close> (\<open>rate_limit.c\<close>): the
    checksum equals its bitwise definition and detects bursts; \<open>packet_encode\<close> writes exactly the
    frame within its buffer; the token bucket admits no more than capacity and rate allow.
  \<^item> \<open>Queue\<close> (\<open>queue.c\<close>): the response queue is a bounded first-in first-out buffer; the task queue
    loses tasks and writes through a freed tail.
  \<^item> \<open>Client\<close> (\<open>client.c\<close>, \<open>common.c\<close>): slots, transmit queues, plain and TLS sending; the TLS flush
    drops queued and partly sent messages.
  \<^item> \<open>Frame_Reader\<close>, \<open>Request\<close> (\<open>server.c\<close>): the reading loop, and what the whole handler makes of a
    byte stream, as a refinement of the function \<open>next_request\<close> on the bytes received.
  \<^item> \<open>Cjson_Number\<close>, \<open>Cjson_Parse\<close>, \<open>Cjson_Print\<close>, \<open>Cjson_Roundtrip\<close>, \<open>Cjson_Types\<close> (\<open>cJSON.c\<close>) and
    \<open>Payload_Json\<close> (\<open>payload_json.c\<close>): parser and printer stay within their buffers for every input
    and allocation, values survive printing and parsing, request and response bodies.
  \<^item> \<open>Devices\<close> (\<open>task_execute.c\<close>), \<open>Worker\<close> (\<open>worker_thread.c\<close>): the commands sent to the actuators,
    and every task's response with its slot, generation and request id.
  \<^item> \<open>Server\<close>, \<open>Server_Invariant\<close>, \<open>Server_Start\<close> (\<open>server.c\<close>) and \<open>Gateway\<close>: the handlers, their
    invariant, start-up, and the threads together over an interface of the network (locale
    \<open>network\<close>): the invariant in every reachable state, safety but for three named faults, the answer to an
    echo request from its bytes to the response frame, and shutdown.

  \<^bold>\<open>The control plane.\<close> An I/O thread reads frames into tasks of three priorities, workers answer them.
  \<^item> \<open>Uds_Message\<close> (\<open>common/common.h\<close>): frames as bytes in memory, checksum, building and sending.
  \<^item> \<open>Uds_Client\<close> (\<open>gatewayd/server.h\<close>): the frame reader and the ring of outgoing messages of a
    connection; a frame is read back exactly, from any portions.
  \<^item> \<open>Uds_Server\<close> (\<open>gatewayd/server.h\<close>, \<open>server.c\<close>): sessions, task queues, the handlers of the epoll
    build, the commands, the workers and the signal thread.
  \<^item> \<open>Uds_Invariant\<close>, \<open>Control_Plane\<close>: \<open>pending_task\<close> counts the outstanding requests of each
    connection, which keeps its slot from being reused under them; no step is undefined except
    on a frame with an unknown priority, which crashes the server; each request gets its reply.

  \<^bold>\<open>The sensor hubs.\<close>
  \<^item> \<open>Posix_Shm\<close> (\<open>gateway-core-posix/common\<close>), \<open>Posix_Hub\<close> (\<open>sensor\<close>, \<open>controller\<close>, \<open>monitor\<close>): the
    shared ring with its semaphores, as whole calls and as the atomic actions they are made of. In every
    interleaving of any number of threads no reading is lost or reordered and the semaphores count
    exactly; the monitor takes a full ring for an empty one.
  \<^item> \<open>Sysv_Hub\<close> (\<open>system-V-ipc-sensorhub\<close>): keys and identifiers, the shared ring with one empty
    cell, the controller, and the writer with its queue of commands and its workers. Commands are run in
    order and none is left behind, but for one queued on a full queue at shutdown.

  \<^bold>\<open>The configuration tool and the daemon.\<close>
  \<^item> \<open>Config_File\<close> (\<open>safe-config-tool/main.c\<close>): reading and writing a parameter, as the states the
    configuration, temporary and backup file pass through. A written parameter is read back and the
    others are kept; at no moment does the configuration file show a part of the new contents.
    Larger files are cut, and a backup copied in portions may never end.
  \<^item> \<open>Daemon\<close> (\<open>signal-aware-multithreaded-daemon/main.c\<close>): signals, jobs, workers, the watcher and the
    configuration. Jobs run in order, the counters count them, and after a shutdown every worker ends.

  \<^bold>\<open>Fuel and bounds.\<close> The reading and sending loops have fuel; the lemmas that they return show that
  fuel above the work left in the socket (\<open>sock_work\<close> for a source, the number of bytes and pending
  answers for a sink) is enough, and the handlers pass that much. Loops over the answers of the
  kernel (\<open>drain_loop\<close>, \<open>backup_loop\<close>, \<open>notify_main_thread\<close>) recurse on the list of answers. The other
  loops are total functions with their termination proofs. Nesting of JSON values is bounded by the
  limit of the library, arrays by the sizes in the source.

  \<^bold>\<open>Not modelled.\<close>
  \<^item> The loggers, \<open>main\<close> functions that only open, map, start and join, and \<open>shutdown_ipc\<close>: input,
    output and system calls without state of the program's own.
  \<^item> \<open>tls.c\<close>: calls of OpenSSL, whose success is an argument.
  \<^item> The clients (\<open>gateway/client\<close>, \<open>gatewaycli\<close>): interactive programs on the frames modelled here.
  \<^item> The poll and select builds of the control plane, which the macros of \<open>server.h\<close> switch off, and
    the parts of \<open>cJSON.c\<close> that the gateway does not call.
  \<^item> \<open>process-supervisor\<close>, \<open>ipc-cmd-pipeline\<close>, \<open>system-V-ipc-sensorhub/main.c\<close>: \<open>fork\<close>, \<open>exec\<close>, pipes and
    \<open>waitpid\<close>, whose behaviour is that of the kernel's processes.
  \<^item> \<open>safe-config-tool/notify.c\<close> and \<open>notify_sig.c\<close>: setting up and printing inotify events.
  \<^item> Two processes that initialise the shared memory of the POSIX hub at the same moment: the
    initialisation is one step.
  \<^item> Fairness of the scheduler: progress is stated for the steps a thread takes.
\<close>

end
